(* ===== verification/Prelude.thy ===== *)
theory Prelude imports Main "HOL-Library.Word" begin

text \<open>
  Shared vocabulary of the development.

  Go's fixed-width integers keep their width: an \<open>int64\<close> is a 64-bit word whose value is read
  with \<open>sint\<close>, so additions wrap as they do in the program.  Strings are Go strings, that is byte
  strings: a \<open>char\<close> is one byte.  An instant (\<open>time.Time\<close>) is the number of nanoseconds since the
  Unix epoch as an unbounded integer; Go's zero \<open>time.Time\<close> (1 January of year 1) is the instant
  \<open>zero_time\<close>.  A \<open>time.Duration\<close> is a number of nanoseconds.
\<close>

type_synonym int64 = "64 word"
type_synonym byte = "8 word"
type_synonym time = int
type_synonym duration = int

definition zero_time :: time where
  "zero_time = - 62135596800 * 1000000000"

definition IsZero :: "time \<Rightarrow> bool" where
  "IsZero t \<longleftrightarrow> t = zero_time"

definition After :: "time \<Rightarrow> time \<Rightarrow> bool" where
  "After t u \<longleftrightarrow> u < t"

definition UnixNano :: "time \<Rightarrow> int64" where
  "UnixNano t = word_of_int t"

definition second :: duration where
  "second = 1000000000"

text \<open>
  The collection \<open>word_arith\<close> moves comparisons of \<open>int64\<close> values to the integers.
\<close>

named_theorems word_arith


lemma sint64_bounds: "- (2 ^ 63) \<le> sint (x :: int64)" "sint (x :: int64) < 2 ^ 63"
  using sint_ge [of x] sint_lt [of x] by simp_all

lemma sint64_of_int [word_arith]:
  assumes "- (2 ^ 63) \<le> i" and "i < 2 ^ 63"
  shows "sint (word_of_int i :: int64) = i"
  using assms by (simp add: signed_of_int signed_take_bit_int_eq_self)

lemma sint64_add [word_arith]:
  assumes "- (2 ^ 63) \<le> sint a + sint b" and "sint a + sint b < 2 ^ 63"
  shows "sint (a + b :: int64) = sint a + sint b"
proof -
  have "a + b = word_of_int (sint a + sint b)" by simp
  then show ?thesis using assms by (simp only: sint64_of_int)
qed

lemma sint64_diff [word_arith]:
  assumes "- (2 ^ 63) \<le> sint a - sint b" and "sint a - sint b < 2 ^ 63"
  shows "sint (a - b :: int64) = sint a - sint b"
proof -
  have "a - b = word_of_int (sint a - sint b)" by simp
  then show ?thesis using assms by (simp only: sint64_of_int)
qed

lemma sint64_of_nat [word_arith]:
  assumes "n < 2 ^ 63"
  shows "sint (word_of_nat n :: int64) = int n"
proof -
  have "(word_of_nat n :: int64) = word_of_int (int n)" by simp
  moreover have "int n < 2 ^ 63" using assms by (simp add: nat_less_iff [symmetric])
  ultimately show ?thesis by (simp only: sint64_of_int)
qed

lemma take_length_self: "ys = take n xs \<Longrightarrow> ys = take (length ys) xs"
  by (simp add: min_def)

lemma nat_lt_63: "int n < 2 ^ 63 \<Longrightarrow> n < 2 ^ 63"
  by simp

lemma sint64_zero [simp]: "sint (0 :: int64) = 0" by simp

text \<open>Sums over finite families, as the quota counts them, when one member changes.\<close>

lemma sum_update_one:
  fixes f :: "'a \<Rightarrow> 'b :: ab_group_add"
  assumes "finite A" and "a \<in> A"
  shows "sum (f(a := v)) A = sum f A - f a + v"
proof -
  have "sum (f(a := v)) A = v + sum (f(a := v)) (A - {a})"
    using assms by (simp add: sum.remove)
  also have "sum (f(a := v)) (A - {a}) = sum f (A - {a})"
    by (rule sum.cong) auto
  also have "sum f (A - {a}) = sum f A - f a"
    using assms by (simp add: sum.remove)
  finally show ?thesis by simp
qed

lemma sum_update_other:
  assumes "a \<notin> A"
  shows "sum (f(a := v)) A = sum f A"
  using assms by (intro sum.cong) auto

end
