(* ===== verification/Errors.thy ===== *)
theory Errors imports Prelude begin

text \<open>
  Error values.  Go errors are identities (\<open>errors.New\<close>) compared with \<open>errors.Is\<close>, wrapped by
  \<open>fmt.Errorf\<close> with \<open>%w\<close>.  An identity is a constructor of \<open>sentinel\<close>; \<open>Wrapf\<close> is a wrapping
  with its text and the wrapped errors; \<open>PathErr\<close> is an \<open>*os.PathError\<close> with its path and its cause.  The identities are those of \<open>clip/errors.go\<close>, of
  \<open>store/internal/buffer/buffer.go\<close>, \<open>store/store.go\<close>, \<open>api/errors.go\<close>, \<open>client/errors.go\<close>,
  \<open>archive/archive.go\<close>, and of the standard library the code compares against.  \<open>OsFault n\<close> is a
  fault of the operating system that has no identity the program knows.
\<close>

datatype sentinel =
    ErrNotFound | ErrConsumed | ErrBusy | ErrClosed | ErrPreconditionFailed
  | ErrTooLarge | ErrNoSpace | ErrNameInvalid | ErrAborted | ErrFilenameInvalid
  | BufOffset | BufClosed
  | WaitElapsed
  | BadRequest | ServerStopping
  | ErrUnreachable | ErrSource | ErrUnavailable | ErrConsumeUnconfirmed
  | HTTPError int string
  | ArUnsafePath | ArUnsupportedEntry | ArExists | ArTooManyEntries | ArDestExists
  | ArDuplicateRoot | ArUnusableRoot | ArNoRoots | ArEmptyArchive
  | IoEOF | IoUnexpectedEOF | IoClosedPipe
  | CtxCanceled | CtxDeadlineExceeded
  | OsErrExist | OsErrNotExist | OsErrClosed | OsFault nat
  | Usage string

datatype err = Leaf sentinel | Wrapf string "err list" | PathErr string err

text \<open>\<open>errors.Is\<close>: the error itself or anything it wraps has the identity.\<close>

fun is_err :: "err \<Rightarrow> sentinel \<Rightarrow> bool" where
  "is_err (Leaf s) t = (s = t)"
| "is_err (Wrapf m es) t = list_ex (\<lambda>e. is_err e t) es"
| "is_err (PathErr p e) t = is_err e t"

text \<open>Every identity an error carries.\<close>

fun idents :: "err \<Rightarrow> sentinel set" where
  "idents (Leaf s) = {s}"
| "idents (Wrapf m es) = (\<Union>e \<in> set es. idents e)"
| "idents (PathErr p e) = idents e"

lemma is_err_idents: "is_err e t \<longleftrightarrow> t \<in> idents e"
  by (induction e t rule: is_err.induct) (auto simp: list_ex_iff)

lemma is_err_wrap1 [simp]: "is_err (Wrapf m [e]) t = is_err e t"
  by simp

end
