(* ===== verification/Clip.thy ===== *)
theory Clip imports Errors begin

text \<open>
  The domain vocabulary, package \<open>clip\<close>: the kinds and the metadata record with its
  normalisation (\<open>clip/clip.go\<close>), the list of lifecycle sentinels (\<open>clip/errors.go\<close>) and the
  two name validators (\<open>clip/name.go\<close>).
\<close>

type_synonym Kind = string

definition KindBytes :: Kind where "KindBytes = ''bytes''"
definition KindFile :: Kind where "KindFile = ''file''"
definition KindArchive :: Kind where "KindArchive = ''archive''"

definition Kind_Valid :: "Kind \<Rightarrow> bool" where
  "Kind_Valid k \<longleftrightarrow> k = KindBytes \<or> k = KindFile \<or> k = KindArchive"

record Meta =
  Kind :: Kind
  Filename :: string
  Executable :: bool

definition Normalized :: "Meta \<Rightarrow> Meta" where
  "Normalized m =
     (let m1 = (if Kind m \<noteq> KindFile then m\<lparr>Executable := False\<rparr> else m);
          m2 = (if Kind m1 \<noteq> KindFile \<and> Kind m1 \<noteq> KindArchive then m1\<lparr>Filename := ''''\<rparr> else m1)
      in m2)"

text \<open>The runtime view of a clip, \<open>clip.Clip\<close>.\<close>

record Clip =
  Name :: string
  Generation :: string
  ClipMeta :: Meta
  Size :: int64
  CreatedAt :: time
  FinalizedAt :: time
  ExpiresAt :: time
  ConsumeOnce :: bool
  Finalized :: bool

definition zero_clip :: Clip where
  "zero_clip = \<lparr>Name = '''', Generation = '''',
     ClipMeta = \<lparr>Kind = '''', Filename = '''', Executable = False\<rparr>, Size = 0,
     CreatedAt = zero_time, FinalizedAt = zero_time, ExpiresAt = zero_time,
     ConsumeOnce = False, Finalized = False\<rparr>"

definition Sentinels :: "sentinel list" where
  "Sentinels = [ErrNotFound, ErrConsumed, ErrBusy, ErrClosed, ErrPreconditionFailed, ErrTooLarge,
     ErrNoSpace, ErrNameInvalid, ErrAborted, ErrFilenameInvalid]"

subsection \<open>Names\<close>

definition is_digit_c :: "char \<Rightarrow> bool" where
  "is_digit_c c \<longleftrightarrow> (48 :: nat) \<le> of_char c \<and> of_char c \<le> (57 :: nat)"

definition is_alnum :: "char \<Rightarrow> bool" where
  "is_alnum c \<longleftrightarrow> is_digit_c c
     \<or> (65 :: nat) \<le> of_char c \<and> of_char c \<le> (90 :: nat)
     \<or> (97 :: nat) \<le> of_char c \<and> of_char c \<le> (122 :: nat)"

definition name_rest :: "char \<Rightarrow> bool" where
  "name_rest c \<longleftrightarrow> is_alnum c \<or> c = CHR ''.'' \<or> c = CHR ''_'' \<or> c = CHR ''-''"

text \<open>The anchored regular expression: one alphanumeric, then at most 127 of the wider class.\<close>

fun nameRe :: "string \<Rightarrow> bool" where
  "nameRe [] = False"
| "nameRe (c # cs) = (is_alnum c \<and> list_all name_rest cs \<and> length cs \<le> 127)"

definition ValidName :: "string \<Rightarrow> err option" where
  "ValidName name = (if nameRe name then None else Some (Leaf ErrNameInvalid))"

text \<open>
  \<open>utf8.ValidString\<close>: the byte patterns of well-formed UTF-8 (RFC 3629), with the accept ranges
  of the second byte that exclude overlong forms, surrogates and code points past U+10FFFF.
\<close>

definition cont_in :: "nat \<Rightarrow> nat \<Rightarrow> nat \<Rightarrow> bool" where
  "cont_in lo hi b \<longleftrightarrow> lo \<le> b \<and> b \<le> hi"

fun utf8_valid :: "nat list \<Rightarrow> bool" where
  "utf8_valid [] = True"
| "utf8_valid (b # bs) =
    (if b < 128 then utf8_valid bs
     else if 194 \<le> b \<and> b \<le> 223 then
       (case bs of c # r \<Rightarrow> cont_in 128 191 c \<and> utf8_valid r | _ \<Rightarrow> False)
     else if 224 \<le> b \<and> b \<le> 239 then
       (case bs of c # d # r \<Rightarrow>
          cont_in (if b = 224 then 160 else 128) (if b = 237 then 159 else 191) c
          \<and> cont_in 128 191 d \<and> utf8_valid r
        | _ \<Rightarrow> False)
     else if 240 \<le> b \<and> b \<le> 244 then
       (case bs of c # d # e # r \<Rightarrow>
          cont_in (if b = 240 then 144 else 128) (if b = 244 then 143 else 191) c
          \<and> cont_in 128 191 d \<and> cont_in 128 191 e \<and> utf8_valid r
        | _ \<Rightarrow> False)
     else False)"

definition ValidString :: "string \<Rightarrow> bool" where
  "ValidString s = utf8_valid (map of_char s)"

definition bad_filename_byte :: "char \<Rightarrow> bool" where
  "bad_filename_byte c \<longleftrightarrow>
     c = CHR ''/'' \<or> of_char c = (92 :: nat) \<or> of_char c < (32 :: nat) \<or> of_char c = (127 :: nat)"

definition ValidFilename :: "string \<Rightarrow> err option" where
  "ValidFilename name =
     (if name = '''' \<or> length name > 255 \<or> name = ''.'' \<or> name = ''..'' \<or> \<not> ValidString name
      then Some (Leaf ErrFilenameInvalid)
      else if list_ex bad_filename_byte name then Some (Leaf ErrFilenameInvalid)
      else None)"

subsection \<open>Facts\<close>

lemma Kind_distinct [simp]:
  "KindBytes \<noteq> KindFile" "KindFile \<noteq> KindBytes" "KindBytes \<noteq> KindArchive"
  "KindArchive \<noteq> KindBytes" "KindFile \<noteq> KindArchive" "KindArchive \<noteq> KindFile"
  by (simp_all add: KindBytes_def KindFile_def KindArchive_def)

lemma Normalized_Kind [simp]: "Kind (Normalized m) = Kind m"
  by (simp add: Normalized_def Let_def)

lemma Normalized_Executable [simp]: "Executable (Normalized m) = (Executable m \<and> Kind m = KindFile)"
  by (auto simp: Normalized_def Let_def)

lemma Normalized_Filename [simp]:
  "Filename (Normalized m) = (if Kind m = KindFile \<or> Kind m = KindArchive then Filename m else '''')"
  by (auto simp: Normalized_def Let_def)

lemma Normalized_idem [simp]: "Normalized (Normalized m) = Normalized m"
  by (rule Meta.equality) simp_all

text \<open>The legal shapes: a bytes stream carries neither field, a file both, an archive a name.\<close>

definition legal_meta :: "Meta \<Rightarrow> bool" where
  "legal_meta m \<longleftrightarrow>
     (Executable m \<longrightarrow> Kind m = KindFile) \<and>
     (Filename m \<noteq> '''' \<longrightarrow> Kind m = KindFile \<or> Kind m = KindArchive)"

text \<open>
  \<open>Meta.Normalized\<close> is total and idempotent, leaves the kind alone, always yields a legal
  combination of kind, filename and executable bit, and changes a record exactly when the record
  was not legal already.
\<close>

theorem Normalized_closure:
  "legal_meta (Normalized m) \<and> Normalized (Normalized m) = Normalized m
   \<and> Kind (Normalized m) = Kind m \<and> (Normalized m = m \<longleftrightarrow> legal_meta m)"
proof -
  have legal: "legal_meta (Normalized m)" by (simp add: legal_meta_def)
  moreover have "Normalized m = m" if "legal_meta m"
    using that by (intro Meta.equality) (auto simp: legal_meta_def)
  moreover have "legal_meta m" if "Normalized m = m"
    using legal that by simp
  ultimately show ?thesis using Normalized_idem [of m] Normalized_Kind [of m] by blast
qed

lemma alnum_ascii: "is_alnum c \<Longrightarrow> of_char c < (128 :: nat)"
  by (auto simp: is_alnum_def is_digit_c_def)

lemma name_rest_code: "name_rest c \<Longrightarrow> 45 \<le> (of_char c :: nat) \<and> (of_char c :: nat) < 123
    \<and> (of_char c :: nat) \<noteq> 47 \<and> (of_char c :: nat) \<noteq> 92"
  by (auto simp: name_rest_def is_alnum_def is_digit_c_def)

lemma utf8_valid_ascii: "\<forall>b \<in> set bs. b < 128 \<Longrightarrow> utf8_valid bs"
  by (induction bs) auto

lemma nameRe_rest: "nameRe n \<Longrightarrow> c \<in> set n \<Longrightarrow> name_rest c"
  by (cases n) (auto simp: name_rest_def list_all_iff)

lemma nameRe_not_dots: "nameRe n \<Longrightarrow> n \<noteq> '''' \<and> n \<noteq> ''.'' \<and> n \<noteq> ''..''"
  by (cases n) (auto simp: is_alnum_def is_digit_c_def)

lemma nameRe_length: "nameRe n \<Longrightarrow> length n \<le> 128"
  by (cases n) auto

text \<open>
  Every valid clip name is also a safe basename: whatever \<open>ValidName\<close> accepts,
  \<open>ValidFilename\<close> accepts too, so a paste may always fall back to the slot's name as the file
  name it saves under.
\<close>

theorem ValidName_is_ValidFilename:
  "ValidName n = None \<Longrightarrow> ValidFilename n = None"
proof -
  assume "ValidName n = None"
  then have n: "nameRe n" by (simp add: ValidName_def split: if_splits)
  have "ValidString n"
    unfolding ValidString_def
    using nameRe_rest [OF n] name_rest_code by (intro utf8_valid_ascii) fastforce
  moreover have "\<not> list_ex bad_filename_byte n"
    using nameRe_rest [OF n] name_rest_code
    by (fastforce simp: list_ex_iff bad_filename_byte_def)
  ultimately show "ValidFilename n = None"
    using nameRe_not_dots [OF n] nameRe_length [OF n] by (simp add: ValidFilename_def)
qed

theorem ValidName_is_ValidFilename_witness:
  "ValidName ''report.v2'' = None \<and> ValidFilename ''report.v2'' = None"
proof -
  have "ValidName ''report.v2'' = None"
    by (simp add: ValidName_def name_rest_def is_alnum_def is_digit_c_def)
  then show ?thesis using ValidName_is_ValidFilename by blast
qed

end
