(* ===== verification/GenId.thy ===== *)
theory GenId imports Errors "HOL-Library.Char_ord" "HOL-Library.List_Lexorder" begin

text \<open>
  Generation identities, \<open>store/genid.go\<close>, and their parser in \<open>store/recovery.go\<close>.  A \<open>genID\<close> is
  sixteen bytes: a big-endian per-name counter, then eight random bytes.  The per-name seed
  \<open>lastPrefix\<close>, which lives on the clip handle, and the outcome of the random read are arguments of
  \<open>allocate\<close>.
\<close>

type_synonym genID = "byte list"

definition wf_id :: "genID \<Rightarrow> bool" where
  "wf_id g \<longleftrightarrow> length g = 16"

definition zero_id :: genID where
  "zero_id = replicate 16 0"

text \<open>\<open>binary.BigEndian\<close>: \<open>PutUint64\<close> and \<open>Uint64\<close>.\<close>

definition PutUint64 :: "64 word \<Rightarrow> byte list" where
  "PutUint64 v = [ucast (drop_bit 56 v), ucast (drop_bit 48 v), ucast (drop_bit 40 v),
     ucast (drop_bit 32 v), ucast (drop_bit 24 v), ucast (drop_bit 16 v),
     ucast (drop_bit 8 v), ucast v]"

definition be_nat :: "byte list \<Rightarrow> nat" where
  "be_nat bs = foldl (\<lambda>a b. a * 256 + unat b) 0 bs"

definition Uint64 :: "byte list \<Rightarrow> 64 word" where
  "Uint64 bs = word_of_nat (be_nat bs)"

text \<open>\<open>hex.EncodeToString\<close> and \<open>hex.Decode\<close>, which also accepts upper case.\<close>

definition hextable :: string where
  "hextable = ''0123456789abcdef''"

definition hex_byte :: "byte \<Rightarrow> string" where
  "hex_byte b = [hextable ! (unat b div 16), hextable ! (unat b mod 16)]"

definition EncodeToString :: "byte list \<Rightarrow> string" where
  "EncodeToString bs = concat (map hex_byte bs)"

definition fromHexChar :: "char \<Rightarrow> nat option" where
  "fromHexChar c =
     (let n = of_char c :: nat in
      if 48 \<le> n \<and> n \<le> 57 then Some (n - 48)
      else if 97 \<le> n \<and> n \<le> 102 then Some (n - 97 + 10)
      else if 65 \<le> n \<and> n \<le> 70 then Some (n - 65 + 10)
      else None)"

fun hex_Decode :: "string \<Rightarrow> byte list option" where
  "hex_Decode [] = Some []"
| "hex_Decode [c] = None"
| "hex_Decode (c # d # s) =
     (case fromHexChar c of None \<Rightarrow> None
      | Some a \<Rightarrow> (case fromHexChar d of None \<Rightarrow> None
        | Some b \<Rightarrow> (case hex_Decode s of None \<Rightarrow> None
          | Some bs \<Rightarrow> Some (word_of_nat (a * 16 + b) # bs))))"

subsection \<open>The operations of \<open>genID\<close>\<close>

definition genID_String :: "genID \<Rightarrow> string" where
  "genID_String g = EncodeToString g"

definition prefix_of :: "genID \<Rightarrow> 64 word" where
  "prefix_of g = Uint64 (take 8 g)"

definition id_after :: "genID \<Rightarrow> genID \<Rightarrow> bool" where
  "id_after g other =
     (let a = prefix_of g; b = prefix_of other
      in if a \<noteq> b then b < a else Uint64 (drop 8 other) < Uint64 (drop 8 g))"

text \<open>
  \<open>allocate\<close> of the handle: the new seed and the id.  A failing \<open>rand.Read\<close> leaves the seed.
\<close>

definition allocate :: "64 word \<Rightarrow> time \<Rightarrow> err + byte list \<Rightarrow> 64 word \<times> (err + genID)" where
  "allocate lastPrefix now rnd =
     (let prefix = UnixNano now;
          prefix = (if prefix \<le> lastPrefix then lastPrefix + 1 else prefix)
      in case rnd of
           Inl e \<Rightarrow> (lastPrefix, Inl e)
         | Inr r \<Rightarrow> (prefix, Inr (PutUint64 prefix @ r)))"

definition parseGenID :: "string \<Rightarrow> genID option" where
  "parseGenID s =
     (if length s \<noteq> 32 then None
      else case hex_Decode s of
             None \<Rightarrow> None
           | Some g \<Rightarrow> (if genID_String g \<noteq> s then None else Some g))"

subsection \<open>Big-endian bytes\<close>

lemma be_nat_Nil [simp]: "be_nat [] = 0"
  by (simp add: be_nat_def)

lemma be_nat_snoc: "be_nat (bs @ [b]) = be_nat bs * 256 + unat b"
  by (simp add: be_nat_def)

lemma unat_byte_less: "unat (b :: byte) < 256"
  using unsigned_less [of b, where 'a = nat] by simp

lemma be_nat_append: "be_nat (xs @ ys) = be_nat xs * 256 ^ length ys + be_nat ys"
proof (induction ys rule: rev_induct)
  case Nil show ?case by simp
next
  case (snoc y ys)
  have "be_nat (xs @ ys @ [y]) = be_nat (xs @ ys) * 256 + unat y"
    using be_nat_snoc [of "xs @ ys" y] by simp
  then show ?case by (simp add: snoc be_nat_snoc algebra_simps)
qed

lemma be_nat_Cons: "be_nat (b # bs) = unat b * 256 ^ length bs + be_nat bs"
  using be_nat_append [of "[b]" bs] be_nat_snoc [of "[]" b] by simp

lemma be_nat_less: "be_nat bs < 256 ^ length bs"
proof (induction bs)
  case Nil show ?case by simp
next
  case (Cons b bs)
  have "be_nat (b # bs) < unat b * 256 ^ length bs + 256 ^ length bs"
    using Cons by (simp add: be_nat_Cons)
  also have "\<dots> = Suc (unat b) * 256 ^ length bs" by simp
  also have "\<dots> \<le> 256 * 256 ^ length bs"
    using unat_byte_less [of b] by (intro mult_right_mono) simp_all
  finally show ?case by simp
qed

lemma unat_Uint64: "length bs = 8 \<Longrightarrow> unat (Uint64 bs) = be_nat bs"
  using be_nat_less [of bs] by (simp add: Uint64_def unat_of_nat)

lemma be_nat_PutUint64: "be_nat (PutUint64 v) = unat v"
proof -
  have bound: "unat v < 2 ^ 64" using unsigned_less [of v, where 'a = nat] by simp
  have "unat (drop_bit n v) = unat v div 2 ^ n" for n
    using bound by (simp add: unsigned_drop_bit_eq take_bit_nat_eq_self drop_bit_eq_div [where 'a = nat])
  then have byte: "unat (ucast (drop_bit n v) :: byte) = unat v div 2 ^ n mod 256" for n
    by (simp only: unsigned_ucast_eq take_bit_eq_mod) simp
  have low: "unat (ucast v :: byte) = unat v mod 256"
    by (simp add: unsigned_ucast_eq take_bit_eq_mod)
  have nat_fact: "((((((x div 2^56 mod 256 * 256 + x div 2^48 mod 256) * 256 + x div 2^40 mod 256) * 256
      + x div 2^32 mod 256) * 256 + x div 2^24 mod 256) * 256 + x div 2^16 mod 256) * 256
      + x div 2^8 mod 256) * 256 + x mod 256 = x" if "x < 2^64" for x :: nat
  proof -
    have down: "y div 256 * 256 + y mod 256 = y" for y :: nat by simp
    have "x div 2^56 mod 256 = x div 2^56" using that by (intro mod_less) (simp add: less_mult_imp_div_less)
    moreover have "x div 2^56 = x div 2^48 div 256" "x div 2^48 = x div 2^40 div 256"
      "x div 2^40 = x div 2^32 div 256" "x div 2^32 = x div 2^24 div 256"
      "x div 2^24 = x div 2^16 div 256" "x div 2^16 = x div 2^8 div 256" "x div 2^8 = x div 256"
      by (simp_all flip: div_mult2_eq)
    ultimately show ?thesis by (simp only: down)
  qed
  show ?thesis
    using nat_fact [OF bound] by (simp add: PutUint64_def be_nat_def byte low)
qed

lemma length_PutUint64 [simp]: "length (PutUint64 v) = 8"
  by (simp add: PutUint64_def)

lemma Uint64_PutUint64 [simp]: "Uint64 (PutUint64 v) = v"
  by (simp add: Uint64_def be_nat_PutUint64)

text \<open>Comparing big-endian numerals is comparing their bytes from the left.\<close>

lemma be_nat_less_iff:
  assumes "length xs = length ys"
  shows "be_nat xs < be_nat ys \<longleftrightarrow> xs < ys"
  using assms
proof (induction xs ys rule: list_induct2)
  case Nil show ?case by simp
next
  case (Cons x xs y ys)
  have bx: "be_nat xs < 256 ^ length xs" and by': "be_nat ys < 256 ^ length xs"
    using be_nat_less [of xs] be_nat_less [of ys] Cons.hyps by simp_all
  consider "x < y" | "x = y" | "y < x" by (rule linorder_cases)
  then show ?case
  proof cases
    case 1
    then have "Suc (unat x) \<le> unat y" by (simp add: word_less_nat_alt)
    then have "Suc (unat x) * 256 ^ length xs \<le> unat y * 256 ^ length xs"
      by (intro mult_right_mono) simp_all
    then have "be_nat (x # xs) < be_nat (y # ys)"
      using bx Cons.hyps by (simp add: be_nat_Cons)
    then show ?thesis using 1 by simp
  next
    case 2
    then show ?thesis using Cons by (simp add: be_nat_Cons)
  next
    case 3
    then have "Suc (unat y) \<le> unat x" by (simp add: word_less_nat_alt)
    then have "Suc (unat y) * 256 ^ length xs \<le> unat x * 256 ^ length xs"
      by (intro mult_right_mono) simp_all
    then have "be_nat (y # ys) < be_nat (x # xs)"
      using by' Cons.hyps by (simp add: be_nat_Cons)
    then show ?thesis using 3 by (auto dest: less_asym)
  qed
qed


subsection \<open>Hexadecimal\<close>

lemma hextable_inj: "i < 16 \<Longrightarrow> j < 16 \<Longrightarrow> hextable ! i < hextable ! j \<longleftrightarrow> i < j"
proof -
  have all: "\<forall>i \<in> set [0..<16]. \<forall>j \<in> set [0..<16]. (hextable ! i < hextable ! j) = (i < j)"
    by (simp add: hextable_def upt_rec less_char_def)
  show "i < 16 \<Longrightarrow> j < 16 \<Longrightarrow> hextable ! i < hextable ! j \<longleftrightarrow> i < j"
    using all by simp
qed

lemma fromHexChar_hextable: "i < 16 \<Longrightarrow> fromHexChar (hextable ! i) = Some i"
proof -
  have all: "\<forall>i \<in> set [0..<16]. fromHexChar (hextable ! i) = Some i"
    by (simp add: hextable_def upt_rec fromHexChar_def Let_def)
  show "i < 16 \<Longrightarrow> fromHexChar (hextable ! i) = Some i"
    using all by simp
qed

lemma hex_Decode_Encode: "hex_Decode (EncodeToString bs) = Some bs"
proof (induction bs)
  case Nil show ?case by (simp add: EncodeToString_def)
next
  case (Cons b bs)
  have "unat b div 16 < 16" "unat b mod 16 < 16" using unat_byte_less [of b] by simp_all
  then show ?case using Cons
    by (simp add: EncodeToString_def hex_byte_def fromHexChar_hextable)
qed

lemma length_EncodeToString: "length (EncodeToString bs) = 2 * length bs"
  by (induction bs) (simp_all add: EncodeToString_def hex_byte_def)

lemma length_hex_Decode: "hex_Decode s = Some bs \<Longrightarrow> length s = 2 * length bs"
  by (induction s arbitrary: bs rule: hex_Decode.induct) (auto split: option.splits)

lemma hex_byte_less:
  "hex_byte a @ xs < hex_byte b @ ys \<longleftrightarrow> a < b \<or> a = b \<and> xs < ys"
proof -
  have r: "unat a div 16 < 16" "unat a mod 16 < 16" "unat b div 16 < 16" "unat b mod 16 < 16"
    using unat_byte_less [of a] unat_byte_less [of b] by simp_all
  have eq: "(hextable ! i = hextable ! j) = (i = j)" if "i < 16" "j < 16" for i j
    using fromHexChar_hextable that by (metis option.inject)
  have split: "(x :: nat) < y \<longleftrightarrow> x div 16 < y div 16 \<or> x div 16 = y div 16 \<and> x mod 16 < y mod 16"
    for x y
    by (cases "x div 16 < y div 16"; cases "x div 16 = y div 16")
      (use div_mult_mod_eq [of x 16] div_mult_mod_eq [of y 16] mod_less_divisor [of 16 x]
        mod_less_divisor [of 16 y] in linarith)+
  have same: "(x :: nat) = y \<longleftrightarrow> x div 16 = y div 16 \<and> x mod 16 = y mod 16" for x y
    by (metis div_mult_mod_eq)
  show ?thesis
    unfolding hex_byte_def word_less_nat_alt word_unat_eq_iff
    using split [of "unat a" "unat b"] same [of "unat a" "unat b"]
    by (auto simp: hextable_inj [OF r(1) r(3)] hextable_inj [OF r(2) r(4)]
        eq [OF r(1) r(3)] eq [OF r(2) r(4)])
qed

lemma EncodeToString_less:
  assumes "length xs = length ys"
  shows "EncodeToString xs < EncodeToString ys \<longleftrightarrow> xs < ys"
  using assms
  by (induction xs ys rule: list_induct2) (simp_all add: EncodeToString_def hex_byte_less)

lemma append_less_iff:
  fixes xs ys :: "'a :: linorder list"
  assumes "length xs = length ys"
  shows "xs @ us < ys @ vs \<longleftrightarrow> xs < ys \<or> xs = ys \<and> us < vs"
  using assms by (induction xs ys rule: list_induct2) auto

lemma id_after_lex:
  assumes "wf_id g" and "wf_id h"
  shows "id_after g h \<longleftrightarrow> h < g"
proof -
  have len: "length (take 8 g) = 8" "length (take 8 h) = 8" "length (drop 8 g) = 8" "length (drop 8 h) = 8"
    using assms by (simp_all add: wf_id_def)
  have "h < g \<longleftrightarrow> take 8 h < take 8 g \<or> take 8 h = take 8 g \<and> drop 8 h < drop 8 g"
    using append_less_iff [of "take 8 h" "take 8 g" "drop 8 h" "drop 8 g"] len by simp
  moreover have "take 8 h < take 8 g \<longleftrightarrow> prefix_of h < prefix_of g"
    using len by (simp add: prefix_of_def word_less_nat_alt unat_Uint64 be_nat_less_iff)
  moreover have "take 8 g < take 8 h \<longleftrightarrow> prefix_of g < prefix_of h"
    using len by (simp add: prefix_of_def word_less_nat_alt unat_Uint64 be_nat_less_iff)
  moreover have "drop 8 h < drop 8 g \<longleftrightarrow> Uint64 (drop 8 h) < Uint64 (drop 8 g)"
    using len by (simp add: word_less_nat_alt unat_Uint64 be_nat_less_iff)
  ultimately show ?thesis
    unfolding id_after_def Let_def by (metis less_irrefl linorder_cases)
qed

subsection \<open>Parsing, ordering and minting\<close>

lemma wf_id_zero [simp]: "wf_id zero_id"
  by (simp add: wf_id_def zero_id_def)

lemma parseGenID_iff: "parseGenID s = Some g \<longleftrightarrow> wf_id g \<and> genID_String g = s"
proof
  assume a: "parseGenID s = Some g"
  then have "length s = 32" "hex_Decode s = Some g" "genID_String g = s"
    by (auto simp: parseGenID_def split: if_splits option.splits)
  then show "wf_id g \<and> genID_String g = s"
    using length_hex_Decode [of s g] by (simp add: wf_id_def)
next
  assume "wf_id g \<and> genID_String g = s"
  then have g: "wf_id g" and s: "s = genID_String g" by simp_all
  have "length s = 32" using g by (simp add: s genID_String_def length_EncodeToString wf_id_def)
  moreover have "hex_Decode s = Some g" by (simp add: s genID_String_def hex_Decode_Encode)
  ultimately show "parseGenID s = Some g" by (simp add: parseGenID_def s)
qed

text \<open>
  C21. \<open>parseGenID\<close> is exactly the inverse of \<open>String\<close>: it accepts a directory name if and only
  if the name is what \<open>String\<close> renders for some sixteen-byte id, and then returns that id; foreign
  names, other lengths and upper-case hexadecimal are refused.
\<close>

theorem parseGenID_String:
  "parseGenID s = Some g \<longleftrightarrow> wf_id g \<and> genID_String g = s"
  by (rule parseGenID_iff)

lemma id_after_irrefl: "\<not> id_after g g"
  by (simp add: id_after_def Let_def)

lemma genID_String_inj: "wf_id g \<Longrightarrow> wf_id h \<Longrightarrow> genID_String g = genID_String h \<Longrightarrow> g = h"
  by (metis genID_String_def hex_Decode_Encode option.inject)

lemma genID_String_less: "wf_id g \<Longrightarrow> wf_id h \<Longrightarrow> genID_String h < genID_String g \<longleftrightarrow> h < g"
  by (simp add: genID_String_def EncodeToString_less wf_id_def)

text \<open>
  On ids the store mints, \<open>after\<close> is the lexical order of the rendered ids: the counter
  compare, with the random tail only as tie-break, agrees with comparing the hexadecimal strings,
  and it is a strict linear order.
\<close>

theorem id_after_lexical:
  assumes "wf_id g" and "wf_id h"
  shows "(id_after g h \<longleftrightarrow> genID_String h < genID_String g)
    \<and> (id_after g h \<or> id_after h g \<or> g = h) \<and> \<not> (id_after g h \<and> id_after h g)"
  using assms by (auto simp: id_after_lex genID_String_less)

theorem id_after_lexical_witness:
  "id_after (PutUint64 256 @ PutUint64 0) (PutUint64 255 @ PutUint64 7)
   \<and> genID_String (PutUint64 255 @ PutUint64 7) < genID_String (PutUint64 256 @ PutUint64 0)"
proof -
  have "wf_id (PutUint64 256 @ PutUint64 0)" "wf_id (PutUint64 255 @ PutUint64 7)"
    by (simp_all add: wf_id_def)
  moreover have "id_after (PutUint64 256 @ PutUint64 0) (PutUint64 255 @ PutUint64 7)"
    by (simp add: id_after_def prefix_of_def)
  ultimately show ?thesis using id_after_lexical by blast
qed

lemma allocate_Inl [simp]: "allocate l now (Inl e) = (l, Inl e)"
  by (simp add: allocate_def)

lemma allocate_Inr:
  "allocate l now (Inr r) = (p, R) \<Longrightarrow> R = Inr (PutUint64 p @ r)"
  by (auto simp: allocate_def Let_def split: if_splits)

lemma allocate_prefix:
  assumes "allocate l now (Inr r) = (p, R)" and "l \<noteq> - 1"
  shows "l < p" and "UnixNano now \<le> p" and "p = UnixNano now \<or> p = l + 1"
proof -
  have "l < l + 1" using assms(2)
    by (metis add.commute add_eq_0_iff2 lessI unatSuc word_less_nat_alt)
  then show "l < p" and "UnixNano now \<le> p" and "p = UnixNano now \<or> p = l + 1"
    using assms(1) by (auto simp: allocate_def Let_def split: if_splits)
qed

lemma prefix_of_minted [simp]: "prefix_of (PutUint64 p @ r) = p"
  by (simp add: prefix_of_def)

text \<open>
  Minting for one name: the handle's seed threaded through successive \<open>allocate\<close> calls, each with
  its own clock reading and random outcome.  The list is the ids in the order they were minted.
\<close>

fun mint :: "64 word \<Rightarrow> (time \<times> (err + byte list)) list \<Rightarrow> genID list" where
  "mint l [] = []"
| "mint l ((now, rnd) # cs) =
     (case allocate l now rnd of
        (l', Inl e) \<Rightarrow> mint l' cs
      | (l', Inr g) \<Rightarrow> g # mint l' cs)"

definition good_rnd :: "err + byte list \<Rightarrow> bool" where
  "good_rnd rnd \<longleftrightarrow> (case rnd of Inl e \<Rightarrow> True | Inr r \<Rightarrow> length r = 8)"

lemma mint_increasing:
  assumes "\<forall>c \<in> set cs. good_rnd (snd c) \<and> unat (UnixNano (fst c)) \<le> m" and "unat l \<le> m"
    and "m + length cs < 2 ^ 64"
  shows "sorted_wrt (\<lambda>g h. id_after h g) (mint l cs)
    \<and> (\<forall>g \<in> set (mint l cs). wf_id g \<and> l < prefix_of g)"
  using assms
proof (induction cs arbitrary: l m)
  case Nil show ?case by simp
next
  case (Cons c cs)
  obtain now rnd where c: "c = (now, rnd)" by (cases c)
  show ?case
  proof (cases rnd)
    case (Inl e)
    then show ?thesis using Cons.IH [of m l] Cons.prems c by simp
  next
    case (Inr r)
    obtain p R where a: "allocate l now (Inr r) = (p, R)" by (cases "allocate l now (Inr r)")
    have R: "R = Inr (PutUint64 p @ r)" using allocate_Inr [OF a] .
    have max: "unat (- 1 :: 64 word) = 2 ^ 64 - 1" by (simp add: unsigned_minus_1_eq_mask mask_eq_exp_minus_1)
    have "l \<noteq> - 1" using Cons.prems(2,3) max by auto
    note p = allocate_prefix [OF a this]
    have "unat (l + 1) = Suc (unat l)"
      using \<open>l \<noteq> - 1\<close> by (metis add.commute add_eq_0_iff2 unatSuc)
    then have "unat p \<le> Suc m" using p(3) Cons.prems(1,2) c by auto
    moreover have "\<forall>d \<in> set cs. good_rnd (snd d) \<and> unat (UnixNano (fst d)) \<le> Suc m"
      using Cons.prems(1) by (auto intro: le_SucI)
    ultimately have ih: "sorted_wrt (\<lambda>g h. id_after h g) (mint p cs)
        \<and> (\<forall>g \<in> set (mint p cs). wf_id g \<and> p < prefix_of g)"
      using Cons.IH [of "Suc m" p] Cons.prems(3) by simp
    have r: "length r = 8" using Cons.prems(1) c Inr by (simp add: good_rnd_def)
    have "id_after g (PutUint64 p @ r)" if "p < prefix_of g" for g
      using that by (auto simp: id_after_def Let_def)
    then show ?thesis using ih p(1) r by (auto simp: c Inr a R wf_id_def intro: less_trans)
  qed
qed

text \<open>
  C22. However the wall clock moves, the ids one handle mints strictly increase in the order
  recovery and readers compare them by: each later id is after each earlier one and its rendered
  form is lexically greater, as long as the 64-bit counter does not reach its maximum.
\<close>

theorem mint_monotone:
  assumes "\<forall>c \<in> set cs. good_rnd (snd c) \<and> unat (UnixNano (fst c)) \<le> m"
    and "unat lastPrefix \<le> m" and "m + length cs < 2 ^ 64"
  shows "sorted_wrt (\<lambda>g h. id_after h g \<and> genID_String g < genID_String h) (mint lastPrefix cs)"
proof -
  note mono = mint_increasing [OF assms]
  then have "\<forall>g \<in> set (mint lastPrefix cs). wf_id g" by simp
  then show ?thesis using mono sorted_wrt_mono_rel
    by (metis (no_types, lifting) id_after_lex genID_String_less)
qed

theorem mint_monotone_witness:
  "sorted_wrt (\<lambda>g h. id_after h g \<and> genID_String g < genID_String h)
     (mint 5 [(9, Inr (replicate 8 1)), (3, Inl (Leaf (OsFault 0))), (2, Inr (replicate 8 0))])
   \<and> length (mint 5 [(9, Inr (replicate 8 1)), (3, Inl (Leaf (OsFault 0))), (2, Inr (replicate 8 0))]) = 2"
proof -
  have "length (mint 5 [(9, Inr (replicate 8 1)), (3, Inl (Leaf (OsFault 0))), (2, Inr (replicate 8 0))]) = 2"
    by (simp add: allocate_def UnixNano_def)
  then show ?thesis
    using mint_monotone [of "[(9, Inr (replicate 8 1)), (3, Inl (Leaf (OsFault 0))), (2, Inr (replicate 8 0))]" 9 5]
    by (simp add: good_rnd_def UnixNano_def)
qed

end
