(* ===== verification/Quota.thy ===== *)
theory Quota imports Prelude begin

text \<open>
  The store's quota, \<open>store/quota.go\<close>: three caps and two atomic counters, all \<open>int64\<close>.  Each
  operation is one atomic access of the counters; the compare-and-swap loops of \<open>reserve\<close> and
  \<open>reserveClip\<close> are modelled turn by turn below and shown to be the atomic operation.
\<close>

record quota =
  maxClip :: int64
  maxTotal :: int64
  maxClips :: int64
  bytes :: int64
  clips :: int64

definition newQuota :: "int64 \<Rightarrow> int64 \<Rightarrow> int64 \<Rightarrow> quota" where
  "newQuota mclip mtotal mclips =
     \<lparr>maxClip = mclip, maxTotal = mtotal, maxClips = mclips, bytes = 0, clips = 0\<rparr>"

definition quota_restore :: "int64 \<Rightarrow> int64 \<Rightarrow> quota \<Rightarrow> quota" where
  "quota_restore b c q = q\<lparr>bytes := b, clips := c\<rparr>"

definition reserve :: "int64 \<Rightarrow> quota \<Rightarrow> quota \<times> bool" where
  "reserve n q =
     (if maxTotal q \<noteq> 0 \<and> sint (bytes q + n) > sint (maxTotal q) then (q, False)
      else (q\<lparr>bytes := bytes q + n\<rparr>, True))"

definition release_bytes :: "int64 \<Rightarrow> quota \<Rightarrow> quota" where
  "release_bytes n q = (if n \<noteq> 0 then q\<lparr>bytes := bytes q + (- n)\<rparr> else q)"

definition reserveClip :: "quota \<Rightarrow> quota \<times> bool" where
  "reserveClip q =
     (if maxClips q \<noteq> 0 \<and> sint (clips q + 1) > sint (maxClips q) then (q, False)
      else (q\<lparr>clips := clips q + 1\<rparr>, True))"

definition releaseClip :: "quota \<Rightarrow> quota" where
  "releaseClip q = q\<lparr>clips := clips q + (- 1)\<rparr>"

text \<open>\<open>releaseGen\<close> takes the generation's \<open>buf.Size()\<close>.\<close>

definition releaseGen :: "int64 \<Rightarrow> quota \<Rightarrow> quota" where
  "releaseGen sz q = releaseClip (release_bytes sz q)"

definition perClipOK :: "int64 \<Rightarrow> int64 \<Rightarrow> quota \<Rightarrow> bool" where
  "perClipOK running n q \<longleftrightarrow> maxClip q = 0 \<or> sint (running + n) \<le> sint (maxClip q)"

subsection \<open>The compare-and-swap loops\<close>

text \<open>
  A turn of \<open>reserve\<close> loads the counter in one quota state and swaps in a possibly later one.  A run
  is given, turn by turn, the state at the load and the state at the swap; its value is \<open>None\<close> when
  the turns given end with every swap lost.
\<close>

datatype turn = Refused | Lost | Won quota

definition reserve_turn :: "int64 \<Rightarrow> quota \<Rightarrow> quota \<Rightarrow> turn" where
  "reserve_turn n at_load at_swap =
     (let cur = bytes at_load in
      if maxTotal at_load \<noteq> 0 \<and> sint (cur + n) > sint (maxTotal at_load) then Refused
      else if bytes at_swap = cur then Won (at_swap\<lparr>bytes := cur + n\<rparr>) else Lost)"

fun reserve_loop :: "int64 \<Rightarrow> (quota \<times> quota) list \<Rightarrow> (quota \<times> bool) option" where
  "reserve_loop n [] = None"
| "reserve_loop n ((l, s) # turns) =
     (case reserve_turn n l s of
        Refused \<Rightarrow> Some (l, False)
      | Won q \<Rightarrow> Some (q, True)
      | Lost \<Rightarrow> reserve_loop n turns)"

definition reserveClip_turn :: "quota \<Rightarrow> quota \<Rightarrow> turn" where
  "reserveClip_turn at_load at_swap =
     (let cur = clips at_load in
      if maxClips at_load \<noteq> 0 \<and> sint (cur + 1) > sint (maxClips at_load) then Refused
      else if clips at_swap = cur then Won (at_swap\<lparr>clips := cur + 1\<rparr>) else Lost)"

fun reserveClip_loop :: "(quota \<times> quota) list \<Rightarrow> (quota \<times> bool) option" where
  "reserveClip_loop [] = None"
| "reserveClip_loop ((l, s) # turns) =
     (case reserveClip_turn l s of
        Refused \<Rightarrow> Some (l, False)
      | Won q \<Rightarrow> Some (q, True)
      | Lost \<Rightarrow> reserveClip_loop turns)"

text \<open>The caps never change after construction; two states of one quota agree on them.\<close>

definition same_caps :: "quota \<Rightarrow> quota \<Rightarrow> bool" where
  "same_caps q r \<longleftrightarrow> maxClip q = maxClip r \<and> maxTotal q = maxTotal r \<and> maxClips q = maxClips r"

text \<open>
  C17. The compare-and-swap loops are linearizable: whatever other goroutines do to the counters
  between the loads and the swaps, a loop that returns did exactly what the atomic operation does
  at one instant of the run, the load of its last turn when it refuses and the swap when it admits.
\<close>

theorem reserve_loops_linearizable:
  assumes "\<forall>(l, s) \<in> set turns. same_caps l s"
  shows "(reserve_loop n turns = Some r
           \<longrightarrow> (\<exists>(l, s) \<in> set turns. \<exists>q \<in> {l, s}. reserve n q = r \<and> (snd r \<longrightarrow> q = s)))
       \<and> (reserveClip_loop turns = Some r
           \<longrightarrow> (\<exists>(l, s) \<in> set turns. \<exists>q \<in> {l, s}. reserveClip q = r \<and> (snd r \<longrightarrow> q = s)))"
  using assms
proof (induction turns)
  case Nil show ?case by simp
next
  case (Cons t turns)
  obtain l s where t: "t = (l, s)" by (cases t)
  have caps: "same_caps l s" and ih: "\<forall>(l, s) \<in> set turns. same_caps l s"
    using Cons.prems t by auto
  note IH = Cons.IH [OF ih]
  show ?case
  proof (intro conjI impI)
    assume a: "reserve_loop n (t # turns) = Some r"
    show "\<exists>(l, s) \<in> set (t # turns). \<exists>q \<in> {l, s}. reserve n q = r \<and> (snd r \<longrightarrow> q = s)"
      using a IH caps t
      by (cases "reserve_turn n l s") (auto simp: reserve_turn_def reserve_def same_caps_def Let_def split: if_splits)
  next
    assume a: "reserveClip_loop (t # turns) = Some r"
    show "\<exists>(l, s) \<in> set (t # turns). \<exists>q \<in> {l, s}. reserveClip q = r \<and> (snd r \<longrightarrow> q = s)"
      using a IH caps t
      by (cases "reserveClip_turn l s") (auto simp: reserveClip_turn_def reserveClip_def same_caps_def Let_def split: if_splits)
  qed
qed

theorem reserve_loops_linearizable_witness:
  "let q = newQuota 0 10 0; moved = q\<lparr>bytes := 4\<rparr>; turns = [(q, moved), (moved, moved)] in
   reserve_loop 6 turns = Some (moved\<lparr>bytes := 10\<rparr>, True) \<and> reserve 6 moved = (moved\<lparr>bytes := 10\<rparr>, True)"
proof -
  define q where "q = newQuota 0 10 0"
  define moved where "moved = q\<lparr>bytes := 4\<rparr>"
  have caps: "\<forall>(l, s) \<in> set [(q, moved), (moved, moved)]. same_caps l s"
    by (simp add: same_caps_def moved_def)
  have run: "reserve_loop 6 [(q, moved), (moved, moved)] = Some (moved\<lparr>bytes := 10\<rparr>, True)"
    by (simp add: reserve_turn_def moved_def q_def newQuota_def Let_def)
  then have "\<exists>(l, s) \<in> set [(q, moved), (moved, moved)]. \<exists>p \<in> {l, s}.
      reserve 6 p = (moved\<lparr>bytes := 10\<rparr>, True) \<and> (True \<longrightarrow> p = s)"
    using reserve_loops_linearizable [OF caps, of 6 "(moved\<lparr>bytes := 10\<rparr>, True)"] by simp
  then have "reserve 6 moved = (moved\<lparr>bytes := 10\<rparr>, True)" by auto
  then show ?thesis using run unfolding Let_def by (simp only: q_def [symmetric] moved_def [symmetric] simp_thms)
qed

subsection \<open>Facts\<close>

lemma quota_caps [simp]:
  "maxClip (fst (reserve n q)) = maxClip q" "maxTotal (fst (reserve n q)) = maxTotal q"
  "maxClips (fst (reserve n q)) = maxClips q"
  "maxClip (fst (reserveClip q)) = maxClip q" "maxTotal (fst (reserveClip q)) = maxTotal q"
  "maxClips (fst (reserveClip q)) = maxClips q"
  "maxClip (release_bytes n q) = maxClip q" "maxTotal (release_bytes n q) = maxTotal q"
  "maxClips (release_bytes n q) = maxClips q"
  "maxClip (releaseClip q) = maxClip q" "maxTotal (releaseClip q) = maxTotal q"
  "maxClips (releaseClip q) = maxClips q"
  by (simp_all add: reserve_def reserveClip_def release_bytes_def releaseClip_def)

lemma reserve_bytes: "reserve n q = (q', True) \<Longrightarrow> bytes q' = bytes q + n \<and> clips q' = clips q"
  by (auto simp: reserve_def split: if_splits)

lemma reserve_refused: "reserve n q = (q', False) \<Longrightarrow> q' = q"
  by (auto simp: reserve_def split: if_splits)

lemma reserveClip_clips: "reserveClip q = (q', True) \<Longrightarrow> clips q' = clips q + 1 \<and> bytes q' = bytes q"
  by (auto simp: reserveClip_def split: if_splits)

lemma reserveClip_refused: "reserveClip q = (q', False) \<Longrightarrow> q' = q"
  by (auto simp: reserveClip_def split: if_splits)

lemma release_bytes_bytes [simp]:
  "bytes (release_bytes n q) = bytes q - n" "clips (release_bytes n q) = clips q"
  by (simp_all add: release_bytes_def)

lemma releaseClip_clips [simp]:
  "clips (releaseClip q) = clips q - 1" "bytes (releaseClip q) = bytes q"
  by (simp_all add: releaseClip_def)

lemma reserve_capped:
  "reserve n q = (q', True) \<Longrightarrow> maxTotal q \<noteq> 0 \<Longrightarrow> sint (bytes q') \<le> sint (maxTotal q)"
  by (auto simp: reserve_def split: if_splits)

text \<open>
  C18. Within the range of \<open>int64\<close> the quota counts exactly: \<open>reserve\<close> admits a chunk if and only if
  the total stays within a set cap and then adds its length, \<open>reserveClip\<close> does the same for one
  slot, a reservation followed by its release restores the counters, and \<open>perClipOK\<close> is the
  comparison of the exact sum with a set per-clip cap.
\<close>

theorem quota_exact:
  assumes "0 \<le> sint (bytes q)" "0 \<le> sint n" "sint (bytes q) + sint n < 2 ^ 63"
    and "0 \<le> sint (clips q)" "sint (clips q) + 1 < 2 ^ 63"
    and "0 \<le> sint run" "sint run + sint n < 2 ^ 63"
  shows "(snd (reserve n q) \<longleftrightarrow> maxTotal q = 0 \<or> sint (bytes q) + sint n \<le> sint (maxTotal q))
    \<and> (snd (reserve n q) \<longrightarrow> sint (bytes (fst (reserve n q))) = sint (bytes q) + sint n
        \<and> release_bytes n (fst (reserve n q)) = q)
    \<and> (\<not> snd (reserve n q) \<longrightarrow> fst (reserve n q) = q)
    \<and> (snd (reserveClip q) \<longleftrightarrow> maxClips q = 0 \<or> sint (clips q) + 1 \<le> sint (maxClips q))
    \<and> (snd (reserveClip q) \<longrightarrow> sint (clips (fst (reserveClip q))) = sint (clips q) + 1
        \<and> releaseClip (fst (reserveClip q)) = q)
    \<and> (perClipOK run n q \<longleftrightarrow> maxClip q = 0 \<or> sint run + sint n \<le> sint (maxClip q))"
proof -
  have b: "sint (bytes q + n) = sint (bytes q) + sint n"
    using assms(1-3) by (intro sint64_add) simp_all
  have c: "sint (clips q + 1) = sint (clips q) + 1"
    using assms(4,5) sint64_add [of "clips q" 1] by simp
  have r: "sint (run + n) = sint run + sint n"
    using assms(2,6,7) by (intro sint64_add) simp_all
  show ?thesis
    by (auto simp: reserve_def reserveClip_def releaseClip_def release_bytes_def perClipOK_def b c r)
qed

theorem quota_exact_witness:
  "snd (reserve 5 (newQuota 8 10 2)) \<and> \<not> snd (reserve 5 ((newQuota 8 10 2)\<lparr>bytes := 6\<rparr>))
   \<and> \<not> perClipOK 4 5 (newQuota 8 10 2)"
  using quota_exact [of "newQuota 8 10 2" 5 4] quota_exact [of "(newQuota 8 10 2)\<lparr>bytes := 6\<rparr>" 5 4]
  by (simp add: newQuota_def)

end
