(* ===== verification/Buffer.thy ===== *)
theory Buffer imports Errors begin

text \<open>
  The followable byte log, package \<open>store/internal/buffer\<close>: the \<open>backing\<close> interface
  (\<open>backing.go\<close>), the control state and operations of a \<open>Buffer\<close>, the shared end-of-stream rule
  and the section reader (\<open>buffer.go\<close>), and the follower (\<open>follower.go\<close>).  The backings themselves
  are in the theories \<open>MemBacking\<close> and \<open>DiskBacking\<close>.

  Go's interface value is a record of operations \<open>('b, 'h, 'w) backing\<close> over the backing object
  \<open>'b\<close>, its read handles \<open>'h\<close> and the outside world \<open>'w\<close> (the file system for a disk backing).
  A channel is a number: \<open>wakeLocked\<close> closes the current one and arms the next, so a captured
  channel is closed exactly when it is no longer the buffer's.
\<close>

record ('b, 'h, 'w) backing =
  b_append :: "'b \<Rightarrow> byte list \<Rightarrow> 'w \<Rightarrow> 'b \<times> 'w \<times> nat \<times> err option"
  b_sync :: "'b \<Rightarrow> 'w \<Rightarrow> 'b \<times> 'w \<times> err option"
  b_openRead :: "'b \<Rightarrow> 'w \<Rightarrow> 'b \<times> 'w \<times> (err + 'h)"
  b_closeWrite :: "'b \<Rightarrow> 'w \<Rightarrow> 'b \<times> 'w \<times> err option"
  h_ReadAt :: "'h \<Rightarrow> 'b \<Rightarrow> nat \<Rightarrow> int64 \<Rightarrow> 'w \<Rightarrow> 'w \<times> byte list \<times> err option"
  h_Close :: "'h \<Rightarrow> 'b \<Rightarrow> 'w \<Rightarrow> 'h \<times> 'b \<times> 'w \<times> err option"

record 'b buffer =
  bsize :: int64
  bclosed :: bool
  baborted :: bool
  bnotify :: nat
  bback :: 'b

definition newBuffer :: "'b \<Rightarrow> 'b buffer" where
  "newBuffer b = \<lparr>bsize = 0, bclosed = False, baborted = False, bnotify = 0, bback = b\<rparr>"

definition newSealedBuffer :: "'b \<Rightarrow> int64 \<Rightarrow> 'b buffer" where
  "newSealedBuffer b sz = \<lparr>bsize = sz, bclosed = True, baborted = False, bnotify = 0, bback = b\<rparr>"

definition wakeLocked :: "'b buffer \<Rightarrow> 'b buffer" where
  "wakeLocked b = b\<lparr>bnotify := Suc (bnotify b)\<rparr>"

definition chan_closed :: "'b buffer \<Rightarrow> nat \<Rightarrow> bool" where
  "chan_closed b c \<longleftrightarrow> c \<noteq> bnotify b"

definition advance :: "int64 \<Rightarrow> 'b buffer \<Rightarrow> 'b buffer" where
  "advance n b = wakeLocked (b\<lparr>bsize := bsize b + n\<rparr>)"

definition terminated :: "'b buffer \<Rightarrow> bool" where
  "terminated b \<longleftrightarrow> bclosed b \<or> baborted b"

definition buf_Append ::
  "('b, 'h, 'w) backing \<Rightarrow> byte list \<Rightarrow> 'b buffer \<Rightarrow> 'w \<Rightarrow> 'b buffer \<times> 'w \<times> nat \<times> err option" where
  "buf_Append B p b w =
     (if terminated b then (b, w, 0, Some (Leaf BufClosed))
      else case b_append B (bback b) p w of
        (k, w', n, e) \<Rightarrow>
          (let b' = b\<lparr>bback := k\<rparr>
           in (if 0 < n then advance (word_of_nat n) b' else b', w', n, e)))"

definition buf_Sync ::
  "('b, 'h, 'w) backing \<Rightarrow> 'b buffer \<Rightarrow> 'w \<Rightarrow> 'b buffer \<times> 'w \<times> err option" where
  "buf_Sync B b w =
     (if terminated b then (b, w, Some (Leaf BufClosed))
      else case b_sync B (bback b) w of (k, w', e) \<Rightarrow> (b\<lparr>bback := k\<rparr>, w', e))"

definition buf_Finish ::
  "('b, 'h, 'w) backing \<Rightarrow> 'b buffer \<Rightarrow> 'w \<Rightarrow> 'b buffer \<times> 'w \<times> err option" where
  "buf_Finish B b w =
     (let b = wakeLocked (b\<lparr>bclosed := True\<rparr>)
      in case b_closeWrite B (bback b) w of (k, w', e) \<Rightarrow> (b\<lparr>bback := k\<rparr>, w', e))"

definition buf_Fail ::
  "('b, 'h, 'w) backing \<Rightarrow> 'b buffer \<Rightarrow> 'w \<Rightarrow> 'b buffer \<times> 'w \<times> err option" where
  "buf_Fail B b w =
     (let b = wakeLocked (b\<lparr>baborted := True\<rparr>)
      in case b_closeWrite B (bback b) w of (k, w', e) \<Rightarrow> (b\<lparr>bback := k\<rparr>, w', e))"

subsection \<open>Readers\<close>

text \<open>
  \<open>readRegion\<close>: the read is clamped to the published region, and an \<open>io.EOF\<close> of the backing
  inside it is either dropped (a full fill) or a truncation.  The value is the bytes delivered and
  the error.
\<close>

definition readRegion ::
  "('b, 'h, 'w) backing \<Rightarrow> 'h \<Rightarrow> 'b \<Rightarrow> nat \<Rightarrow> int64 \<Rightarrow> int64 \<Rightarrow> 'w \<Rightarrow> 'w \<times> byte list \<times> err option" where
  "readRegion B h k len off bound w =
     (let want = min (int len) (sint (bound - off))
      in case h_ReadAt B h k (nat want) off w of
        (w', bs, e) \<Rightarrow>
          (w', bs, if e = Some (Leaf IoEOF)
                   then (if int (length bs) = want then None else Some (Leaf IoUnexpectedEOF))
                   else e))"

record 'h sectionReader =
  sr_h :: 'h
  sr_size :: int64
  sr_off :: int64
  sr_once :: bool

definition section_Read ::
  "('b, 'h, 'w) backing \<Rightarrow> 'b buffer \<Rightarrow> nat \<Rightarrow> 'h sectionReader \<Rightarrow> 'w
   \<Rightarrow> 'h sectionReader \<times> 'w \<times> byte list \<times> err option" where
  "section_Read B b len s w =
     (if sint (sr_off s) \<ge> sint (sr_size s) then (s, w, [], Some (Leaf IoEOF))
      else case readRegion B (sr_h s) (bback b) len (sr_off s) (sr_size s) w of
        (w', bs, e) \<Rightarrow> (s\<lparr>sr_off := sr_off s + word_of_nat (length bs)\<rparr>, w', bs, e))"

definition section_Close ::
  "('b, 'h, 'w) backing \<Rightarrow> 'h sectionReader \<Rightarrow> 'b buffer \<Rightarrow> 'w
   \<Rightarrow> 'h sectionReader \<times> 'b buffer \<times> 'w \<times> err option" where
  "section_Close B s b w =
     (if sr_once s then (s, b, w, None)
      else case h_Close B (sr_h s) (bback b) w of
        (h, k, w', e) \<Rightarrow> (s\<lparr>sr_h := h, sr_once := True\<rparr>, b\<lparr>bback := k\<rparr>, w', e))"

record 'h follower =
  f_off :: int64
  f_h :: 'h
  f_once :: bool

text \<open>
  \<open>Buffer.Reader\<close> and \<open>Buffer.Section\<close>.  The follower's context is an argument of its reads.
\<close>

definition buf_Reader ::
  "('b, 'h, 'w) backing \<Rightarrow> int64 \<Rightarrow> 'b buffer \<Rightarrow> 'w \<Rightarrow> 'b buffer \<times> 'w \<times> (err + 'h follower)" where
  "buf_Reader B off b w =
     (if sint off < 0 then (b, w, Inl (Leaf BufOffset))
      else case b_openRead B (bback b) w of
        (k, w', Inl e) \<Rightarrow> (b\<lparr>bback := k\<rparr>, w', Inl e)
      | (k, w', Inr h) \<Rightarrow> (b\<lparr>bback := k\<rparr>, w', Inr \<lparr>f_off = off, f_h = h, f_once = False\<rparr>))"

definition buf_Section ::
  "('b, 'h, 'w) backing \<Rightarrow> 'b buffer \<Rightarrow> 'w \<Rightarrow> 'b buffer \<times> 'w \<times> (err + 'h sectionReader)" where
  "buf_Section B b w =
     (let sz = bsize b
      in case b_openRead B (bback b) w of
        (k, w', Inl e) \<Rightarrow> (b\<lparr>bback := k\<rparr>, w', Inl e)
      | (k, w', Inr h) \<Rightarrow>
          (b\<lparr>bback := k\<rparr>, w', Inr \<lparr>sr_h = h, sr_size = sz, sr_off = 0, sr_once = False\<rparr>))"

definition follower_Close ::
  "('b, 'h, 'w) backing \<Rightarrow> 'h follower \<Rightarrow> 'b buffer \<Rightarrow> 'w
   \<Rightarrow> 'h follower \<times> 'b buffer \<times> 'w \<times> err option" where
  "follower_Close B r b w =
     (if f_once r then (r, b, w, None)
      else case h_Close B (f_h r) (bback b) w of
        (h, k, w', e) \<Rightarrow> (r\<lparr>f_h := h, f_once := True\<rparr>, b\<lparr>bback := k\<rparr>, w', e))"

text \<open>
  One turn of \<open>follower.Read\<close>: the context check at the top, the snapshot under the buffer's lock,
  and the branch it selects.  \<open>Parked c\<close> is the wait on the channel captured in that snapshot.
\<close>

datatype outcome = Returned "byte list" "err option" | Parked nat

definition follower_turn ::
  "('b, 'h, 'w) backing \<Rightarrow> nat \<Rightarrow> err option \<Rightarrow> 'b buffer \<Rightarrow> 'h follower \<Rightarrow> 'w
   \<Rightarrow> 'h follower \<times> 'w \<times> outcome" where
  "follower_turn B len ctx b r w =
     (case ctx of
        Some e \<Rightarrow> (r, w, Returned [] (Some e))
      | None \<Rightarrow>
          (if sint (f_off r) < sint (bsize b) then
             (case readRegion B (f_h r) (bback b) len (f_off r) (bsize b) w of
                (w', bs, e) \<Rightarrow>
                  (r\<lparr>f_off := f_off r + word_of_nat (length bs)\<rparr>, w', Returned bs e))
           else if baborted b then (r, w, Returned [] (Some (Leaf ErrAborted)))
           else if bclosed b then (r, w, Returned [] (Some (Leaf IoEOF)))
           else (r, w, Parked (bnotify b))))"

text \<open>The select a parked turn blocks on: a closed channel re-turns, a done context returns.\<close>

definition select_ready :: "'b buffer \<Rightarrow> err option \<Rightarrow> nat \<Rightarrow> bool" where
  "select_ready b ctx c \<longleftrightarrow> chan_closed b c \<or> ctx \<noteq> None"

text \<open>
  A whole \<open>follower.Read\<close> under interference: \<open>envs\<close> lists what each turn of the loop finds, the
  buffer and the context at its top.  Each park is left because its channel closed or because the
  context is done, which the next entry shows.  \<open>None\<close> says that the given turns end with the
  follower still waiting.
\<close>

fun follower_Read ::
  "('b, 'h, 'w) backing \<Rightarrow> nat \<Rightarrow> ('b buffer \<times> err option) list \<Rightarrow> 'h follower \<Rightarrow> 'w
   \<Rightarrow> ('h follower \<times> 'w \<times> byte list \<times> err option) option" where
  "follower_Read B 0 envs r w = Some (r, w, [], None)"
| "follower_Read B (Suc len) [] r w = None"
| "follower_Read B (Suc len) ((b, ctx) # envs) r w =
     (case follower_turn B (Suc len) ctx b r w of
        (r', w', Returned bs e) \<Rightarrow> Some (r', w', bs, e)
      | (r', w', Parked c) \<Rightarrow> follower_Read B (Suc len) envs r' w')"

subsection \<open>One writer and one follower\<close>

text \<open>
  The interleavings of the single writer with a follower: between any two atomic sections of the
  follower the writer may append, flush or end the log, once.  \<open>st_got\<close> is what the follower has
  delivered so far, \<open>st_end\<close> the first error a read returned, after which it is not read again
  (as \<open>io.Copy\<close> does).  \<open>ctx_err\<close> are the values of \<open>ctx.Err\<close>.
\<close>

definition ctx_err :: "err \<Rightarrow> bool" where
  "ctx_err e \<longleftrightarrow> e = Leaf CtxCanceled \<or> e = Leaf CtxDeadlineExceeded"

datatype fmode = Idle | Turning nat | Waiting nat nat

record ('b, 'h, 'w) stream =
  st_b :: "'b buffer"
  st_w :: 'w
  st_r :: "'h follower"
  st_mode :: fmode
  st_got :: "byte list"
  st_end :: "err option"

inductive stream_step ::
  "('b, 'h, 'w) backing \<Rightarrow> ('b, 'h, 'w) stream \<Rightarrow> ('b, 'h, 'w) stream \<Rightarrow> bool"
  for B :: "('b, 'h, 'w) backing" where
  writer_append:
    "buf_Append B p (st_b s) (st_w s) = (b', w', n, e) \<Longrightarrow> sint (bsize (st_b s)) + int (length p) < 2 ^ 63 \<Longrightarrow>
     stream_step B s (s\<lparr>st_b := b', st_w := w'\<rparr>)"
| writer_sync:
    "buf_Sync B (st_b s) (st_w s) = (b', w', e) \<Longrightarrow>
     stream_step B s (s\<lparr>st_b := b', st_w := w'\<rparr>)"
| writer_finish:
    "\<not> terminated (st_b s) \<Longrightarrow> buf_Finish B (st_b s) (st_w s) = (b', w', e) \<Longrightarrow>
     stream_step B s (s\<lparr>st_b := b', st_w := w'\<rparr>)"
| writer_fail:
    "\<not> terminated (st_b s) \<Longrightarrow> buf_Fail B (st_b s) (st_w s) = (b', w', e) \<Longrightarrow>
     stream_step B s (s\<lparr>st_b := b', st_w := w'\<rparr>)"
| read_call:
    "st_mode s = Idle \<Longrightarrow> st_end s = None \<Longrightarrow> 0 < len \<Longrightarrow>
     stream_step B s (s\<lparr>st_mode := Turning len\<rparr>)"
| turn_return:
    "st_mode s = Turning len \<Longrightarrow> (\<forall>c. ctx = Some c \<longrightarrow> ctx_err c) \<Longrightarrow>
     follower_turn B len ctx (st_b s) (st_r s) (st_w s) = (r', w', Returned bs e) \<Longrightarrow>
     stream_step B s (s\<lparr>st_w := w', st_r := r', st_mode := Idle, st_got := st_got s @ bs, st_end := e\<rparr>)"
| turn_park:
    "st_mode s = Turning len \<Longrightarrow>
     follower_turn B len None (st_b s) (st_r s) (st_w s) = (r', w', Parked c) \<Longrightarrow>
     stream_step B s (s\<lparr>st_w := w', st_r := r', st_mode := Waiting len c\<rparr>)"
| select_wake:
    "st_mode s = Waiting len c \<Longrightarrow> chan_closed (st_b s) c \<Longrightarrow>
     stream_step B s (s\<lparr>st_mode := Turning len\<rparr>)"
| select_cancel:
    "st_mode s = Waiting len c \<Longrightarrow> ctx_err e \<Longrightarrow>
     stream_step B s (s\<lparr>st_mode := Idle, st_end := Some e\<rparr>)"

inductive stream_reach ::
  "('b, 'h, 'w) backing \<Rightarrow> ('b, 'h, 'w) stream \<Rightarrow> ('b, 'h, 'w) stream \<Rightarrow> bool"
  for B :: "('b, 'h, 'w) backing" and s0 :: "('b, 'h, 'w) stream" where
  reach_refl: "stream_reach B s0 s0"
| reach_step: "stream_reach B s0 s \<Longrightarrow> stream_step B s s' \<Longrightarrow> stream_reach B s0 s'"

text \<open>A fresh log, already holding \<open>pre\<close> appends, and a follower attached from the start.\<close>

definition attach ::
  "('b, 'h, 'w) backing \<Rightarrow> 'b buffer \<Rightarrow> 'w \<Rightarrow> ('b, 'h, 'w) stream option" where
  "attach B b w =
     (case buf_Reader B 0 b w of
        (b', w', Inr r) \<Rightarrow>
          Some \<lparr>st_b = b', st_w = w', st_r = r, st_mode = Idle, st_got = [], st_end = None\<rparr>
      | (b', w', Inl e) \<Rightarrow> None)"

subsection \<open>The contract of a backing\<close>

text \<open>
  What the code relies on in any backing (\<open>backing.go\<close>): \<open>append\<close> stores a prefix of the bytes
  it is given, all of them when it reports no error; a read handle that is open reads the stored
  bytes at its offset, short only with an error, \<open>io.EOF\<close> only at the end of the stored bytes;
  opening, reading, syncing and closing leave the stored bytes and the other handles alone.
\<close>

locale readable_log =
  fixes B :: "('b, 'h, 'w) backing"
    and contents :: "'b \<Rightarrow> 'w \<Rightarrow> byte list"
    and readable :: "'h \<Rightarrow> 'b \<Rightarrow> 'w \<Rightarrow> bool"
    and wf :: "'b \<Rightarrow> 'w \<Rightarrow> bool"
  assumes openRead_law:
    "wf k w \<Longrightarrow> b_openRead B k w = (k', w', r) \<Longrightarrow>
       wf k' w' \<and> contents k' w' = contents k w \<and> (\<forall>h. readable h k w \<longrightarrow> readable h k' w')
       \<and> (\<forall>h. r = Inr h \<longrightarrow> readable h k' w')"
    and ReadAt_law:
    "wf k w \<Longrightarrow> readable h k w \<Longrightarrow> 0 \<le> sint off \<Longrightarrow> h_ReadAt B h k len off w = (w', bs, e) \<Longrightarrow>
       wf k w' \<and> contents k w' = contents k w \<and> (\<forall>g. readable g k w \<longrightarrow> readable g k w')
       \<and> bs = take (length bs) (drop (nat (sint off)) (contents k w))
       \<and> length bs \<le> len \<and> (e = None \<longrightarrow> length bs = len)
       \<and> (e = Some (Leaf IoEOF) \<longrightarrow> length bs = min len (length (contents k w) - nat (sint off)))"
begin

lemma readRegion_slice:
  assumes "wf k w" and "readable h k w" and "0 \<le> sint off" and "sint off < sint bound"
    and "readRegion B h k len off bound w = (w', bs, e)"
  shows "wf k w'" and "contents k w' = contents k w" and "\<forall>g. readable g k w \<longrightarrow> readable g k w'"
    and "bs = take (length bs) (drop (nat (sint off)) (contents k w))"
    and "int (length bs) \<le> min (int len) (sint bound - sint off)"
    and "e \<noteq> Some (Leaf IoEOF)"
    and "e = None \<longrightarrow> int (length bs) = min (int len) (sint bound - sint off)"
proof -
  have d: "sint (bound - off) = sint bound - sint off"
    using assms(3,4) sint64_bounds [of bound] sint64_bounds [of off] by (intro sint64_diff) simp_all
  define want where "want = min (int len) (sint bound - sint off)"
  have want: "0 \<le> want" using assms(3,4) by (simp add: want_def)
  obtain w1 bs1 e1 where r: "h_ReadAt B h k (nat want) off w = (w1, bs1, e1)"
    by (cases "h_ReadAt B h k (nat want) off w") auto
  have eq: "w' = w1" "bs = bs1"
    "e = (if e1 = Some (Leaf IoEOF) then (if int (length bs1) = want then None else Some (Leaf IoUnexpectedEOF)) else e1)"
    using assms(5) r by (simp_all add: readRegion_def Let_def d want_def [symmetric])
  note law = ReadAt_law [OF assms(1-3) r]
  show "wf k w'" "contents k w' = contents k w" "\<forall>g. readable g k w \<longrightarrow> readable g k w'"
    "bs = take (length bs) (drop (nat (sint off)) (contents k w))"
    using law eq by simp_all
  show "int (length bs) \<le> min (int len) (sint bound - sint off)"
    using law want by (simp add: eq want_def [symmetric] le_nat_iff)
  show "e \<noteq> Some (Leaf IoEOF)" by (simp add: eq(3))
  show "e = None \<longrightarrow> int (length bs) = min (int len) (sint bound - sint off)"
    using law want by (auto simp: eq want_def [symmetric])
qed

end

locale byte_log = readable_log B contents readable wf
  for B :: "('b, 'h, 'w) backing" and contents readable wf +
  assumes append_law:
    "wf k w \<Longrightarrow> b_append B k p w = (k', w', n, e) \<Longrightarrow>
       wf k' w' \<and> n \<le> length p \<and> (e = None \<longrightarrow> n = length p)
       \<and> contents k' w' = contents k w @ take n p \<and> (\<forall>h. readable h k w \<longrightarrow> readable h k' w')"
    and sync_law:
    "wf k w \<Longrightarrow> b_sync B k w = (k', w', e) \<Longrightarrow>
       wf k' w' \<and> contents k' w' = contents k w \<and> (\<forall>h. readable h k w \<longrightarrow> readable h k' w')"
    and closeWrite_law:
    "wf k w \<Longrightarrow> b_closeWrite B k w = (k', w', e) \<Longrightarrow>
       wf k' w' \<and> contents k' w' = contents k w \<and> (\<forall>h. readable h k w \<longrightarrow> readable h k' w')"
begin

lemma buf_Append_contents:
  assumes "wf (bback b) w" and "buf_Append B p b w = (b', w', n, e)"
  shows "wf (bback b') w'" and "n \<le> length p"
    and "contents (bback b') w' = contents (bback b) w @ take n p"
    and "bsize b' = bsize b + word_of_nat n"
    and "\<forall>h. readable h (bback b) w \<longrightarrow> readable h (bback b') w'"
    and "bclosed b' = bclosed b" and "baborted b' = baborted b"
    and "e = None \<longrightarrow> n = length p"
    and "n \<noteq> 0 \<longrightarrow> bnotify b' = Suc (bnotify b)" and "n = 0 \<longrightarrow> bnotify b' = bnotify b"
proof -
  show "wf (bback b') w'" "n \<le> length p" "contents (bback b') w' = contents (bback b) w @ take n p"
    "bsize b' = bsize b + word_of_nat n" "\<forall>h. readable h (bback b) w \<longrightarrow> readable h (bback b') w'"
    "bclosed b' = bclosed b" "baborted b' = baborted b" "e = None \<longrightarrow> n = length p"
    "n \<noteq> 0 \<longrightarrow> bnotify b' = Suc (bnotify b)" "n = 0 \<longrightarrow> bnotify b' = bnotify b"
    using assms append_law [of "bback b" w p]
    by (auto simp: buf_Append_def advance_def wakeLocked_def Let_def split: prod.splits if_splits)
qed

text \<open>What every reachable state of the stream system satisfies.\<close>

definition stream_inv :: "('b, 'h, 'w) stream \<Rightarrow> bool" where
  "stream_inv s \<longleftrightarrow>
     wf (bback (st_b s)) (st_w s) \<and> readable (f_h (st_r s)) (bback (st_b s)) (st_w s)
     \<and> length (contents (bback (st_b s)) (st_w s)) < 2 ^ 63
     \<and> bsize (st_b s) = word_of_nat (length (contents (bback (st_b s)) (st_w s)))
     \<and> f_off (st_r s) = word_of_nat (length (st_got s))
     \<and> st_got s = take (length (st_got s)) (contents (bback (st_b s)) (st_w s))
     \<and> \<not> (bclosed (st_b s) \<and> baborted (st_b s))
     \<and> (st_end s = Some (Leaf IoEOF)
          \<longrightarrow> bclosed (st_b s) \<and> st_got s = contents (bback (st_b s)) (st_w s))
     \<and> (\<forall>len c. st_mode s = Waiting len c \<longrightarrow> c \<le> bnotify (st_b s)
          \<and> (c = bnotify (st_b s) \<longrightarrow> \<not> terminated (st_b s)
               \<and> st_got s = contents (bback (st_b s)) (st_w s)))"

lemma got_prefix:
  assumes "got = take (length got) c" and "bs = take (length bs) (drop (length got) c)"
  shows "got @ bs = take (length (got @ bs)) c"
  using assms by (metis append_take_drop_id length_append take_add)

lemma buf_Append_terminated: "terminated b \<Longrightarrow> buf_Append B p b w = (b, w, 0, Some (Leaf BufClosed))"
  by (simp add: buf_Append_def)

lemma inv_append:
  assumes inv: "stream_inv s" and a: "buf_Append B p (st_b s) (st_w s) = (b', w', n, e)"
    and room: "sint (bsize (st_b s)) + int (length p) < 2 ^ 63"
  shows "stream_inv (s\<lparr>st_b := b', st_w := w'\<rparr>)"
proof (cases "terminated (st_b s)")
  case True
  then show ?thesis using inv a by (cases s) (simp add: buf_Append_terminated)
next
  case False
  have wf: "wf (bback (st_b s)) (st_w s)" using inv by (simp add: stream_inv_def)
  note ap = buf_Append_contents [OF wf a]
  let ?c = "contents (bback (st_b s)) (st_w s)"
  have "sint (bsize (st_b s)) = int (length ?c)"
    using inv by (simp add: stream_inv_def sint64_of_nat)
  then have "int (length ?c + n) < 2 ^ 63" using room ap(2) by simp
  then have len: "length ?c + n < 2 ^ 63" by (rule nat_lt_63)
  have "length (st_got s) \<le> length ?c"
    using inv unfolding stream_inv_def by (metis length_take min.cobounded1 nat_le_linear take_all_iff)
  then have got: "take (length (st_got s)) (?c @ take n p) = take (length (st_got s)) ?c" by simp
  show ?thesis
    using inv False ap len got
    by (cases "n = 0") (auto simp: stream_inv_def terminated_def)
qed

lemma inv_sync:
  assumes inv: "stream_inv s" and a: "buf_Sync B (st_b s) (st_w s) = (b', w', e)"
  shows "stream_inv (s\<lparr>st_b := b', st_w := w'\<rparr>)"
proof (cases "terminated (st_b s)")
  case True
  then show ?thesis using inv a by (cases s) (simp add: buf_Sync_def)
next
  case False
  obtain k v f where r: "b_sync B (bback (st_b s)) (st_w s) = (k, v, f)"
    by (cases "b_sync B (bback (st_b s)) (st_w s)") auto
  have eq: "b' = (st_b s)\<lparr>bback := k\<rparr>" "w' = v" using a r False by (simp_all add: buf_Sync_def)
  have "wf (bback (st_b s)) (st_w s)" using inv by (simp add: stream_inv_def)
  note law = sync_law [OF this r]
  then show ?thesis using inv by (simp add: stream_inv_def eq terminated_def)
qed

lemma inv_terminal:
  assumes inv: "stream_inv s" and open_log: "\<not> terminated (st_b s)"
    and a: "buf_Finish B (st_b s) (st_w s) = (b', w', e) \<or> buf_Fail B (st_b s) (st_w s) = (b', w', e)"
  shows "stream_inv (s\<lparr>st_b := b', st_w := w'\<rparr>)"
proof -
  obtain k v f where r: "b_closeWrite B (bback (st_b s)) (st_w s) = (k, v, f)"
    by (cases "b_closeWrite B (bback (st_b s)) (st_w s)") auto
  have "wf (bback (st_b s)) (st_w s)" using inv by (simp add: stream_inv_def)
  note law = closeWrite_law [OF this r]
  from a show ?thesis
  proof
    assume "buf_Finish B (st_b s) (st_w s) = (b', w', e)"
    then have "b' = (st_b s)\<lparr>bclosed := True, bnotify := Suc (bnotify (st_b s)), bback := k\<rparr>" "w' = v"
      using r by (simp_all add: buf_Finish_def wakeLocked_def Let_def)
    then show ?thesis using inv law open_log by (auto simp: stream_inv_def terminated_def)
  next
    assume "buf_Fail B (st_b s) (st_w s) = (b', w', e)"
    then have "b' = (st_b s)\<lparr>baborted := True, bnotify := Suc (bnotify (st_b s)), bback := k\<rparr>" "w' = v"
      using r by (simp_all add: buf_Fail_def wakeLocked_def Let_def)
    then show ?thesis using inv law open_log by (auto simp: stream_inv_def terminated_def)
  qed
qed

lemma inv_offsets:
  assumes "stream_inv s"
  shows "length (st_got s) \<le> length (contents (bback (st_b s)) (st_w s))"
    and "sint (f_off (st_r s)) = int (length (st_got s))"
    and "sint (bsize (st_b s)) = int (length (contents (bback (st_b s)) (st_w s)))"
proof -
  show le: "length (st_got s) \<le> length (contents (bback (st_b s)) (st_w s))"
    using assms unfolding stream_inv_def by (metis length_take min.cobounded1 nat_le_linear take_all_iff)
  show "sint (bsize (st_b s)) = int (length (contents (bback (st_b s)) (st_w s)))"
    using assms by (simp add: stream_inv_def sint64_of_nat)
  have "length (st_got s) < 2 ^ 63" using le assms by (simp add: stream_inv_def)
  then show "sint (f_off (st_r s)) = int (length (st_got s))"
    using assms by (simp add: stream_inv_def sint64_of_nat)
qed

text \<open>A turn that reads delivers the next bytes of the log.\<close>

lemma turn_reads:
  assumes inv: "stream_inv s" and lt: "sint (f_off (st_r s)) < sint (bsize (st_b s))"
    and r: "readRegion B (f_h (st_r s)) (bback (st_b s)) len (f_off (st_r s)) (bsize (st_b s)) (st_w s) = (w', bs, e)"
  shows "stream_inv (s\<lparr>st_w := w', st_r := (st_r s)\<lparr>f_off := f_off (st_r s) + word_of_nat (length bs)\<rparr>,
      st_mode := Idle, st_got := st_got s @ bs, st_end := e\<rparr>)"
proof -
  let ?c = "contents (bback (st_b s)) (st_w s)"
  have wf: "wf (bback (st_b s)) (st_w s)" and rd: "readable (f_h (st_r s)) (bback (st_b s)) (st_w s)"
    using inv by (simp_all add: stream_inv_def)
  note off = inv_offsets [OF inv]
  have nn: "0 \<le> sint (f_off (st_r s))" by (simp add: off)
  note rr = readRegion_slice [OF wf rd nn lt r]
  have "bs = take (length bs) (drop (length (st_got s)) ?c)" using rr(4) by (simp add: off)
  then have "st_got s @ bs = take (length (st_got s @ bs)) ?c"
    using inv by (intro got_prefix) (simp_all add: stream_inv_def)
  moreover define got' where "got' = st_got s @ bs"
  ultimately have got': "take (length got') ?c = got'" by metis
  have len: "length got' = length (st_got s) + length bs" by (simp add: got'_def)
  show ?thesis
    unfolding got'_def [symmetric]
    using inv rr(1,2,3,6) got' len by (simp add: stream_inv_def)
qed

lemma inv_turn_return:
  assumes inv: "stream_inv s" and ctx: "\<forall>c. ctx = Some c \<longrightarrow> ctx_err c"
    and t: "follower_turn B len ctx (st_b s) (st_r s) (st_w s) = (r', w', Returned bs e)"
  shows "stream_inv (s\<lparr>st_w := w', st_r := r', st_mode := Idle, st_got := st_got s @ bs, st_end := e\<rparr>)"
proof (cases ctx)
  case (Some c)
  then have "r' = st_r s" "w' = st_w s" "bs = []" "e = Some c" "c \<noteq> Leaf IoEOF"
    using t ctx by (auto simp: follower_turn_def ctx_err_def)
  then show ?thesis using inv by (simp add: stream_inv_def)
next
  case None
  show ?thesis
  proof (cases "sint (f_off (st_r s)) < sint (bsize (st_b s))")
    case True
    obtain v cs f where r: "readRegion B (f_h (st_r s)) (bback (st_b s)) len (f_off (st_r s)) (bsize (st_b s)) (st_w s) = (v, cs, f)"
      by (cases "readRegion B (f_h (st_r s)) (bback (st_b s)) len (f_off (st_r s)) (bsize (st_b s)) (st_w s)") auto
    then have "r' = (st_r s)\<lparr>f_off := f_off (st_r s) + word_of_nat (length cs)\<rparr>" "w' = v" "bs = cs" "e = f"
      using t None True by (auto simp: follower_turn_def)
    then show ?thesis using turn_reads [OF inv True r] by simp
  next
    case False
    then have "length (st_got s) = length (contents (bback (st_b s)) (st_w s))"
      using inv_offsets [OF inv] by simp
    then have all: "st_got s = contents (bback (st_b s)) (st_w s)"
      using inv by (simp add: stream_inv_def)
    show ?thesis
      using t None False inv all
      by (auto simp: follower_turn_def stream_inv_def split: if_splits)
  qed
qed

lemma inv_turn_park:
  assumes inv: "stream_inv s"
    and t: "follower_turn B len None (st_b s) (st_r s) (st_w s) = (r', w', Parked c)"
  shows "stream_inv (s\<lparr>st_w := w', st_r := r', st_mode := Waiting len c\<rparr>)"
proof -
  have p: "\<not> sint (f_off (st_r s)) < sint (bsize (st_b s))" "r' = st_r s" "w' = st_w s"
    "c = bnotify (st_b s)" "\<not> terminated (st_b s)"
    using t by (auto simp: follower_turn_def terminated_def split: if_splits prod.splits)
  then have "length (st_got s) = length (contents (bback (st_b s)) (st_w s))"
    using inv_offsets [OF inv] by simp
  then show ?thesis using inv p by (simp add: stream_inv_def)
qed

lemma stream_inv_step:
  assumes "stream_step B s s'" and "stream_inv s"
  shows "stream_inv s'"
  using assms
proof (induction rule: stream_step.induct)
  case (writer_append p s b' w' n e) then show ?case by (intro inv_append)
next
  case (writer_sync s b' w' e) then show ?case by (intro inv_sync)
next
  case (writer_finish s b' w' e) then show ?case by (blast intro: inv_terminal)
next
  case (writer_fail s b' w' e) then show ?case by (blast intro: inv_terminal)
next
  case (read_call s len) then show ?case by (simp add: stream_inv_def)
next
  case (turn_return s len ctx r' w' bs e) then show ?case by (intro inv_turn_return)
next
  case (turn_park s len r' w' c) then show ?case by (intro inv_turn_park)
next
  case (select_wake s len c) then show ?case by (simp add: stream_inv_def)
next
  case (select_cancel s len c e) then show ?case by (auto simp: stream_inv_def ctx_err_def)
qed

lemma stream_inv_reach: "stream_reach B s0 s \<Longrightarrow> stream_inv s0 \<Longrightarrow> stream_inv s"
  by (induction rule: stream_reach.induct) (auto intro: stream_inv_step)

end

end
