(* ===== verification/DiskBacking.thy ===== *)
theory DiskBacking imports Buffer begin

text \<open>
  The file-backed logs, \<open>store/internal/buffer/disk.go\<close> and \<open>sealed.go\<close>, over a small model of
  the operating system's files: numbered inodes with their bytes, the paths that name them, the open
  \<open>*os.File\<close> values with the inode each refers to, what of this is on stable storage (\<open>clean\<close> for the
  bytes of an inode, \<open>ents\<close> for the values an entry may have there), the inodes that are
  directories, the paths ever used, and \<open>plan\<close>, the faults the system will raise: each call takes the next entry, \<open>Some (n, c)\<close> being a failure with code \<open>c\<close> after \<open>n\<close> bytes and
  a plan that has run out meaning no more faults.  The append descriptor is the file's only writer,
  so it always writes at the end.
\<close>

record os =
  inode :: "nat \<Rightarrow> byte list"
  clean :: "nat \<Rightarrow> bool"
  dirent :: "string \<Rightarrow> nat option"
  ents :: "string \<Rightarrow> nat option set"
  isdir :: "nat \<Rightarrow> bool"
  paths :: "string list"
  inext :: nat
  fds :: "nat \<Rightarrow> nat option"
  fnext :: nat
  plan :: "(nat \<times> nat) option list"

definition os_ans :: "os \<Rightarrow> os \<times> (nat \<times> nat) option" where
  "os_ans w = (case plan w of [] \<Rightarrow> (w, None) | a # r \<Rightarrow> (w\<lparr>plan := r\<rparr>, a))"

definition os_Open :: "string \<Rightarrow> os \<Rightarrow> os \<times> (err + nat)" where
  "os_Open path w =
     (case os_ans w of
        (w, Some (n, c)) \<Rightarrow> (w, Inl (Leaf (OsFault c)))
      | (w, None) \<Rightarrow>
          (case dirent w path of
             None \<Rightarrow> (w, Inl (Leaf OsErrNotExist))
           | Some i \<Rightarrow> (w\<lparr>fds := (fds w)(fnext w := Some i), fnext := Suc (fnext w)\<rparr>, Inr (fnext w))))"

text \<open>\<open>(*os.File).Write\<close>: a short count always comes with an error.\<close>

definition file_Write :: "nat \<Rightarrow> byte list \<Rightarrow> os \<Rightarrow> os \<times> nat \<times> err option" where
  "file_Write f p w =
     (case fds w f of
        None \<Rightarrow> (w, 0, Some (Leaf OsErrClosed))
      | Some i \<Rightarrow>
          (case os_ans w of
             (w, None) \<Rightarrow>
               (w\<lparr>inode := (inode w)(i := inode w i @ p), clean := (clean w)(i := False)\<rparr>, length p, None)
           | (w, Some (n, c)) \<Rightarrow>
               (w\<lparr>inode := (inode w)(i := inode w i @ take n p), clean := (clean w)(i := False)\<rparr>,
                min n (length p), Some (Leaf (OsFault c)))))"

text \<open>\<open>(*os.File).ReadAt\<close>: \<open>pread\<close> until the buffer is full, the file ends or a fault.\<close>

definition file_ReadAt :: "nat \<Rightarrow> nat \<Rightarrow> int64 \<Rightarrow> os \<Rightarrow> os \<times> byte list \<times> err option" where
  "file_ReadAt f len off w =
     (case fds w f of
        None \<Rightarrow> (w, [], Some (Leaf OsErrClosed))
      | Some i \<Rightarrow>
          (let avail = take len (drop (nat (sint off)) (inode w i))
           in case os_ans w of
                (w, None) \<Rightarrow> (w, avail, if length avail < len then Some (Leaf IoEOF) else None)
              | (w, Some (n, c)) \<Rightarrow> (w, take n avail, Some (Leaf (OsFault c)))))"

definition file_Sync :: "nat \<Rightarrow> os \<Rightarrow> os \<times> err option" where
  "file_Sync f w =
     (case fds w f of
        None \<Rightarrow> (w, Some (Leaf OsErrClosed))
      | Some i \<Rightarrow> (case os_ans w of (w, None) \<Rightarrow> (w\<lparr>clean := (clean w)(i := True)\<rparr>, None)
                  | (w, Some (n, c)) \<Rightarrow> (w, Some (Leaf (OsFault c)))))"

definition file_Close :: "nat \<Rightarrow> os \<Rightarrow> os \<times> err option" where
  "file_Close f w =
     (case fds w f of
        None \<Rightarrow> (w, Some (Leaf OsErrClosed))
      | Some i \<Rightarrow>
          (case os_ans w of
             (w, None) \<Rightarrow> (w\<lparr>fds := (fds w)(f := None)\<rparr>, None)
           | (w, Some (n, c)) \<Rightarrow> (w\<lparr>fds := (fds w)(f := None)\<rparr>, Some (Leaf (OsFault c)))))"

subsection \<open>The shared read descriptor\<close>

text \<open>\<open>open\<close> is the closure the medium passes; it opens the data file's path read-only.\<close>

record readShare =
  rs_open :: string
  readFD :: "nat option"
  refs :: int

record shareHandle =
  sh_fd :: nat
  sh_once :: bool

definition share_openRead ::
  "'a readShare_scheme \<Rightarrow> os \<Rightarrow> 'a readShare_scheme \<times> os \<times> (err + shareHandle)" where
  "share_openRead s w =
     (let (s, w, e) =
        (if refs s = 0 then
           (case os_Open (rs_open s) w of
              (w, Inl e) \<Rightarrow> (s, w, Some e)
            | (w, Inr f) \<Rightarrow> (s\<lparr>readFD := Some f\<rparr>, w, None))
         else (s, w, None))
      in case e of
           Some e \<Rightarrow> (s, w, Inl e)
         | None \<Rightarrow> (s\<lparr>refs := refs s + 1\<rparr>, w, Inr \<lparr>sh_fd = the (readFD s), sh_once = False\<rparr>))"

definition share_release :: "'a readShare_scheme \<Rightarrow> os \<Rightarrow> 'a readShare_scheme \<times> os" where
  "share_release s w =
     (let s = s\<lparr>refs := refs s - 1\<rparr>
      in if refs s = 0 then
           (case readFD s of
              None \<Rightarrow> (s, w)
            | Some f \<Rightarrow> (s\<lparr>readFD := None\<rparr>, fst (file_Close f w)))
         else (s, w))"

definition share_ReadAt ::
  "shareHandle \<Rightarrow> 'a readShare_scheme \<Rightarrow> nat \<Rightarrow> int64 \<Rightarrow> os \<Rightarrow> os \<times> byte list \<times> err option" where
  "share_ReadAt h s len off w =
     (if sint off < 0 then (w, [], Some (Leaf BufOffset)) else file_ReadAt (sh_fd h) len off w)"

definition share_Close ::
  "shareHandle \<Rightarrow> 'a readShare_scheme \<Rightarrow> os \<Rightarrow> shareHandle \<times> 'a readShare_scheme \<times> os \<times> err option" where
  "share_Close h s w =
     (if sh_once h then (h, s, w, None)
      else case share_release s w of (s, w) \<Rightarrow> (h\<lparr>sh_once := True\<rparr>, s, w, None))"

subsection \<open>The log being written and the recovered log\<close>

record diskBacking = readShare +
  appendFD :: nat
  fsync :: bool
  wOnce :: bool

definition newDiskBacking :: "nat \<Rightarrow> string \<Rightarrow> bool \<Rightarrow> diskBacking" where
  "newDiskBacking fd path fs =
     \<lparr>rs_open = path, readFD = None, refs = 0, appendFD = fd, fsync = fs, wOnce = False\<rparr>"

definition NewDisk :: "nat \<Rightarrow> string \<Rightarrow> bool \<Rightarrow> diskBacking buffer" where
  "NewDisk fd path fs = newBuffer (newDiskBacking fd path fs)"

definition disk_append :: "diskBacking \<Rightarrow> byte list \<Rightarrow> os \<Rightarrow> diskBacking \<times> os \<times> nat \<times> err option" where
  "disk_append d p w = (case file_Write (appendFD d) p w of (w, n, e) \<Rightarrow> (d, w, n, e))"

definition disk_sync :: "diskBacking \<Rightarrow> os \<Rightarrow> diskBacking \<times> os \<times> err option" where
  "disk_sync d w =
     (if \<not> fsync d then (d, w, None)
      else case file_Sync (appendFD d) w of (w, e) \<Rightarrow> (d, w, e))"

definition disk_closeWrite :: "diskBacking \<Rightarrow> os \<Rightarrow> diskBacking \<times> os \<times> err option" where
  "disk_closeWrite d w =
     (if wOnce d then (d, w, None)
      else case file_Close (appendFD d) w of (w, e) \<Rightarrow> (d\<lparr>wOnce := True\<rparr>, w, e))"

definition diskB :: "(diskBacking, shareHandle, os) backing" where
  "diskB = \<lparr>b_append = disk_append, b_sync = disk_sync, b_openRead = share_openRead,
     b_closeWrite = disk_closeWrite, h_ReadAt = share_ReadAt, h_Close = share_Close\<rparr>"

type_synonym sealedBacking = readShare

definition newSealedBacking :: "string \<Rightarrow> sealedBacking" where
  "newSealedBacking path = \<lparr>rs_open = path, readFD = None, refs = 0\<rparr>"

definition NewSealed :: "string \<Rightarrow> int64 \<Rightarrow> sealedBacking buffer" where
  "NewSealed path sz = newSealedBuffer (newSealedBacking path) sz"

definition sealed_append :: "sealedBacking \<Rightarrow> byte list \<Rightarrow> os \<Rightarrow> sealedBacking \<times> os \<times> nat \<times> err option" where
  "sealed_append s p w = (s, w, 0, None)"

definition sealed_sync :: "sealedBacking \<Rightarrow> os \<Rightarrow> sealedBacking \<times> os \<times> err option" where
  "sealed_sync s w = (s, w, None)"

definition sealed_closeWrite :: "sealedBacking \<Rightarrow> os \<Rightarrow> sealedBacking \<times> os \<times> err option" where
  "sealed_closeWrite s w = (s, w, None)"

definition sealedB :: "(sealedBacking, shareHandle, os) backing" where
  "sealedB = \<lparr>b_append = sealed_append, b_sync = sealed_sync, b_openRead = share_openRead,
     b_closeWrite = sealed_closeWrite, h_ReadAt = share_ReadAt, h_Close = share_Close\<rparr>"

subsection \<open>Both are backings\<close>

text \<open>
  The specification's view of a file-backed log with inode \<open>i\<close>: the path names \<open>i\<close> or nothing any
  more, every descriptor the log holds that is open refers to \<open>i\<close>, and the shared descriptor is open
  exactly while the count is positive.
\<close>

definition wf_share :: "nat \<Rightarrow> 'a readShare_scheme \<Rightarrow> os \<Rightarrow> bool" where
  "wf_share i s w \<longleftrightarrow>
     (dirent w (rs_open s) = None \<or> dirent w (rs_open s) = Some i)
     \<and> 0 \<le> refs s \<and> (refs s = 0 \<longleftrightarrow> readFD s = None)
     \<and> (\<forall>f. readFD s = Some f \<longrightarrow> fds w f = Some i)
     \<and> (\<forall>f \<ge> fnext w. fds w f = None)"

definition wf_disk :: "nat \<Rightarrow> diskBacking \<Rightarrow> os \<Rightarrow> bool" where
  "wf_disk i d w \<longleftrightarrow> wf_share i d w
     \<and> (fds w (appendFD d) = None \<or> fds w (appendFD d) = Some i)
     \<and> readFD d \<noteq> Some (appendFD d) \<and> appendFD d < fnext w"

definition share_readable :: "nat \<Rightarrow> shareHandle \<Rightarrow> 'a readShare_scheme \<Rightarrow> os \<Rightarrow> bool" where
  "share_readable i h s w \<longleftrightarrow> readFD s = Some (sh_fd h) \<and> fds w (sh_fd h) = Some i"

lemma os_ans_frame:
  "os_ans w = (w', a) \<Longrightarrow>
     inode w' = inode w \<and> dirent w' = dirent w \<and> fds w' = fds w \<and> fnext w' = fnext w"
  by (auto simp: os_ans_def split: list.splits)

lemma share_openRead_law:
  assumes "wf_share i s w" and "share_openRead s w = (s', w', r)"
  shows "wf_share i s' w'" and "inode w' = inode w"
    and "share_readable i h s w \<Longrightarrow> share_readable i h s' w'"
    and "r = Inr h \<Longrightarrow> share_readable i h s' w'"
    and "fnext w \<le> fnext w'" and "\<forall>f < fnext w. fds w' f = fds w f"
    and "readFD s' = readFD s \<or> readFD s' = Some (fnext w)"
  using assms
  by (auto simp: share_openRead_def os_Open_def wf_share_def share_readable_def Let_def
      dest!: os_ans_frame split: prod.splits option.splits if_splits)

lemma file_ReadAt_law:
  assumes "fds w f = Some i" and "file_ReadAt f len off w = (w', bs, e)"
  shows "inode w' = inode w \<and> dirent w' = dirent w \<and> fds w' = fds w \<and> fnext w' = fnext w"
    and "bs = take (length bs) (drop (nat (sint off)) (inode w i))" and "length bs \<le> len"
    and "e = None \<longrightarrow> length bs = len"
    and "e = Some (Leaf IoEOF) \<longrightarrow> length bs = min len (length (inode w i) - nat (sint off))"
proof -
  obtain w1 a where ans: "os_ans w = (w1, a)" by (cases "os_ans w")
  have "bs = take (case a of None \<Rightarrow> len | Some (n, c) \<Rightarrow> min n len) (drop (nat (sint off)) (inode w i))"
    using assms ans by (cases a) (auto simp: file_ReadAt_def Let_def simp del: take_all_iff)
  then show "bs = take (length bs) (drop (nat (sint off)) (inode w i))" by (rule take_length_self)
qed (use assms in \<open>auto simp: file_ReadAt_def Let_def dest!: os_ans_frame
      split: prod.splits option.splits if_splits\<close>)

lemma file_Write_law:
  assumes "fds w f = None \<or> fds w f = Some i" and "file_Write f p w = (w', n, e)"
  shows "dirent w' = dirent w \<and> fds w' = fds w \<and> fnext w' = fnext w"
    and "n \<le> length p" and "inode w' i = inode w i @ take n p" and "e = None \<longrightarrow> n = length p"
  using assms
  by (auto simp: file_Write_def Let_def min_def dest!: os_ans_frame split: prod.splits option.splits)

lemma file_Sync_frame:
  "file_Sync f w = (w', e) \<Longrightarrow>
     inode w' = inode w \<and> dirent w' = dirent w \<and> fds w' = fds w \<and> fnext w' = fnext w"
  by (auto simp: file_Sync_def dest!: os_ans_frame split: prod.splits option.splits)

lemma file_Close_frame:
  "file_Close f w = (w', e) \<Longrightarrow>
     inode w' = inode w \<and> dirent w' = dirent w \<and> fds w' = (fds w)(f := None) \<and> fnext w' = fnext w"
  by (auto simp: file_Close_def dest!: os_ans_frame split: prod.splits option.splits)

lemma disk_openRead_wf:
  assumes "wf_disk i d w" and "share_openRead d w = (d', w', r)"
  shows "wf_disk i d' w'"
proof -
  have "appendFD d' = appendFD d"
    using assms(2) by (auto simp: share_openRead_def Let_def split: prod.splits option.splits if_splits sum.splits)
  then show ?thesis
    using assms share_openRead_law [of i d w d' w' r] by (auto simp: wf_disk_def)
qed

interpretation disklog: byte_log diskB "\<lambda>d w. inode w i" "share_readable i" "wf_disk i" for i
proof (unfold_locales, goal_cases)
  case (1 k w k' w' r)
  then have o: "share_openRead k w = (k', w', r)" and wf: "wf_share i k w"
    by (simp_all add: diskB_def wf_disk_def)
  show ?case
    using disk_openRead_wf [OF 1(1) o] share_openRead_law [OF wf o] by simp
next
  case (2 k w h off len w' bs e)
  then have r: "file_ReadAt (sh_fd h) len off w = (w', bs, e)" and f: "fds w (sh_fd h) = Some i"
    by (simp_all add: diskB_def share_ReadAt_def share_readable_def)
  show ?case
    using 2(1) file_ReadAt_law [OF f r]
    by (auto simp: wf_disk_def wf_share_def share_readable_def)
next
  case (3 k w p k' w' n e)
  then have a: "file_Write (appendFD k) p w = (w', n, e)" "k' = k"
    by (auto simp: diskB_def disk_append_def split: prod.splits)
  have "fds w (appendFD k) = None \<or> fds w (appendFD k) = Some i" using 3(1) by (simp add: wf_disk_def)
  then show ?case
    using 3(1) a file_Write_law [of w "appendFD k" i p w' n e]
    by (auto simp: wf_disk_def wf_share_def share_readable_def)
next
  case (4 k w k' w' e)
  then show ?case
    by (auto simp: diskB_def disk_sync_def wf_disk_def wf_share_def share_readable_def
      dest!: file_Sync_frame split: prod.splits if_splits)
next
  case (5 k w k' w' e)
  then show ?case
    by (auto simp: diskB_def disk_closeWrite_def wf_disk_def wf_share_def share_readable_def
      dest!: file_Close_frame split: prod.splits if_splits)
qed

interpretation sealedlog: readable_log sealedB "\<lambda>s w. inode w i" "share_readable i" "wf_share i" for i
proof (unfold_locales, goal_cases)
  case (1 k w k' w' r)
  then have o: "share_openRead k w = (k', w', r)" by (simp add: sealedB_def)
  show ?case using share_openRead_law [OF 1(1) o] by simp
next
  case (2 k w h off len w' bs e)
  then have r: "file_ReadAt (sh_fd h) len off w = (w', bs, e)" and f: "fds w (sh_fd h) = Some i"
    by (simp_all add: sealedB_def share_ReadAt_def share_readable_def)
  show ?case
    using 2(1) file_ReadAt_law [OF f r] by (auto simp: wf_share_def share_readable_def)
qed

subsection \<open>Reference counting\<close>

text \<open>
  The life of one share: readers attach and close in any order, close twice, fail to open, and the
  directory entry may be unlinked under them at any moment.  The state is the share, the system and
  every handle handed out so far.
\<close>

inductive share_step ::
  "readShare \<times> os \<times> shareHandle list \<Rightarrow> readShare \<times> os \<times> shareHandle list \<Rightarrow> bool" where
  attach_ok: "share_openRead s w = (s', w', Inr h) \<Longrightarrow> share_step (s, w, hs) (s', w', hs @ [h])"
| attach_fail: "share_openRead s w = (s', w', Inl e) \<Longrightarrow> share_step (s, w, hs) (s', w', hs)"
| close: "i < length hs \<Longrightarrow> share_Close (hs ! i) s w = (h', s', w', e) \<Longrightarrow>
     share_step (s, w, hs) (s', w', hs[i := h'])"
| unlink: "share_step (s, w, hs) (s, w\<lparr>dirent := (dirent w)(path := None)\<rparr>, hs)"

inductive share_reach ::
  "readShare \<times> os \<times> shareHandle list \<Rightarrow> readShare \<times> os \<times> shareHandle list \<Rightarrow> bool"
  for c0 :: "readShare \<times> os \<times> shareHandle list" where
  share_refl: "share_reach c0 c0"
| share_next: "share_reach c0 c \<Longrightarrow> share_step c c' \<Longrightarrow> share_reach c0 c'"

definition outstanding :: "shareHandle list \<Rightarrow> nat" where
  "outstanding hs = length (filter (\<lambda>h. \<not> sh_once h) hs)"

definition share_inv :: "nat \<Rightarrow> nat \<Rightarrow> readShare \<times> os \<times> shareHandle list \<Rightarrow> bool" where
  "share_inv i base c = (case c of (s, w, hs) \<Rightarrow>
     wf_share i s w \<and> refs s = int (outstanding hs) \<and> base \<le> fnext w
     \<and> {f. base \<le> f \<and> fds w f \<noteq> None} = set_option (readFD s)
     \<and> (\<forall>h \<in> set hs. \<not> sh_once h \<longrightarrow> share_readable i h s w))"

lemma outstanding_snoc: "outstanding (hs @ [h]) = outstanding hs + (if sh_once h then 0 else 1)"
  by (simp add: outstanding_def)

lemma outstanding_close:
  assumes "i < length hs" and "\<not> sh_once (hs ! i)" and "sh_once h'"
  shows "outstanding hs = Suc (outstanding (hs[i := h']))"
  using assms
proof (induction hs arbitrary: i)
  case Nil then show ?case by simp
next
  case (Cons a hs)
  then show ?case by (cases i) (auto simp: outstanding_def)
qed

lemma share_inv_attach:
  assumes inv: "share_inv i base (s, w, hs)" and o: "share_openRead s w = (s', w', r)"
  shows "share_inv i base (s', w', case r of Inl e \<Rightarrow> hs | Inr h \<Rightarrow> hs @ [h])"
proof -
  have wf: "wf_share i s w" using inv by (simp add: share_inv_def)
  note law = share_openRead_law [OF wf o]
  show ?thesis
  proof (cases "refs s = 0")
    case False
    then have "s' = s\<lparr>refs := refs s + 1\<rparr>" "w' = w" "r = Inr \<lparr>sh_fd = the (readFD s), sh_once = False\<rparr>"
      using o by (simp_all add: share_openRead_def)
    then show ?thesis
      using inv law(1,4) by (auto simp: share_inv_def outstanding_snoc share_readable_def)
  next
    case True
    obtain w1 q where op: "os_Open (rs_open s) w = (w1, q)" by (cases "os_Open (rs_open s) w")
    have none: "readFD s = None" "outstanding hs = 0"
      using True wf inv by (simp_all add: wf_share_def share_inv_def)
    then have all: "\<forall>h \<in> set hs. sh_once h" by (auto simp: outstanding_def filter_empty_conv)
    show ?thesis
    proof (cases q)
      case (Inl e)
      then have "fds w' = fds w" "fnext w' = fnext w" "s' = s" "r = Inl e"
        using o op True by (auto simp: share_openRead_def os_Open_def dest!: os_ans_frame
          split: prod.splits option.splits)
      then show ?thesis using inv law(1) all by (simp add: share_inv_def)
    next
      case (Inr f)
      then have "fds w' = (fds w)(fnext w := Some i)" "fnext w' = Suc (fnext w)" "f = fnext w"
        "s' = s\<lparr>readFD := Some f, refs := 1\<rparr>" "r = Inr \<lparr>sh_fd = f, sh_once = False\<rparr>"
        using o op True wf by (auto simp: share_openRead_def os_Open_def wf_share_def dest!: os_ans_frame
          split: prod.splits option.splits)
      then show ?thesis using inv law(1) all none
        by (auto simp: share_inv_def outstanding_snoc share_readable_def)
    qed
  qed
qed

lemma share_inv_close:
  assumes inv: "share_inv i base (s, w, hs)" and n: "n < length hs"
    and c: "share_Close (hs ! n) s w = (h', s', w', e)"
  shows "share_inv i base (s', w', hs[n := h'])"
proof (cases "sh_once (hs ! n)")
  case True
  then have "h' = hs ! n" "s' = s" "w' = w" using c by (simp_all add: share_Close_def)
  then show ?thesis using inv by simp
next
  case False
  have wf: "wf_share i s w" and refs: "refs s = int (outstanding hs)"
    and rd: "share_readable i (hs ! n) s w"
    using inv n False by (simp_all add: share_inv_def)
  have h': "sh_once h'" using c False by (auto simp: share_Close_def split: prod.splits)
  note out = outstanding_close [OF n False h']
  have sub: "h \<in> set (hs[n := h']) \<Longrightarrow> \<not> sh_once h \<Longrightarrow> h \<in> set hs" for h
    using set_update_subset_insert [of hs n h'] h' by blast
  show ?thesis
  proof (cases "refs s = 1")
    case False
    then have "s' = s\<lparr>refs := refs s - 1\<rparr>" "w' = w"
      using c \<open>\<not> sh_once (hs ! n)\<close> by (simp_all add: share_Close_def share_release_def)
    then show ?thesis
      using inv refs out sub False by (auto simp: share_inv_def wf_share_def share_readable_def)
  next
    case True
    let ?f = "sh_fd (hs ! n)"
    have f: "readFD s = Some ?f" using rd by (simp add: share_readable_def)
    have s': "s' = s\<lparr>refs := 0, readFD := None\<rparr>" and w': "w' = fst (file_Close ?f w)"
      using c \<open>\<not> sh_once (hs ! n)\<close> True f by (simp_all add: share_Close_def share_release_def)
    have fr: "inode w' = inode w" "dirent w' = dirent w" "fds w' = (fds w)(?f := None)" "fnext w' = fnext w"
      using file_Close_frame [of ?f w w' "snd (file_Close ?f w)"] by (simp_all add: w')
    have "outstanding (hs[n := h']) = 0" using True refs out by simp
    then have all: "\<forall>h \<in> set (hs[n := h']). sh_once h" by (auto simp: outstanding_def filter_empty_conv)
    have "{g. base \<le> g \<and> fds w g \<noteq> None} = {?f}" using inv f by (simp add: share_inv_def)
    then have "{g. base \<le> g \<and> fds w' g \<noteq> None} = {}" using fr(3) by auto
    then show ?thesis
      using inv fr all \<open>outstanding (hs[n := h']) = 0\<close> by (auto simp: share_inv_def wf_share_def s')
  qed
qed

lemma share_inv_reach:
  assumes "share_reach c0 c" and "share_inv i base c0"
  shows "share_inv i base c"
  using assms
proof (induction rule: share_reach.induct)
  case share_refl then show ?case .
next
  case (share_next c c')
  from share_next.hyps(2) share_next.IH [OF share_next.prems] show ?case
  proof (cases rule: share_step.cases)
    case (attach_ok s w s' w' h hs)
    then show ?thesis using share_inv_attach [of i base s w hs s' w' "Inr h"] share_next by simp
  next
    case (attach_fail s w s' w' e hs)
    then show ?thesis using share_inv_attach [of i base s w hs s' w' "Inl e"] share_next by simp
  next
    case (close n hs s w h' s' w' e)
    then show ?thesis using share_inv_close share_next by blast
  next
    case (unlink s w hs path)
    then show ?thesis using share_next
      by (auto simp: share_inv_def wf_share_def share_readable_def)
  qed
qed

text \<open>
  C16. The shared read descriptor of a file-backed log is reference-counted exactly.  Starting with no
  reader, however readers attach, fail to attach, close and close again, and even if the file is
  unlinked meanwhile, the count is the number of handles not yet closed, at most one descriptor is
  ever open and it is open exactly while some handle is outstanding, and every outstanding handle
  reads the log's own inode.
\<close>

theorem share_refcount:
  assumes "wf_share i (newSealedBacking path) w0" and "\<forall>f \<ge> base. fds w0 f = None" and "base \<le> fnext w0"
    and "share_reach (newSealedBacking path, w0, []) (s, w, hs)"
  shows "refs s = int (outstanding hs)
    \<and> {f. base \<le> f \<and> fds w f \<noteq> None} = set_option (readFD s)
    \<and> (readFD s \<noteq> None \<longleftrightarrow> outstanding hs \<noteq> 0)
    \<and> (\<forall>h \<in> set hs. \<not> sh_once h \<longrightarrow> fds w (sh_fd h) = Some i)"
proof -
  have "share_inv i base (newSealedBacking path, w0, [])"
    using assms(1-3) by (auto simp: share_inv_def newSealedBacking_def outstanding_def)
  then have "share_inv i base (s, w, hs)" using assms(4) share_inv_reach by blast
  then show ?thesis by (auto simp: share_inv_def wf_share_def share_readable_def)
qed

definition demo_os :: os where
  "demo_os = \<lparr>inode = (\<lambda>i. if i = 4 then [1, 2, 3] else []), clean = (\<lambda>i. True), dirent = [''data'' \<mapsto> 4],
     ents = (\<lambda>p. if p = ''data'' then {Some 4} else {None}), isdir = (\<lambda>i. False), paths = [''data''], inext = 5,
     fds = (\<lambda>f. None), fnext = 10, plan = []\<rparr>"

theorem share_refcount_witness:
  "\<exists>s w hs. share_reach (newSealedBacking ''data'', demo_os, []) (s, w, hs)
     \<and> length hs = 2 \<and> refs s = 1 \<and> {f. 10 \<le> f \<and> fds w f \<noteq> None} = {10}"
proof -
  let ?s0 = "newSealedBacking ''data''"
  let ?h = "\<lparr>sh_fd = 10, sh_once = False\<rparr>"
  let ?w = "demo_os\<lparr>fds := (fds demo_os)(10 := Some 4), fnext := 11\<rparr>"
  have a: "share_step (?s0, demo_os, []) (?s0\<lparr>readFD := Some 10, refs := 1\<rparr>, ?w, [?h])"
    using attach_ok [of ?s0 demo_os "?s0\<lparr>readFD := Some 10, refs := 1\<rparr>" ?w ?h "[]"]
    by (simp add: share_openRead_def os_Open_def os_ans_def newSealedBacking_def demo_os_def)
  have b: "share_step (?s0\<lparr>readFD := Some 10, refs := 1\<rparr>, ?w, [?h]) (?s0\<lparr>readFD := Some 10, refs := 2\<rparr>, ?w, [?h, ?h])"
    using attach_ok [of "?s0\<lparr>readFD := Some 10, refs := 1\<rparr>" ?w "?s0\<lparr>readFD := Some 10, refs := 2\<rparr>" ?w ?h "[?h]"]
    by (simp add: share_openRead_def newSealedBacking_def)
  have c: "share_step (?s0\<lparr>readFD := Some 10, refs := 2\<rparr>, ?w, [?h, ?h])
      (?s0\<lparr>readFD := Some 10, refs := 1\<rparr>, ?w, [?h\<lparr>sh_once := True\<rparr>, ?h])"
    using close [of 0 "[?h, ?h]" "?s0\<lparr>readFD := Some 10, refs := 2\<rparr>" ?w "?h\<lparr>sh_once := True\<rparr>"
        "?s0\<lparr>readFD := Some 10, refs := 1\<rparr>" ?w None]
    by (simp add: share_Close_def share_release_def newSealedBacking_def)
  have r: "share_reach (?s0, demo_os, []) (?s0\<lparr>readFD := Some 10, refs := 1\<rparr>, ?w, [?h\<lparr>sh_once := True\<rparr>, ?h])"
    using a b c by (meson share_refl share_next)
  have "{f. 10 \<le> f \<and> fds ?w f \<noteq> None} = {10}"
    using share_refcount [OF _ _ _ r, of 4 10] by (simp add: wf_share_def newSealedBacking_def demo_os_def)
  then show ?thesis using r
    by (intro exI [of _ "?s0\<lparr>readFD := Some 10, refs := 1\<rparr>"] exI [of _ ?w]
        exI [of _ "[?h\<lparr>sh_once := True\<rparr>, ?h]"]) simp
qed

end
