(* ===== verification/MemBacking.thy ===== *)
theory MemBacking imports Buffer begin

text \<open>
  The in-memory backing, \<open>store/internal/buffer/memory.go\<close>: a growing slice, here the list of its
  bytes.  A handle is the pointer to the backing, so it carries nothing of its own.
\<close>

type_synonym memBacking = "byte list"

definition mem_append :: "memBacking \<Rightarrow> byte list \<Rightarrow> 'w \<Rightarrow> memBacking \<times> 'w \<times> nat \<times> err option" where
  "mem_append m p w = (m @ p, w, length p, None)"

definition mem_sync :: "memBacking \<Rightarrow> 'w \<Rightarrow> memBacking \<times> 'w \<times> err option" where
  "mem_sync m w = (m, w, None)"

definition mem_closeWrite :: "memBacking \<Rightarrow> 'w \<Rightarrow> memBacking \<times> 'w \<times> err option" where
  "mem_closeWrite m w = (m, w, None)"

definition mem_openRead :: "memBacking \<Rightarrow> 'w \<Rightarrow> memBacking \<times> 'w \<times> (err + unit)" where
  "mem_openRead m w = (m, w, Inr ())"

definition mem_ReadAt :: "unit \<Rightarrow> memBacking \<Rightarrow> nat \<Rightarrow> int64 \<Rightarrow> 'w \<Rightarrow> 'w \<times> byte list \<times> err option" where
  "mem_ReadAt h m len off w =
     (if sint off < 0 then (w, [], Some (Leaf BufOffset))
      else if sint off \<ge> int (length m) then (w, [], Some (Leaf IoEOF))
      else (let bs = take len (drop (nat (sint off)) m)
            in (w, bs, if length bs < len then Some (Leaf IoEOF) else None)))"

definition mem_Close :: "unit \<Rightarrow> memBacking \<Rightarrow> 'w \<Rightarrow> unit \<times> memBacking \<times> 'w \<times> err option" where
  "mem_Close h m w = ((), m, w, None)"

definition memB :: "(memBacking, unit, 'w) backing" where
  "memB = \<lparr>b_append = mem_append, b_sync = mem_sync, b_openRead = mem_openRead,
     b_closeWrite = mem_closeWrite, h_ReadAt = mem_ReadAt, h_Close = mem_Close\<rparr>"

definition NewMemory :: "memBacking buffer" where
  "NewMemory = newBuffer []"

lemma memB_simps [simp]:
  "b_append memB = mem_append" "b_sync memB = mem_sync" "b_openRead memB = mem_openRead"
  "b_closeWrite memB = mem_closeWrite" "h_ReadAt memB = mem_ReadAt" "h_Close memB = mem_Close"
  by (simp_all add: memB_def)

interpretation memlog: byte_log "memB :: (memBacking, unit, 'w) backing"
    "\<lambda>m w. m" "\<lambda>h m w. True" "\<lambda>m w. True"
proof (unfold_locales, goal_cases)
  case (2 k w h off len w' bs e)
  then show ?case
    by (auto simp: mem_ReadAt_def Let_def split: if_splits)
qed (auto simp: mem_append_def mem_sync_def mem_closeWrite_def mem_openRead_def)

end
