(* ===== verification/Streams.thy ===== *)
theory Streams imports MemBacking DiskBacking begin

text \<open>
  What a reader of a log is promised, over any backing that meets the contract and in particular
  over the memory and the disk backing: the bytes delivered are the log's, a clean end of stream is
  the end of a log that was finished cleanly, a truncated or torn log never looks complete, no
  wakeup is lost, and the shared read descriptor is open exactly while a reader holds it.
\<close>

text \<open>The copy loop over a reader, \<open>io.Copy\<close> as the api runs it: read until the first error.\<close>

fun drain ::
  "nat \<Rightarrow> ('r \<Rightarrow> 'w \<Rightarrow> 'r \<times> 'w \<times> byte list \<times> err option) \<Rightarrow> 'r \<Rightarrow> 'w \<Rightarrow> (byte list \<times> err) option" where
  "drain 0 rd r w = None"
| "drain (Suc fuel) rd r w =
     (case rd r w of
        (r', w', bs, Some e) \<Rightarrow> Some (bs, e)
      | (r', w', bs, None) \<Rightarrow> map_option (\<lambda>(cs, e). (bs @ cs, e)) (drain fuel rd r' w'))"

definition healthy_log :: "('b \<Rightarrow> 'w \<Rightarrow> byte list) \<Rightarrow> ('b \<Rightarrow> 'w \<Rightarrow> bool) \<Rightarrow> 'b buffer \<Rightarrow> 'w \<Rightarrow> bool" where
  "healthy_log contents valid b w \<longleftrightarrow>
     valid (bback b) w \<and> length (contents (bback b) w) < 2 ^ 63
     \<and> bsize b = word_of_nat (length (contents (bback b) w)) \<and> \<not> (bclosed b \<and> baborted b)"

context byte_log
begin

lemma attach_inv:
  assumes "healthy_log contents wf b w" and "attach B b w = Some s"
  shows "stream_inv s"
proof -
  obtain k w' r where o: "b_openRead B (bback b) w = (k, w', r)"
    by (cases "b_openRead B (bback b) w") auto
  obtain h where r: "r = Inr h"
    using assms(2) o by (cases r) (auto simp: attach_def buf_Reader_def)
  have s: "s = \<lparr>st_b = b\<lparr>bback := k\<rparr>, st_w = w', st_r = \<lparr>f_off = 0, f_h = h, f_once = False\<rparr>,
      st_mode = Idle, st_got = [], st_end = None\<rparr>"
    using assms(2) o r by (simp add: attach_def buf_Reader_def)
  have "wf (bback b) w" using assms(1) by (simp add: healthy_log_def)
  from openRead_law [OF this o] show ?thesis
    using assms(1) by (simp add: s r stream_inv_def healthy_log_def)
qed

lemma reach_integrity:
  assumes "healthy_log contents wf b w" and "attach B b w = Some s0" and "stream_reach B s0 s"
  shows "st_got s = take (length (st_got s)) (contents (bback (st_b s)) (st_w s))
    \<and> (st_end s = Some (Leaf IoEOF) \<longrightarrow> bclosed (st_b s) \<and> \<not> baborted (st_b s)
         \<and> st_got s = contents (bback (st_b s)) (st_w s))
    \<and> (baborted (st_b s) \<longrightarrow> st_end s \<noteq> Some (Leaf IoEOF))"
  using stream_inv_reach [OF assms(3) attach_inv [OF assms(1,2)]]
  unfolding stream_inv_def by blast

lemma reach_parked:
  assumes "healthy_log contents wf b w" and "attach B b w = Some s0" and "stream_reach B s0 s"
    and "st_mode s = Waiting len c"
  shows "chan_closed (st_b s) c \<or> \<not> terminated (st_b s)
      \<and> st_got s = contents (bback (st_b s)) (st_w s)"
  using stream_inv_reach [OF assms(3) attach_inv [OF assms(1,2)]] assms(4)
  unfolding stream_inv_def chan_closed_def by blast

end

context readable_log
begin

lemma section_drain_exact:
  assumes "wf (bback b) w" and "readable (sr_h s) (bback b) w"
    and "0 \<le> sint (sr_off s)" and "sint (sr_off s) \<le> sint (sr_size s)"
    and "drain fuel (section_Read B b len) s w = Some (out, Leaf IoEOF)"
  shows "out = take (nat (sint (sr_size s) - sint (sr_off s))) (drop (nat (sint (sr_off s))) (contents (bback b) w))
    \<and> int (length out) = sint (sr_size s) - sint (sr_off s)"
  using assms
proof (induction fuel arbitrary: s w out)
  case 0 then show ?case by simp
next
  case (Suc fuel)
  show ?case
  proof (cases "sint (sr_off s) \<ge> sint (sr_size s)")
    case True
    then show ?thesis using Suc.prems by (simp add: section_Read_def)
  next
    case False
    obtain w' bs e where r: "readRegion B (sr_h s) (bback b) len (sr_off s) (sr_size s) w = (w', bs, e)"
      by (cases "readRegion B (sr_h s) (bback b) len (sr_off s) (sr_size s) w") auto
    have lt: "sint (sr_off s) < sint (sr_size s)" using False by simp
    note rr = readRegion_slice [OF Suc.prems(1-3) lt r]
    let ?off = "sint (sr_off s)" and ?c = "contents (bback b) w"
    define s' where "s' = s\<lparr>sr_off := sr_off s + word_of_nat (length bs)\<rparr>"
    have rd: "section_Read B b len s w = (s', w', bs, e)"
      using False r by (simp add: section_Read_def s'_def)
    have e: "e = None" using rd rr(6) Suc.prems(5) by (cases e) auto
    then obtain cs where cs: "drain fuel (section_Read B b len) s' w' = Some (cs, Leaf IoEOF)" "out = bs @ cs"
      using rd Suc.prems(5) by auto
    have small: "int (length bs) < 2 ^ 63"
      using rr(5) Suc.prems(3) sint64_bounds [of "sr_size s"] by linarith
    have off': "sint (sr_off s') = ?off + int (length bs)"
    proof -
      have "sint (word_of_nat (length bs) :: int64) = int (length bs)"
        using small by (intro sint64_of_nat nat_lt_63)
      moreover have "?off + int (length bs) < 2 ^ 63"
        using rr(5) sint64_bounds [of "sr_size s"] by linarith
      ultimately show ?thesis
        using Suc.prems(3) by (simp add: s'_def sint64_add)
    qed
    have ih: "cs = take (nat (sint (sr_size s') - sint (sr_off s'))) (drop (nat (sint (sr_off s'))) (contents (bback b) w'))
        \<and> int (length cs) = sint (sr_size s') - sint (sr_off s')"
    proof (rule Suc.IH [OF _ _ _ _ cs(1)])
      show "wf (bback b) w'" by (rule rr(1))
      show "readable (sr_h s') (bback b) w'" using rr(3) Suc.prems(2) by (simp add: s'_def)
      show "0 \<le> sint (sr_off s')" using off' Suc.prems(3) by simp
      show "sint (sr_off s') \<le> sint (sr_size s')" using off' rr(5) by (simp add: s'_def)
    qed
    have sz: "sr_size s' = sr_size s" by (simp add: s'_def)
    define o' where "o' = nat ?off"
    have o': "nat (sint (sr_off s')) = o' + length bs"
      using off' Suc.prems(3) by (simp add: o'_def nat_add_distrib)
    have rest: "nat (sint (sr_size s') - sint (sr_off s')) = length cs"
      using conjunct2 [OF ih] by (metis nat_int)
    have len: "int (length out) = sint (sr_size s) - ?off" 
      using cs(2) conjunct2 [OF ih] off' sz by (simp only: length_append of_nat_add)
    then have total: "nat (sint (sr_size s) - ?off) = length bs + length cs"
      unfolding cs(2) by (metis length_append nat_int)
    have "bs = take (length bs) (drop o' ?c)" using rr(4) by (simp add: o'_def)
    moreover have "cs = take (length cs) (drop (length bs) (drop o' ?c))"
      using conjunct1 [OF ih] unfolding rest o' rr(2) drop_drop by (simp only: add.commute)
    ultimately have "out = take (length bs + length cs) (drop o' ?c)"
      unfolding cs(2) take_add by metis
    then show ?thesis using len unfolding total o'_def by blast
  qed
qed

end

text \<open>
  C3. A follower never lies about the stream.  Whatever the writer and the follower interleave, over
  any backing that keeps its contract and however its reads fail, the bytes delivered are a prefix
  of the log in order; \<open>io.EOF\<close> is returned only after every byte of a log that was finished
  cleanly; and a torn log never ends in \<open>io.EOF\<close>.
\<close>

theorem follower_integrity:
  assumes "byte_log B contents readable valid" and "healthy_log contents valid b w"
    and "attach B b w = Some s0" and "stream_reach B s0 s"
  shows "st_got s = take (length (st_got s)) (contents (bback (st_b s)) (st_w s))
    \<and> (st_end s = Some (Leaf IoEOF) \<longrightarrow> bclosed (st_b s) \<and> \<not> baborted (st_b s)
         \<and> st_got s = contents (bback (st_b s)) (st_w s))
    \<and> (baborted (st_b s) \<longrightarrow> st_end s \<noteq> Some (Leaf IoEOF))"
  by (rule byte_log.reach_integrity [OF assms])

text \<open>A run used by the witnesses: two bytes arrive while the follower waits, then a clean end.\<close>

definition demo_start :: "(memBacking, unit, unit) stream" where
  "demo_start = \<lparr>st_b = NewMemory, st_w = (), st_r = \<lparr>f_off = 0, f_h = (), f_once = False\<rparr>,
     st_mode = Idle, st_got = [], st_end = None\<rparr>"

definition demo_log :: "memBacking buffer" where
  "demo_log = \<lparr>bsize = 2, bclosed = False, baborted = False, bnotify = 1, bback = [7, 9]\<rparr>"

definition demo_parked :: "(memBacking, unit, unit) stream" where
  "demo_parked = demo_start\<lparr>st_b := demo_log, st_mode := Waiting 4 0\<rparr>"

definition demo_end :: "(memBacking, unit, unit) stream" where
  "demo_end = \<lparr>st_b = demo_log\<lparr>bclosed := True, bnotify := 2\<rparr>, st_w = (),
     st_r = \<lparr>f_off = 2, f_h = (), f_once = False\<rparr>, st_mode = Idle, st_got = [7, 9],
     st_end = Some (Leaf IoEOF)\<rparr>"

lemmas demo_defs = demo_start_def demo_log_def demo_parked_def demo_end_def NewMemory_def newBuffer_def

lemma demo_attach: "attach memB NewMemory () = Some demo_start"
  by (simp add: attach_def buf_Reader_def mem_openRead_def demo_defs)

lemma demo_healthy: "healthy_log (\<lambda>m w. m) (\<lambda>m w. True) NewMemory ()"
  by (simp add: healthy_log_def demo_defs)

lemma demo_reach_parked: "stream_reach memB demo_start demo_parked"
proof -
  have "stream_step memB demo_start (demo_start\<lparr>st_mode := Turning 4\<rparr>)"
    by (rule read_call) (simp_all add: demo_defs)
  moreover have "stream_step memB (demo_start\<lparr>st_mode := Turning 4\<rparr>) (demo_start\<lparr>st_mode := Waiting 4 0\<rparr>)"
    using turn_park [of "demo_start\<lparr>st_mode := Turning 4\<rparr>" 4 memB]
    by (simp add: follower_turn_def demo_defs)
  moreover have "stream_step memB (demo_start\<lparr>st_mode := Waiting 4 0\<rparr>) demo_parked"
    using writer_append [of memB "[7, 9]" "demo_start\<lparr>st_mode := Waiting 4 0\<rparr>"]
    by (simp add: buf_Append_def terminated_def mem_append_def advance_def wakeLocked_def Let_def demo_defs)
  ultimately show ?thesis by (meson reach_refl reach_step)
qed

lemma demo_reach_end: "stream_reach memB demo_start demo_end"
proof -
  let ?t = "demo_parked\<lparr>st_mode := Turning 4\<rparr>"
  let ?g = "\<lparr>st_b = demo_log, st_w = (), st_r = \<lparr>f_off = 2, f_h = (), f_once = False\<rparr>, st_mode = Idle,
      st_got = [7, 9], st_end = None\<rparr>"
  let ?f = "?g\<lparr>st_b := demo_log\<lparr>bclosed := True, bnotify := 2\<rparr>\<rparr>"
  have "stream_step memB demo_parked ?t"
    by (rule select_wake [of _ 4 0]) (simp_all add: chan_closed_def demo_defs)
  moreover have "stream_step memB ?t ?g"
    using turn_return [of ?t 4 None memB]
    by (simp add: follower_turn_def readRegion_def mem_ReadAt_def Let_def demo_defs)
  moreover have "stream_step memB ?g ?f"
    using writer_finish [of ?g memB]
    by (simp add: buf_Finish_def terminated_def mem_closeWrite_def wakeLocked_def Let_def demo_defs
        numeral_2_eq_2)
  moreover have "stream_step memB ?f (?f\<lparr>st_mode := Turning 4\<rparr>)"
    by (rule read_call) simp_all
  moreover have "stream_step memB (?f\<lparr>st_mode := Turning 4\<rparr>) demo_end"
    using turn_return [of "?f\<lparr>st_mode := Turning 4\<rparr>" 4 None memB]
    by (simp add: follower_turn_def demo_defs)
  ultimately show ?thesis using demo_reach_parked by (meson reach_step)
qed

theorem follower_integrity_witness:
  "st_end demo_end = Some (Leaf IoEOF) \<and> st_got demo_end = bback (st_b demo_end) \<and> st_got demo_end = [7, 9]"
  using follower_integrity [OF memlog.byte_log_axioms demo_healthy demo_attach demo_reach_end]
  by (simp add: demo_defs)

text \<open>
  C11. No wakeup is lost.  A follower parked on the channel it captured under the buffer's lock waits
  only while there is nothing for it: as soon as bytes it has not delivered are published or the
  log is ended, in whatever order that interleaves with the park, its channel is closed and the
  step that resumes it is enabled.
\<close>

theorem follower_no_lost_wakeup:
  assumes "byte_log B contents readable valid" and "healthy_log contents valid b w"
    and "attach B b w = Some s0" and "stream_reach B s0 s" and "st_mode s = Waiting len c"
    and "st_got s \<noteq> contents (bback (st_b s)) (st_w s) \<or> terminated (st_b s)"
  shows "select_ready (st_b s) None c \<and> stream_step B s (s\<lparr>st_mode := Turning len\<rparr>)"
proof -
  have "chan_closed (st_b s) c"
    using byte_log.reach_parked [OF assms(1-5)] assms(6) by blast
  then show ?thesis using assms(5) select_wake by (auto simp: select_ready_def)
qed

theorem follower_no_lost_wakeup_witness:
  "st_mode demo_parked = Waiting 4 0 \<and> bsize (st_b demo_parked) = 2
   \<and> stream_step memB demo_parked (demo_parked\<lparr>st_mode := Turning 4\<rparr>)"
  using follower_no_lost_wakeup [OF memlog.byte_log_axioms demo_healthy demo_attach demo_reach_parked,
      of 4 0]
  by (simp add: demo_defs)


definition demo_section :: "unit sectionReader" where
  "demo_section = \<lparr>sr_h = (), sr_size = 3, sr_off = 0, sr_once = False\<rparr>"


subsection \<open>Reading a whole log from memory\<close>

lemma mem_readRegion:
  assumes "length m < 2 ^ 63" and lt: "o' < length m"
  shows "readRegion memB h m len (word_of_nat o') (word_of_nat (length m)) w
    = (w, take len (drop o' m), None)"
proof -
  have sz: "sint (word_of_nat (length m) :: int64) = int (length m)" using assms(1) by (rule sint64_of_nat)
  have off: "sint (word_of_nat o' :: int64) = int o'" using assms by (intro sint64_of_nat) simp
  have d: "sint (word_of_nat (length m) - word_of_nat o' :: int64) = int (length m) - int o'"
    using sz off lt assms(1) by (subst sint64_diff) (simp_all add: nat_lt_63)
  define k where "k = min len (length m - o')"
  have want: "min (int len) (sint (word_of_nat (length m) - word_of_nat o' :: int64)) = int k"
    unfolding d k_def by (simp only: of_nat_diff [OF less_imp_le [OF lt], symmetric] of_nat_min)
  have bs: "take k (drop o' m) = take len (drop o' m)" "length (take len (drop o' m)) = k"
    by (simp_all add: k_def min_def)
  have "mem_ReadAt h m k (word_of_nat o') w = (w, take len (drop o' m), None)"
    unfolding mem_ReadAt_def Let_def off using lt bs by simp
  then show ?thesis unfolding readRegion_def Let_def want by simp
qed

lemma mem_section_Read:
  assumes "bback b = m" and "length m < 2 ^ 63" and "o' \<le> length m"
    and "s = \<lparr>sr_h = h, sr_size = word_of_nat (length m), sr_off = word_of_nat o', sr_once = c\<rparr>"
  shows "section_Read memB b len s w =
     (if o' = length m then (s, w, [], Some (Leaf IoEOF))
      else (s\<lparr>sr_off := word_of_nat (o' + length (take len (drop o' m)))\<rparr>, w, take len (drop o' m), None))"
proof -
  have sz: "sint (word_of_nat (length m) :: int64) = int (length m)" using assms(2) by (rule sint64_of_nat)
  have off: "sint (word_of_nat o' :: int64) = int o'" using assms(2,3) by (intro sint64_of_nat) simp
  show ?thesis
    using mem_readRegion [OF assms(2), of o' h len w] assms sz off
    by (cases "o' = length m") (simp_all add: section_Read_def)
qed

lemma mem_section_drain:
  assumes "bback b = m" and "length m < 2 ^ 63" and "o' \<le> length m" and "0 < len"
    and "length m - o' < fuel"
  shows "drain fuel (section_Read memB b len)
      \<lparr>sr_h = h, sr_size = word_of_nat (length m), sr_off = word_of_nat o', sr_once = c\<rparr> w
    = Some (drop o' m, Leaf IoEOF)"
  using assms(3,5)
proof (induction fuel arbitrary: o')
  case 0 then show ?case by simp
next
  case (Suc fuel)
  let ?s = "\<lparr>sr_h = h, sr_size = word_of_nat (length m) :: int64, sr_off = word_of_nat o', sr_once = c\<rparr>"
  note rd = mem_section_Read [OF assms(1,2) Suc.prems(1) refl, where len = len and w = w and h = h and c = c]
  show ?case
  proof (cases "o' = length m")
    case True
    then show ?thesis using rd by simp
  next
    case False
    define n where "n = length (take len (drop o' m))"
    have n: "0 < n" "o' + n \<le> length m" using False Suc.prems(1) assms(4) by (auto simp: n_def)
    have rd: "section_Read memB b len ?s w = (?s\<lparr>sr_off := word_of_nat (o' + n)\<rparr>, w, take len (drop o' m), None)"
      using rd False by (simp only: n_def if_False)
    have "drain fuel (section_Read memB b len) (?s\<lparr>sr_off := word_of_nat (o' + n)\<rparr>) w
        = Some (drop (o' + n) m, Leaf IoEOF)"
      using Suc.IH [of "o' + n"] n Suc.prems by simp
    moreover have "take len (drop o' m) @ drop (o' + n) m = drop o' m"
      unfolding n_def by (metis add.commute append_take_drop_id drop_drop length_take min.commute take_length_self)
    ultimately show ?thesis using rd by simp
  qed
qed

text \<open>
  Reading on from a log that has ended: no turn can block, so a single look at the buffer decides
  each \<open>follower.Read\<close>.
\<close>

definition follow_Read ::
  "('b, 'h, 'w) backing \<Rightarrow> 'b buffer \<Rightarrow> nat \<Rightarrow> 'h follower \<Rightarrow> 'w \<Rightarrow> 'h follower \<times> 'w \<times> byte list \<times> err option" where
  "follow_Read B b len r w = the (follower_Read B len [(b, None)] r w)"

lemma mem_follow_drain:
  assumes "terminated b" and "bback b = m" and "bsize b = word_of_nat (length m)"
    and "length m < 2 ^ 63" and "o' \<le> length m" and "0 < len" and "length m - o' < fuel"
  shows "drain fuel (follow_Read memB b len) \<lparr>f_off = word_of_nat o', f_h = h, f_once = c\<rparr> w
    = Some (drop o' m, Leaf (if baborted b then ErrAborted else IoEOF))"
  using assms(5,7)
proof (induction fuel arbitrary: o')
  case 0 then show ?case by simp
next
  case (Suc fuel)
  let ?r = "\<lparr>f_off = word_of_nat o' :: int64, f_h = h, f_once = c\<rparr>"
  obtain l where l: "len = Suc l" using assms(6) by (cases len) simp_all
  have sz: "sint (word_of_nat (length m) :: int64) = int (length m)" using assms(4) by (rule sint64_of_nat)
  have off: "sint (word_of_nat o' :: int64) = int o'" using assms(4) Suc.prems(1) by (intro sint64_of_nat) simp
  show ?case
  proof (cases "o' = length m")
    case True
    then have "follow_Read memB b len ?r w = (?r, w, [], Some (Leaf (if baborted b then ErrAborted else IoEOF)))"
      using assms(1,3) by (auto simp: follow_Read_def l follower_turn_def terminated_def)
    then show ?thesis using True by simp
  next
    case False
    define n where "n = length (take len (drop o' m))"
    have n: "0 < n" "o' + n \<le> length m" using False Suc.prems(1) assms(6) by (auto simp: n_def)
    have lt: "o' < length m" using False Suc.prems(1) by simp
    have "follow_Read memB b len ?r w
        = (?r\<lparr>f_off := word_of_nat (o' + n)\<rparr>, w, take len (drop o' m), None)"
      using mem_readRegion [OF assms(4) lt, of h len w] assms(2,3) sz off lt
      by (simp add: follow_Read_def l follower_turn_def n_def)
    moreover have "drain fuel (follow_Read memB b len) (?r\<lparr>f_off := word_of_nat (o' + n)\<rparr>) w
        = Some (drop (o' + n) m, Leaf (if baborted b then ErrAborted else IoEOF))"
      using Suc.IH [of "o' + n"] n Suc.prems by simp
    moreover have "take len (drop o' m) @ drop (o' + n) m = drop o' m"
      unfolding n_def by (metis add.commute append_take_drop_id drop_drop length_take min.commute take_length_self)
    ultimately show ?thesis by simp
  qed
qed

text \<open>
  C20. Copying a whole log from memory.  From any offset and for any positive chunk size, copying a
  log that has ended delivers exactly the remaining bytes and then stops, within one read more than
  there are bytes: with \<open>io.EOF\<close> from a finished log, through a follower as through a section, and
  with \<open>ErrAborted\<close> from a torn one.
\<close>

theorem mem_copy_complete:
  assumes "terminated b" and "bback b = m" and "bsize b = word_of_nat (length m)"
    and "length m < 2 ^ 63" and "o' \<le> length m" and "0 < len" and "length m - o' < fuel"
  shows "drain fuel (follow_Read memB b len) \<lparr>f_off = word_of_nat o', f_h = h, f_once = c\<rparr> w
      = Some (drop o' m, Leaf (if baborted b then ErrAborted else IoEOF))
    \<and> drain fuel (section_Read memB b len)
        \<lparr>sr_h = h, sr_size = bsize b, sr_off = word_of_nat o', sr_once = c\<rparr> w
      = Some (drop o' m, Leaf IoEOF)"
  by (simp add: mem_follow_drain [OF assms] mem_section_drain [OF assms(2,4-7)] assms(3))

theorem mem_copy_complete_witness:
  "drain 9 (follow_Read memB (demo_log\<lparr>baborted := True\<rparr>) 1) \<lparr>f_off = 0, f_h = (), f_once = False\<rparr> ()
   = Some ([7, 9], Leaf ErrAborted)"
  using mem_copy_complete [of "demo_log\<lparr>baborted := True\<rparr>" "[7, 9]" 0 1 9 "()" False "()"]
  by (simp add: terminated_def demo_log_def)

end
