(* ===== verification/Generation.thy ===== *)
theory Generation imports GenId Clip Quota Buffer begin

text \<open>
  Generations and handles: \<open>store/generation.go\<close>, the handle of \<open>store/registry.go\<close>, and the rules
  by which a read or an admission picks a generation.  Pointers are addresses: a handle's
  \<open>current\<close> and \<open>live\<close> are optional generation addresses, looked up in the store's heap of
  generations.
\<close>

datatype genState = genLive | genFinalized | genConsumed

definition genState_String :: "genState \<Rightarrow> string" where
  "genState_String s =
     (case s of genLive \<Rightarrow> ''live'' | genFinalized \<Rightarrow> ''finalized'' | genConsumed \<Rightarrow> ''consumed'')"

record 'b generation =
  g_id :: genID
  g_name :: string
  g_meta :: Meta
  g_created :: time
  g_ttl :: duration
  g_finalized :: time
  g_expires :: time
  g_consume :: bool
  g_state :: genState
  g_buf :: "'b buffer"

type_synonym gref = nat
type_synonym href = nat

text \<open>\<open>gate\<close> is embedded by value in the handle: its notifier is the field \<open>h_notify\<close>.\<close>

record clipHandle =
  h_notify :: nat
  h_name :: string
  h_leases :: int
  h_current :: "gref option"
  h_live :: "gref option"
  h_lastPrefix :: "64 word"

definition newHandle :: "string \<Rightarrow> clipHandle" where
  "newHandle name = \<lparr>h_notify = 0, h_name = name, h_leases = 0, h_current = None, h_live = None,
     h_lastPrefix = 0\<rparr>"

definition gen_clip :: "'b generation \<Rightarrow> Clip" where
  "gen_clip g =
     (let c = \<lparr>Name = g_name g, Generation = genID_String (g_id g), ClipMeta = g_meta g,
        Size = bsize (g_buf g), CreatedAt = g_created g, FinalizedAt = zero_time,
        ExpiresAt = zero_time, ConsumeOnce = g_consume g, Finalized = (g_state g \<noteq> genLive)\<rparr>
      in if g_state g \<noteq> genLive
         then c\<lparr>FinalizedAt := g_finalized g, ExpiresAt := g_expires g\<rparr> else c)"

definition expired :: "'b generation \<Rightarrow> time \<Rightarrow> bool" where
  "expired g now \<longleftrightarrow> \<not> IsZero (g_expires g) \<and> After now (g_expires g)"

definition presentCurrent :: "(gref \<Rightarrow> 'b generation) \<Rightarrow> clipHandle \<Rightarrow> time \<Rightarrow> gref option" where
  "presentCurrent G h now =
     (case h_current h of
        Some c \<Rightarrow> (if g_state (G c) = genFinalized \<and> \<not> expired (G c) now then Some c else None)
      | None \<Rightarrow> None)"

definition expiredCurrent :: "(gref \<Rightarrow> 'b generation) \<Rightarrow> clipHandle \<Rightarrow> time \<Rightarrow> gref option" where
  "expiredCurrent G h now =
     (case h_current h of
        Some c \<Rightarrow> (if g_state (G c) = genFinalized \<and> expired (G c) now then Some c else None)
      | None \<Rightarrow> None)"

definition followable_live :: "(gref \<Rightarrow> 'b generation) \<Rightarrow> clipHandle \<Rightarrow> gref option" where
  "followable_live G h =
     (case h_live h of Some l \<Rightarrow> (if g_consume (G l) then None else Some l) | None \<Rightarrow> None)"

definition resolveRead :: "(gref \<Rightarrow> 'b generation) \<Rightarrow> clipHandle \<Rightarrow> time \<Rightarrow> err + gref" where
  "resolveRead G h now =
     (case presentCurrent G h now of
        Some g \<Rightarrow> Inr g
      | None \<Rightarrow>
          (case followable_live G h of
             Some l \<Rightarrow> Inr l
           | None \<Rightarrow>
               (case h_current h of
                  Some c \<Rightarrow> (if g_state (G c) = genConsumed then Inl (Leaf ErrConsumed)
                            else Inl (Leaf ErrNotFound))
                | None \<Rightarrow> Inl (Leaf ErrNotFound))))"

definition followResolve ::
  "(gref \<Rightarrow> 'b generation) \<Rightarrow> clipHandle \<Rightarrow> genID \<Rightarrow> time \<Rightarrow> err + gref" where
  "followResolve G h baseline now =
     (case presentCurrent G h now of
        Some g \<Rightarrow>
          (if id_after (g_id (G g)) baseline then Inr g
           else (case followable_live G h of Some l \<Rightarrow> Inr l | None \<Rightarrow> Inl (Leaf ErrNotFound)))
      | None \<Rightarrow>
          (case followable_live G h of Some l \<Rightarrow> Inr l | None \<Rightarrow> Inl (Leaf ErrNotFound)))"

subsection \<open>Facts\<close>

lemma genState_String_inj: "genState_String a = genState_String b \<Longrightarrow> a = b"
  by (cases a; cases b) (simp_all add: genState_String_def)

lemma presentCurrent_Some:
  "presentCurrent G h now = Some g \<longleftrightarrow>
     h_current h = Some g \<and> g_state (G g) = genFinalized \<and> \<not> expired (G g) now"
  by (auto simp: presentCurrent_def split: option.splits)

lemma expiredCurrent_Some:
  "expiredCurrent G h now = Some g \<longleftrightarrow>
     h_current h = Some g \<and> g_state (G g) = genFinalized \<and> expired (G g) now"
  by (auto simp: expiredCurrent_def split: option.splits)

lemma followable_live_Some:
  "followable_live G h = Some g \<longleftrightarrow> h_live h = Some g \<and> \<not> g_consume (G g)"
  by (auto simp: followable_live_def split: option.splits)

text \<open>
  Presence is exact and continuous.  At every instant a finalized current generation is either
  readable or expired, never both and never neither; one with no deadline is always readable; and
  once it has expired it stays expired for every later instant, so a reader past the deadline never
  sees it and the reaper always can.
\<close>

theorem presence_partition:
  "(case h_current h of
      Some c \<Rightarrow> (g_state (G c) = genFinalized \<longrightarrow>
          (presentCurrent G h now = Some c) \<noteq> (expiredCurrent G h now = Some c)
          \<and> (g_expires (G c) = zero_time \<longrightarrow> presentCurrent G h now = Some c)
          \<and> (\<forall>later. now \<le> later \<and> expiredCurrent G h now = Some c \<longrightarrow>
                 expiredCurrent G h later = Some c \<and> presentCurrent G h later = None))
        \<and> (g_state (G c) \<noteq> genFinalized \<longrightarrow>
          presentCurrent G h now = None \<and> expiredCurrent G h now = None)
    | None \<Rightarrow> presentCurrent G h now = None \<and> expiredCurrent G h now = None)"
  by (auto simp: presentCurrent_def expiredCurrent_def expired_def IsZero_def After_def
      split: option.splits)

definition demo_gen :: "unit generation" where
  "demo_gen = \<lparr>g_id = replicate 16 1, g_name = ''a'', g_meta = \<lparr>Kind = KindBytes, Filename = '''', Executable = False\<rparr>,
     g_created = 1, g_ttl = 5, g_finalized = 2, g_expires = 7, g_consume = False,
     g_state = genFinalized, g_buf = newBuffer ()\<rparr>"

definition demo_handle :: clipHandle where
  "demo_handle = (newHandle ''a'')\<lparr>h_current := Some 0\<rparr>"

theorem presence_partition_witness:
  "presentCurrent (\<lambda>_. demo_gen) demo_handle 7 = Some 0 \<and> expiredCurrent (\<lambda>_. demo_gen) demo_handle 8 = Some 0
   \<and> presentCurrent (\<lambda>_. demo_gen) demo_handle 1000 = None"
proof -
  have e: "expiredCurrent (\<lambda>_. demo_gen) demo_handle 8 = Some 0"
    by (simp add: expiredCurrent_def expired_def IsZero_def zero_time_def After_def demo_gen_def demo_handle_def)
  have "presentCurrent (\<lambda>_. demo_gen) demo_handle 7 = Some 0"
    by (simp add: presentCurrent_def expired_def IsZero_def zero_time_def After_def demo_gen_def demo_handle_def)
  moreover have "presentCurrent (\<lambda>_. demo_gen) demo_handle 1000 = None"
    using presence_partition [where h = demo_handle and G = "\<lambda>_. demo_gen" and now = 8] e
    by (simp add: demo_handle_def demo_gen_def)
  ultimately show ?thesis using e by blast
qed

text \<open>
  The read rule.  A read resolves to the present finalized value whenever there is one, however
  many replacements are in flight; otherwise to a live generation that is not consume-once; a
  consume-once generation is never followed while live; a claimed one reports \<open>ErrConsumed\<close> to a
  plain read and is simply absent to a follow-next read, which in turn never returns a finalized
  value that does not sort after its baseline.
\<close>

theorem resolve_rule:
  "(\<forall>g. presentCurrent G h now = Some g \<longrightarrow> resolveRead G h now = Inr g)
   \<and> (\<forall>g. resolveRead G h now = Inr g \<or> followResolve G h baseline now = Inr g \<longrightarrow>
        h_current h = Some g \<and> g_state (G g) = genFinalized \<and> \<not> expired (G g) now
        \<or> h_live h = Some g \<and> \<not> g_consume (G g))
   \<and> (resolveRead G h now = Inl (Leaf ErrConsumed) \<longleftrightarrow>
        followable_live G h = None \<and> (\<exists>c. h_current h = Some c \<and> g_state (G c) = genConsumed))
   \<and> (\<forall>e. followResolve G h baseline now = Inl e \<longrightarrow> e = Leaf ErrNotFound)
   \<and> (\<forall>g. followResolve G h baseline now = Inr g \<and> h_live h \<noteq> Some g \<longrightarrow> id_after (g_id (G g)) baseline)"
  by (auto simp: resolveRead_def followResolve_def presentCurrent_def followable_live_def
      split: option.splits if_splits)

theorem resolve_rule_witness:
  "resolveRead (\<lambda>_. demo_gen) (demo_handle\<lparr>h_live := Some 3\<rparr>) 7 = Inr 0
   \<and> resolveRead (\<lambda>_. demo_gen\<lparr>g_consume := True, g_state := genConsumed\<rparr>) (demo_handle\<lparr>h_live := Some 3\<rparr>) 7
       = Inl (Leaf ErrConsumed)"
proof -
  let ?G = "\<lambda>_ :: nat. demo_gen" and ?h = "demo_handle\<lparr>h_live := Some 3\<rparr>"
  let ?C = "\<lambda>_ :: nat. demo_gen\<lparr>g_consume := True, g_state := genConsumed\<rparr>"
  have "presentCurrent ?G ?h 7 = Some 0"
    by (simp add: presentCurrent_def expired_def IsZero_def zero_time_def After_def demo_gen_def demo_handle_def)
  then have "resolveRead ?G ?h 7 = Inr 0" using resolve_rule [where G = ?G and h = ?h and now = 7] by blast
  moreover have "followable_live ?C ?h = None" "\<exists>c. h_current ?h = Some c \<and> g_state (?C c) = genConsumed"
    by (simp_all add: followable_live_def demo_handle_def)
  then have "resolveRead ?C ?h 7 = Inl (Leaf ErrConsumed)"
    using resolve_rule [where G = ?C and h = ?h and now = 7] by blast
  ultimately show ?thesis by blast
qed

end
