(* ===== verification/Medium.thy ===== *)
theory Medium imports Generation MemBacking begin

text \<open>
  The medium seam, \<open>store/medium.go\<close>: Go's interface value is a record of operations over the
  outside world \<open>'w\<close>, which also names the backing its byte logs have.  \<open>claim\<close>, \<open>finalize\<close> and
  \<open>unpublish\<close> return the committed flag and the error; \<open>abortPublish\<close> and \<open>remove\<close> return nothing.
\<close>

record ('b, 'h, 'w) medium =
  m_back :: "('b, 'h, 'w) backing"
  m_create :: "genID \<Rightarrow> 'w \<Rightarrow> 'w \<times> (err + 'b buffer)"
  m_finalize :: "'b generation \<Rightarrow> 'w \<Rightarrow> 'w \<times> bool \<times> err option"
  m_claim :: "'b generation \<Rightarrow> 'w \<Rightarrow> 'w \<times> bool \<times> err option"
  m_unpublish :: "'b generation \<Rightarrow> 'w \<Rightarrow> 'w \<times> bool \<times> err option"
  m_abortPublish :: "'b generation \<Rightarrow> 'w \<Rightarrow> 'w"
  m_remove :: "'b generation \<Rightarrow> 'w \<Rightarrow> 'w"

definition memMedium_create :: "genID \<Rightarrow> 'w \<Rightarrow> 'w \<times> (err + memBacking buffer)" where
  "memMedium_create i w = (w, Inr NewMemory)"

definition memMedium_finalize :: "memBacking generation \<Rightarrow> 'w \<Rightarrow> 'w \<times> bool \<times> err option" where
  "memMedium_finalize g w = (w, True, None)"

definition memMedium_claim :: "memBacking generation \<Rightarrow> 'w \<Rightarrow> 'w \<times> bool \<times> err option" where
  "memMedium_claim g w = (w, True, None)"

definition memMedium_unpublish :: "memBacking generation \<Rightarrow> 'w \<Rightarrow> 'w \<times> bool \<times> err option" where
  "memMedium_unpublish g w = (w, True, None)"

definition memMedium_abortPublish :: "memBacking generation \<Rightarrow> 'w \<Rightarrow> 'w" where
  "memMedium_abortPublish g w = w"

definition memMedium_remove :: "memBacking generation \<Rightarrow> 'w \<Rightarrow> 'w" where
  "memMedium_remove g w = w"

definition memMedium :: "(memBacking, unit, 'w) medium" where
  "memMedium = \<lparr>m_back = memB, m_create = memMedium_create, m_finalize = memMedium_finalize,
     m_claim = memMedium_claim, m_unpublish = memMedium_unpublish,
     m_abortPublish = memMedium_abortPublish, m_remove = memMedium_remove\<rparr>"

lemmas memMedium_ops = memMedium_create_def memMedium_finalize_def memMedium_claim_def
  memMedium_unpublish_def memMedium_abortPublish_def memMedium_remove_def

lemma memMedium_simps [simp]:
  "m_back memMedium = memB" "m_create memMedium = memMedium_create"
  "m_finalize memMedium = memMedium_finalize" "m_claim memMedium = memMedium_claim"
  "m_unpublish memMedium = memMedium_unpublish" "m_abortPublish memMedium = memMedium_abortPublish"
  "m_remove memMedium = memMedium_remove"
  by (simp_all add: memMedium_def)

text \<open>
  What the store relies on in any medium: \<open>create\<close> hands back a fresh, empty, live byte log, and
  the log's \<open>append\<close> never claims more bytes than it was given.  Nothing is assumed of the outcomes
  of the durable steps.
\<close>

locale medium_contract =
  fixes M :: "('b, 'h, 'w) medium"
  assumes create_fresh: "m_create M i w = (w', Inr b) \<Longrightarrow> bsize b = 0 \<and> \<not> terminated b"
    and append_bound: "b_append (m_back M) k p w = (k', w', n, e) \<Longrightarrow> n \<le> length p"

interpretation memmed: medium_contract memMedium
  by unfold_locales
    (auto simp: memMedium_create_def NewMemory_def newBuffer_def terminated_def mem_append_def)

end
