(* ===== verification/Gate.thy ===== *)
theory Gate imports Errors begin

text \<open>
  The gate, \<open>store/gate.go\<close>, generic as it is there: the closures it runs act on a state \<open>'s\<close> that
  holds the notifier; \<open>wake\<close> closes and replaces the notifier's channel and \<open>chan\<close> reads the
  current one.  The mutex is what makes each of these functions one atomic step.
\<close>

definition gate_peek :: "('s \<Rightarrow> 'a) \<Rightarrow> 's \<Rightarrow> 'a" where
  "gate_peek fn s = fn s"

definition transition :: "('s \<Rightarrow> 's) \<Rightarrow> ('s \<Rightarrow> 's \<times> bool) \<Rightarrow> 's \<Rightarrow> 's" where
  "transition wake fn s = (case fn s of (s', b) \<Rightarrow> if b then wake s' else s')"

definition transitionResult ::
  "('s \<Rightarrow> 's) \<Rightarrow> ('s \<Rightarrow> 's \<times> 't \<times> bool \<times> err option) \<Rightarrow> 's \<Rightarrow> 's \<times> 't \<times> err option" where
  "transitionResult wake fn s =
     (case fn s of (s', t, b, e) \<Rightarrow> (if b then wake s' else s', t, e))"

text \<open>
  One turn of \<open>await\<close> under one hold of the lock: resolve, and either commit, fail, or park on the
  channel captured under that same hold.  After the park, \<open>await_resume\<close> is the single look at the
  context.
\<close>

datatype 't awaited = Done 't "err option" | Park nat

definition await_turn ::
  "('s \<Rightarrow> 's) \<Rightarrow> ('s \<Rightarrow> nat) \<Rightarrow> ('s \<Rightarrow> 's \<times> (err + 'r)) \<Rightarrow> (err \<Rightarrow> bool)
   \<Rightarrow> ('r \<Rightarrow> 's \<Rightarrow> 's \<times> 't \<times> bool \<times> err option) \<Rightarrow> 't \<Rightarrow> 's \<Rightarrow> 's \<times> 't awaited" where
  "await_turn wake chan resolve waitable commit zero s =
     (case resolve s of
        (s1, Inl e) \<Rightarrow> (if waitable e then (s1, Park (chan s1)) else (s1, Done zero (Some e)))
      | (s1, Inr r) \<Rightarrow>
          (case commit r s1 of (s2, t, b, e) \<Rightarrow> (if b then wake s2 else s2, Done t e)))"

definition await_resume :: "'t \<Rightarrow> err option \<Rightarrow> 't awaited option" where
  "await_resume zero ctx = (case ctx of Some e \<Rightarrow> Some (Done zero (Some e)) | None \<Rightarrow> None)"

text \<open>
  The whole loop against interference: before each turn the other goroutines apply a state change of
  their own and the context may be done; the first turn looks at no context.  \<open>None\<close>: still parked
  when the given changes end.
\<close>

fun await_loop ::
  "('s \<Rightarrow> 's) \<Rightarrow> ('s \<Rightarrow> nat) \<Rightarrow> ('s \<Rightarrow> 's \<times> (err + 'r)) \<Rightarrow> (err \<Rightarrow> bool)
   \<Rightarrow> ('r \<Rightarrow> 's \<Rightarrow> 's \<times> 't \<times> bool \<times> err option) \<Rightarrow> 't \<Rightarrow> (('s \<Rightarrow> 's) \<times> err option) list \<Rightarrow> 's
   \<Rightarrow> 's \<times> ('t \<times> err option) option" where
  "await_loop wake chan resolve waitable commit zero envs s =
     (case await_turn wake chan resolve waitable commit zero s of
        (s', Done t e) \<Rightarrow> (s', Some (t, e))
      | (s', Park c) \<Rightarrow>
          (case envs of
             [] \<Rightarrow> (s', None)
           | (f, ctx) # envs' \<Rightarrow>
               (case await_resume zero ctx of
                  Some (Done t e) \<Rightarrow> (f s', Some (t, e))
                | _ \<Rightarrow> await_loop wake chan resolve waitable commit zero envs' (f s'))))"

subsection \<open>The contract between the gate and its mutators\<close>

text \<open>
  What the gate relies on.  \<open>wakes\<close> are the steps other goroutines take under the lock: each either
  moves the channel on, or leaves the channel and withholds the wake, in which case it must not have
  made a parked waiter's resolve succeed.  Channels are never reused.
\<close>

locale gate_contract =
  fixes chan :: "'s \<Rightarrow> nat"
    and ready :: "'s \<Rightarrow> bool"
    and moves :: "'s \<Rightarrow> 's \<Rightarrow> bool"
  assumes chan_grows: "moves s s' \<Longrightarrow> chan s \<le> chan s'"
    and no_silent_ready: "moves s s' \<Longrightarrow> chan s' = chan s \<Longrightarrow> ready s' \<Longrightarrow> ready s"
begin

lemma chan_mono: "moves\<^sup>*\<^sup>* s s' \<Longrightarrow> chan s \<le> chan s'"
  by (induction rule: rtranclp_induct) (auto dest: chan_grows)

text \<open>A waiter that parked on a state where its resolve failed is woken before its resolve succeeds.\<close>

lemma parked_or_woken:
  assumes "moves\<^sup>*\<^sup>* s s'" and "\<not> ready s" and "ready s'"
  shows "chan s' \<noteq> chan s"
proof -
  have "ready s' \<longrightarrow> chan s < chan s'" using assms(1)
  proof (induction rule: rtranclp_induct)
    case base then show ?case using assms(2) by simp
  next
    case (step y z)
    have "chan s \<le> chan y" using step.hyps(1) by (rule chan_mono)
    then show ?case
      using chan_grows [OF step.hyps(2)] no_silent_ready [OF step.hyps(2)] step.IH
      by (metis leD le_neq_implies_less less_le_trans order.trans)
  qed
  then show ?thesis using assms(3) by simp
qed

end

end
