(* ===== verification/Store.thy ===== *)
theory Store imports Medium Gate begin

text \<open>
  The store: its registry (\<open>store/registry.go\<close>), the atomic sections its operations run under a
  handle's gate or the registry's mutex, and the operations composed from them
  (\<open>store/store.go\<close>, \<open>store/writer.go\<close>, \<open>store/reaper.go\<close>).  Handles and generations live in heaps
  indexed by address; the registry is the association list of names to handles.  Clock readings,
  random bytes and contexts are arguments, as the store takes them from its environment.
\<close>

record ('b, 'w) store =
  reg :: "(string \<times> href) list"
  hs :: "href \<Rightarrow> clipHandle"
  hnext :: nat
  gs :: "gref \<Rightarrow> 'b generation"
  gnext :: nat
  squota :: quota
  defaultTTL :: duration
  lastReclaim :: int64
  world :: 'w

record Config =
  MaxClip :: int64
  MaxTotal :: int64
  MaxClips :: int64
  DefaultTTL :: duration

record PutOpts =
  po_TTL :: duration
  po_Keep :: bool
  po_ConsumeOnce :: bool
  po_IfMatch :: string

record GetOpts =
  go_Wait :: bool
  go_FollowNext :: bool
  go_WaitMax :: duration

definition newStore :: "'w \<Rightarrow> 'b generation \<Rightarrow> Config \<Rightarrow> ('b, 'w) store" where
  "newStore w blank c =
     \<lparr>reg = [], hs = (\<lambda>_. newHandle ''''), hnext = 0, gs = (\<lambda>_. blank), gnext = 0,
      squota = newQuota (MaxClip c) (MaxTotal c) (MaxClips c), defaultTTL = DefaultTTL c,
      lastReclaim = 0, world = w\<rparr>"

text \<open>Field updates at an address, and the handle's \<open>wakeLocked\<close>.\<close>

definition upd_h :: "href \<Rightarrow> (clipHandle \<Rightarrow> clipHandle) \<Rightarrow> ('b, 'w) store \<Rightarrow> ('b, 'w) store" where
  "upd_h h f s = s\<lparr>hs := (hs s)(h := f (hs s h))\<rparr>"

definition upd_g :: "gref \<Rightarrow> ('b generation \<Rightarrow> 'b generation) \<Rightarrow> ('b, 'w) store \<Rightarrow> ('b, 'w) store" where
  "upd_g g f s = s\<lparr>gs := (gs s)(g := f (gs s g))\<rparr>"

definition wake_h :: "href \<Rightarrow> ('b, 'w) store \<Rightarrow> ('b, 'w) store" where
  "wake_h h = upd_h h (\<lambda>x. x\<lparr>h_notify := Suc (h_notify x)\<rparr>)"

definition chan_h :: "href \<Rightarrow> ('b, 'w) store \<Rightarrow> nat" where
  "chan_h h s = h_notify (hs s h)"

subsection \<open>Registry\<close>

definition acquire :: "string \<Rightarrow> ('b, 'w) store \<Rightarrow> ('b, 'w) store \<times> href" where
  "acquire name s =
     (let (s, h) =
        (case map_of (reg s) name of
           Some h \<Rightarrow> (s, h)
         | None \<Rightarrow> (s\<lparr>hs := (hs s)(hnext s := newHandle name), reg := (name, hnext s) # reg s,
                       hnext := Suc (hnext s)\<rparr>, hnext s))
      in (upd_h h (\<lambda>x. x\<lparr>h_leases := h_leases x + 1\<rparr>) s, h))"

definition snapshot :: "('b, 'w) store \<Rightarrow> href list" where
  "snapshot s = map snd (reg s)"

definition release :: "href \<Rightarrow> ('b, 'w) store \<Rightarrow> ('b, 'w) store" where
  "release h s =
     (let s = upd_h h (\<lambda>x. x\<lparr>h_leases := h_leases x - 1\<rparr>) s
      in if h_leases (hs s h) = 0 \<and>
            gate_peek (\<lambda>s. h_current (hs s h) = None \<and> h_live (hs s h) = None) s
         then s\<lparr>reg := filter (\<lambda>p. fst p \<noteq> h_name (hs s h)) (reg s)\<rparr>
         else s)"

subsection \<open>Reclamation\<close>

definition buf_size :: "gref \<Rightarrow> ('b, 'w) store \<Rightarrow> int64" where
  "buf_size g s = bsize (g_buf (gs s g))"

text \<open>\<open>reclaim\<close> is \<open>remove\<close>, then the two atomic releases of \<open>releaseGen\<close>.\<close>

definition med_remove :: "('b, 'h, 'w) medium \<Rightarrow> gref \<Rightarrow> ('b, 'w) store \<Rightarrow> ('b, 'w) store" where
  "med_remove M g s = s\<lparr>world := m_remove M (gs s g) (world s)\<rparr>"

definition give_bytes :: "gref \<Rightarrow> ('b, 'w) store \<Rightarrow> ('b, 'w) store" where
  "give_bytes g s = s\<lparr>squota := release_bytes (buf_size g s) (squota s)\<rparr>"

definition give_clip :: "('b, 'w) store \<Rightarrow> ('b, 'w) store" where
  "give_clip s = s\<lparr>squota := releaseClip (squota s)\<rparr>"

definition reclaim :: "('b, 'h, 'w) medium \<Rightarrow> gref \<Rightarrow> ('b, 'w) store \<Rightarrow> ('b, 'w) store" where
  "reclaim M g s = give_clip (give_bytes g (med_remove M g s))"

definition clear_section :: "href \<Rightarrow> gref \<Rightarrow> ('b, 'w) store \<Rightarrow> ('b, 'w) store" where
  "clear_section h g =
     transition (wake_h h) (\<lambda>s.
       if h_current (hs s h) = Some g
       then (upd_h h (\<lambda>x. x\<lparr>h_current := None\<rparr>) s, True) else (s, False))"

definition cleanupConsumed :: "('b, 'h, 'w) medium \<Rightarrow> href \<Rightarrow> gref \<Rightarrow> ('b, 'w) store \<Rightarrow> ('b, 'w) store" where
  "cleanupConsumed M h g s = clear_section h g (reclaim M g s)"

definition retire ::
  "('b, 'h, 'w) medium \<Rightarrow> href \<Rightarrow> gref \<Rightarrow> ('b, 'w) store \<Rightarrow> ('b, 'w) store \<times> gref option \<times> err option" where
  "retire M h g s =
     (case m_unpublish M (gs s g) (world s) of
        (w, committed, e) \<Rightarrow>
          (let s = s\<lparr>world := w\<rparr>
           in if \<not> committed then (s, None, e)
              else (upd_h h (\<lambda>x. x\<lparr>h_current := None\<rparr>) s, Some g, e)))"

subsection \<open>Create\<close>

definition resolveTTL :: "PutOpts \<Rightarrow> ('b, 'w) store \<Rightarrow> duration" where
  "resolveTTL po s = (if po_Keep po then 0 else if po_TTL po > 0 then po_TTL po else defaultTTL s)"

definition ifmatch_ok :: "href \<Rightarrow> PutOpts \<Rightarrow> time \<Rightarrow> ('b, 'w) store \<Rightarrow> bool" where
  "ifmatch_ok h po now s =
     (po_IfMatch po = '''' \<or>
      (case presentCurrent (gs s) (hs s h) now of
         None \<Rightarrow> False
       | Some inc \<Rightarrow> po_IfMatch po = ''*'' \<or> genID_String (g_id (gs s inc)) = po_IfMatch po))"

text \<open>The admission closure: the whole of \<open>createOnce\<close> between the lock and the unlock.\<close>

definition admit ::
  "('b, 'h, 'w) medium \<Rightarrow> href \<Rightarrow> string \<Rightarrow> Meta \<Rightarrow> PutOpts \<Rightarrow> time \<Rightarrow> err + byte list
   \<Rightarrow> ('b, 'w) store \<Rightarrow> ('b, 'w) store \<times> gref option \<times> bool \<times> err option" where
  "admit M h name m po now rnd s =
     (if \<not> ifmatch_ok h po now s then (s, None, False, Some (Leaf ErrPreconditionFailed))
      else if h_live (hs s h) \<noteq> None then (s, None, False, Some (Leaf ErrBusy))
      else case reserveClip (squota s) of
        (q, False) \<Rightarrow> (s, None, False, Some (Leaf ErrNoSpace))
      | (q, True) \<Rightarrow>
          (let s = s\<lparr>squota := q\<rparr>
           in case allocate (h_lastPrefix (hs s h)) now rnd of
                (p, Inl e) \<Rightarrow> (give_clip s, None, False, Some (Wrapf (''create '' @ name) [e]))
              | (p, Inr i) \<Rightarrow>
                  (let s = upd_h h (\<lambda>x. x\<lparr>h_lastPrefix := p\<rparr>) s
                   in case m_create M i (world s) of
                        (w, Inl e) \<Rightarrow>
                          (give_clip (s\<lparr>world := w\<rparr>), None, False, Some (Wrapf (''create '' @ name) [e]))
                      | (w, Inr b) \<Rightarrow>
                          (let g = gnext s;
                               s = s\<lparr>world := w,
                                     gs := (gs s)(g := \<lparr>g_id = i, g_name = name, g_meta = m,
                                       g_created = now, g_ttl = resolveTTL po s,
                                       g_finalized = zero_time, g_expires = zero_time,
                                       g_consume = po_ConsumeOnce po, g_state = genLive, g_buf = b\<rparr>),
                                     gnext := Suc g\<rparr>
                           in (upd_h h (\<lambda>x. x\<lparr>h_live := Some g\<rparr>) s, Some g, True, None)))))"

definition admit_section ::
  "('b, 'h, 'w) medium \<Rightarrow> href \<Rightarrow> string \<Rightarrow> Meta \<Rightarrow> PutOpts \<Rightarrow> time \<Rightarrow> err + byte list
   \<Rightarrow> ('b, 'w) store \<Rightarrow> ('b, 'w) store \<times> gref option \<times> err option" where
  "admit_section M h name m po now rnd = transitionResult (wake_h h) (admit M h name m po now rnd)"

record writer =
  wr_h :: href
  wr_g :: gref
  written :: int64
  wr_done :: bool
  framing :: Clip

definition new_writer :: "href \<Rightarrow> gref \<Rightarrow> writer" where
  "new_writer h g = \<lparr>wr_h = h, wr_g = g, written = 0, wr_done = False, framing = zero_clip\<rparr>"

definition createOnce ::
  "('b, 'h, 'w) medium \<Rightarrow> string \<Rightarrow> Meta \<Rightarrow> PutOpts \<Rightarrow> time \<Rightarrow> err + byte list
   \<Rightarrow> ('b, 'w) store \<Rightarrow> ('b, 'w) store \<times> (err + writer)" where
  "createOnce M name m po now rnd s =
     (case ValidName name of
        Some e \<Rightarrow> (s, Inl e)
      | None \<Rightarrow>
          (let m = Normalized m; (s, h) = acquire name s
           in case admit_section M h name m po now rnd s of
                (s, g, Some e) \<Rightarrow> (release h s, Inl e)
              | (s, g, None) \<Rightarrow> (s, Inr (new_writer h (the g)))))"

subsection \<open>The retention sweep\<close>

definition reapCandidates :: "time \<Rightarrow> ('b, 'w) store \<Rightarrow> (string \<times> genID) list" where
  "reapCandidates now s =
     concat (map (\<lambda>h. gate_peek (\<lambda>s. case expiredCurrent (gs s) (hs s h) now of
         None \<Rightarrow> [] | Some g \<Rightarrow> [(g_name (gs s g), g_id (gs s g))]) s) (snapshot s))"

definition reap_section ::
  "('b, 'h, 'w) medium \<Rightarrow> href \<Rightarrow> genID \<Rightarrow> time \<Rightarrow> ('b, 'w) store
   \<Rightarrow> ('b, 'w) store \<times> gref option \<times> err option" where
  "reap_section M h cid now =
     transitionResult (wake_h h) (\<lambda>s.
       case expiredCurrent (gs s) (hs s h) now of
         None \<Rightarrow> (s, None, False, None)
       | Some g \<Rightarrow>
           (if g_id (gs s g) \<noteq> cid then (s, None, False, None)
            else case retire M h g s of (s, r, _) \<Rightarrow> (s, r, r \<noteq> None, None)))"

definition reclaim_opt :: "('b, 'h, 'w) medium \<Rightarrow> gref option \<Rightarrow> ('b, 'w) store \<Rightarrow> ('b, 'w) store" where
  "reclaim_opt M r s = (case r of Some g \<Rightarrow> reclaim M g s | None \<Rightarrow> s)"

definition reapRemove ::
  "('b, 'h, 'w) medium \<Rightarrow> time \<Rightarrow> string \<times> genID \<Rightarrow> ('b, 'w) store \<Rightarrow> ('b, 'w) store \<times> bool" where
  "reapRemove M now c s =
     (let (s, h) = acquire (fst c) s
      in case reap_section M h (snd c) now s of
           (s, prev, _) \<Rightarrow> (release h (reclaim_opt M prev s), prev \<noteq> None))"

definition reapExpired ::
  "('b, 'h, 'w) medium \<Rightarrow> time \<Rightarrow> ('b, 'w) store \<Rightarrow> ('b, 'w) store \<times> nat" where
  "reapExpired M now s =
     foldl (\<lambda>(s, n) c. case reapRemove M now c s of (s, b) \<Rightarrow> (s, if b then Suc n else n))
       (s, 0) (reapCandidates now s)"

definition ReapOnce :: "('b, 'h, 'w) medium \<Rightarrow> time \<Rightarrow> ('b, 'w) store \<Rightarrow> ('b, 'w) store" where
  "ReapOnce M now s = fst (reapExpired M now s)"

text \<open>
  \<open>RunReaper\<close>: the ticker loop.  Each entry is one firing of the select: a tick with the clock the
  sweep reads, or the context's end; the loop has returned when it is \<open>None\<close>'s turn or the interval
  is not positive.
\<close>

fun RunReaper ::
  "('b, 'h, 'w) medium \<Rightarrow> duration \<Rightarrow> time option list \<Rightarrow> ('b, 'w) store \<Rightarrow> ('b, 'w) store \<times> bool" where
  "RunReaper M interval evs s =
     (if interval \<le> 0 then (s, True)
      else case evs of
        [] \<Rightarrow> (s, False)
      | None # _ \<Rightarrow> (s, True)
      | Some now # evs' \<Rightarrow> RunReaper M interval evs' (ReapOnce M now s))"

definition minReclaimInterval :: duration where
  "minReclaimInterval = second"

definition reclaim_throttled :: "time \<Rightarrow> int64 \<Rightarrow> bool" where
  "reclaim_throttled now prior \<longleftrightarrow> prior \<noteq> 0 \<and> sint (UnixNano now - prior) < minReclaimInterval"

text \<open>The compare-and-swap that claims the sweep window for the value \<open>prior\<close> it loaded.\<close>

definition reclaim_claim :: "time \<Rightarrow> int64 \<Rightarrow> ('b, 'w) store \<Rightarrow> ('b, 'w) store \<times> bool" where
  "reclaim_claim now prior s =
     (if lastReclaim s = prior then (s\<lparr>lastReclaim := UnixNano now\<rparr>, True) else (s, False))"

definition reclaimExpired ::
  "('b, 'h, 'w) medium \<Rightarrow> time \<Rightarrow> ('b, 'w) store \<Rightarrow> ('b, 'w) store \<times> bool" where
  "reclaimExpired M now s =
     (let prior = lastReclaim s
      in if reclaim_throttled now prior then (s, False)
         else case reclaim_claim now prior s of
           (s, False) \<Rightarrow> (s, False)
         | (s, True) \<Rightarrow> (case reapExpired M now s of (s, n) \<Rightarrow> (s, 0 < n)))"

text \<open>\<open>Create\<close>, with the clock and random outcome of each of its two possible attempts.\<close>

definition Create ::
  "('b, 'h, 'w) medium \<Rightarrow> string \<Rightarrow> Meta \<Rightarrow> PutOpts \<Rightarrow> time \<times> (err + byte list) \<Rightarrow> time
   \<Rightarrow> time \<times> (err + byte list) \<Rightarrow> ('b, 'w) store \<Rightarrow> ('b, 'w) store \<times> (err + writer)" where
  "Create M name m po first now again s =
     (case createOnce M name m po (fst first) (snd first) s of
        (s, Inr w) \<Rightarrow> (s, Inr w)
      | (s, Inl e) \<Rightarrow>
          (if is_err e ErrNoSpace then
             (case reclaimExpired M now s of
                (s, False) \<Rightarrow> (s, Inl e)
              | (s, True) \<Rightarrow> createOnce M name m po (fst again) (snd again) s)
           else (s, Inl e)))"

subsection \<open>The writer\<close>

definition append_chunk ::
  "('b, 'h, 'w) medium \<Rightarrow> gref \<Rightarrow> byte list \<Rightarrow> ('b, 'w) store \<Rightarrow> ('b, 'w) store \<times> nat \<times> err option" where
  "append_chunk M g p s =
     (case buf_Append (m_back M) p (g_buf (gs s g)) (world s) of
        (b, w, n, e) \<Rightarrow> (upd_g g (\<lambda>x. x\<lparr>g_buf := b\<rparr>) (s\<lparr>world := w\<rparr>), n, e))"

definition reserve_section :: "int64 \<Rightarrow> ('b, 'w) store \<Rightarrow> ('b, 'w) store \<times> bool" where
  "reserve_section n s = (case reserve n (squota s) of (q, ok) \<Rightarrow> (s\<lparr>squota := q\<rparr>, ok))"

definition return_tail :: "int64 \<Rightarrow> ('b, 'w) store \<Rightarrow> ('b, 'w) store" where
  "return_tail n s = s\<lparr>squota := release_bytes n (squota s)\<rparr>"

text \<open>The tail of \<open>Write\<close> once the whole chunk is reserved.\<close>

definition write_reserved ::
  "('b, 'h, 'w) medium \<Rightarrow> writer \<Rightarrow> byte list \<Rightarrow> ('b, 'w) store
   \<Rightarrow> ('b, 'w) store \<times> writer \<times> nat \<times> err option" where
  "write_reserved M wr p s =
     (let n = word_of_nat (length p) :: int64
      in case append_chunk M (wr_g wr) p s of
           (s, k, e) \<Rightarrow>
             (if sint (word_of_nat k :: int64) < sint n then return_tail (n - word_of_nat k) s else s,
              wr\<lparr>written := written wr + word_of_nat k\<rparr>, k, e))"

definition writer_Write ::
  "('b, 'h, 'w) medium \<Rightarrow> writer \<Rightarrow> byte list \<Rightarrow> time \<Rightarrow> ('b, 'w) store
   \<Rightarrow> ('b, 'w) store \<times> writer \<times> nat \<times> err option" where
  "writer_Write M wr p now s =
     (if wr_done wr then (s, wr, 0, Some (Leaf ErrClosed))
      else let n = word_of_nat (length p) :: int64
        in if \<not> perClipOK (written wr) n (squota s) then (s, wr, 0, Some (Leaf ErrTooLarge))
           else case reserve_section n s of
             (s, True) \<Rightarrow> write_reserved M wr p s
           | (s, False) \<Rightarrow>
               (let s = fst (reclaimExpired M now s)
                in case reserve_section n s of
                     (s, False) \<Rightarrow> (s, wr, 0, Some (Leaf ErrNoSpace))
                   | (s, True) \<Rightarrow> write_reserved M wr p s))"

definition finish :: "writer \<Rightarrow> ('b, 'w) store \<Rightarrow> ('b, 'w) store \<times> writer" where
  "finish wr s = (release (wr_h wr) s, wr\<lparr>wr_done := True\<rparr>)"

definition discard_section :: "writer \<Rightarrow> ('b, 'w) store \<Rightarrow> ('b, 'w) store \<times> Clip \<times> err option" where
  "discard_section wr =
     transitionResult (wake_h (wr_h wr)) (\<lambda>s.
       (upd_h (wr_h wr) (\<lambda>x. x\<lparr>h_live := None\<rparr>) s, gen_clip (gs s (wr_g wr)), True, None))"

definition buf_terminal ::
  "('b buffer \<Rightarrow> 'w \<Rightarrow> 'b buffer \<times> 'w \<times> err option) \<Rightarrow> gref \<Rightarrow> ('b, 'w) store
   \<Rightarrow> ('b, 'w) store \<times> err option" where
  "buf_terminal f g s =
     (case f (g_buf (gs s g)) (world s) of
        (b, w, e) \<Rightarrow> (upd_g g (\<lambda>x. x\<lparr>g_buf := b\<rparr>) (s\<lparr>world := w\<rparr>), e))"

definition discard ::
  "('b, 'h, 'w) medium \<Rightarrow> writer \<Rightarrow> ('b, 'w) store \<Rightarrow> ('b, 'w) store \<times> writer" where
  "discard M wr s =
     (case discard_section wr s of
        (s, c, _) \<Rightarrow>
          (let s = fst (buf_terminal (buf_Fail (m_back M)) (wr_g wr) s);
               s = reclaim M (wr_g wr) s
           in finish (wr\<lparr>framing := c\<rparr>) s))"

definition writer_Abort ::
  "('b, 'h, 'w) medium \<Rightarrow> writer \<Rightarrow> ('b, 'w) store \<Rightarrow> ('b, 'w) store \<times> writer \<times> err option" where
  "writer_Abort M wr s =
     (if wr_done wr then (s, wr, None) else case discard M wr s of (s, wr) \<Rightarrow> (s, wr, None))"

definition writer_fail ::
  "('b, 'h, 'w) medium \<Rightarrow> bool \<Rightarrow> err \<Rightarrow> writer \<Rightarrow> ('b, 'w) store
   \<Rightarrow> ('b, 'w) store \<times> writer \<times> err option" where
  "writer_fail M committed cause wr s =
     (let name = g_name (gs s (wr_g wr));
          s = (if committed then s\<lparr>world := m_abortPublish M (gs s (wr_g wr)) (world s)\<rparr> else s)
      in case discard M wr s of (s, wr) \<Rightarrow> (s, wr, Some (Wrapf (''finalize '' @ name) [cause])))"

definition stamp :: "time \<Rightarrow> gref \<Rightarrow> ('b, 'w) store \<Rightarrow> ('b, 'w) store" where
  "stamp now = (\<lambda>g. upd_g g (\<lambda>x.
     (let x = x\<lparr>g_finalized := now\<rparr>
      in if g_ttl x > 0 then x\<lparr>g_expires := g_finalized x + g_ttl x\<rparr> else x)))"

definition finalize_medium ::
  "('b, 'h, 'w) medium \<Rightarrow> gref \<Rightarrow> ('b, 'w) store \<Rightarrow> ('b, 'w) store \<times> bool \<times> err option" where
  "finalize_medium M g s =
     (case m_finalize M (gs s g) (world s) of (w, c, e) \<Rightarrow> (s\<lparr>world := w\<rparr>, c, e))"

definition flip_section ::
  "writer \<Rightarrow> ('b, 'w) store \<Rightarrow> ('b, 'w) store \<times> (gref option \<times> Clip) \<times> err option" where
  "flip_section wr =
     transitionResult (wake_h (wr_h wr)) (\<lambda>s.
       (let h = wr_h wr; g = wr_g wr;
            cur = h_current (hs s h);
            prevConsumed = (case cur of Some c \<Rightarrow> g_state (gs s c) = genConsumed | None \<Rightarrow> False);
            s = upd_g g (\<lambda>x. x\<lparr>g_state := genFinalized\<rparr>) s;
            s = upd_h h (\<lambda>x. x\<lparr>h_current := Some g, h_live := None\<rparr>) s;
            f = gen_clip (gs s g)
        in (s, (if cur \<noteq> None \<and> \<not> prevConsumed then cur else None, f), True, None)))"

definition writer_Close ::
  "('b, 'h, 'w) medium \<Rightarrow> writer \<Rightarrow> time \<Rightarrow> ('b, 'w) store \<Rightarrow> ('b, 'w) store \<times> writer \<times> err option" where
  "writer_Close M wr now s =
     (if wr_done wr then (s, wr, Some (Leaf ErrClosed))
      else let g = wr_g wr; s = stamp now g s
        in case buf_terminal (buf_Sync (m_back M)) g s of
             (s, Some e) \<Rightarrow> writer_fail M False e wr s
           | (s, None) \<Rightarrow>
               (case finalize_medium M g s of
                  (s, c, Some e) \<Rightarrow> writer_fail M c e wr s
                | (s, c, None) \<Rightarrow>
                    (case flip_section wr s of
                       (s, (prev, f), _) \<Rightarrow>
                         (let s = fst (buf_terminal (buf_Finish (m_back M)) g s);
                              s = reclaim_opt M prev s
                          in case finish (wr\<lparr>framing := f\<rparr>) s of (s, wr) \<Rightarrow> (s, wr, None)))))"

definition writer_Clip :: "writer \<Rightarrow> ('b, 'w) store \<Rightarrow> Clip" where
  "writer_Clip wr s =
     (if wr_done wr then framing wr else gate_peek (\<lambda>s. gen_clip (gs s (wr_g wr))) s)"

subsection \<open>Open\<close>

datatype 'h reader = RFollow "'h follower" | RSection "'h sectionReader"

record 'h openResult =
  or_rc :: "'h reader option"
  or_clip :: Clip
  or_cleanup :: "gref option"

definition no_result :: "'h openResult" where
  "no_result = \<lparr>or_rc = None, or_clip = zero_clip, or_cleanup = None\<rparr>"

text \<open>The reader half of \<open>commitRead\<close>: a live generation is followed, any other is a section.\<close>

definition open_reader ::
  "('b, 'h, 'w) medium \<Rightarrow> gref \<Rightarrow> ('b, 'w) store \<Rightarrow> ('b, 'w) store \<times> (err + 'h reader)" where
  "open_reader M g s =
     (if g_state (gs s g) = genLive then
        (case buf_Reader (m_back M) 0 (g_buf (gs s g)) (world s) of
           (b, w, r) \<Rightarrow> (upd_g g (\<lambda>x. x\<lparr>g_buf := b\<rparr>) (s\<lparr>world := w\<rparr>), map_sum id RFollow r))
      else
        (case buf_Section (m_back M) (g_buf (gs s g)) (world s) of
           (b, w, r) \<Rightarrow> (upd_g g (\<lambda>x. x\<lparr>g_buf := b\<rparr>) (s\<lparr>world := w\<rparr>), map_sum id RSection r)))"

definition commit_open ::
  "('b, 'h, 'w) medium \<Rightarrow> bool \<Rightarrow> gref \<Rightarrow> string \<Rightarrow> ('b, 'w) store
   \<Rightarrow> ('b, 'w) store \<times> 'h openResult \<times> bool \<times> err option" where
  "commit_open M consumed g name s =
     (let cleanup = (if consumed then Some g else None)
      in case open_reader M g s of
           (s, Inl e) \<Rightarrow>
             (s, no_result\<lparr>or_cleanup := cleanup\<rparr>, consumed, Some (Wrapf (''open '' @ name) [e]))
         | (s, Inr rc) \<Rightarrow>
             (s, \<lparr>or_rc = Some rc, or_clip = gen_clip (gs s g), or_cleanup = cleanup\<rparr>, consumed, None))"

definition commitRead ::
  "('b, 'h, 'w) medium \<Rightarrow> err option \<Rightarrow> gref \<Rightarrow> string \<Rightarrow> ('b, 'w) store
   \<Rightarrow> ('b, 'w) store \<times> 'h openResult \<times> bool \<times> err option" where
  "commitRead M ctx g name s =
     (if g_state (gs s g) = genFinalized \<and> g_consume (gs s g) then
        (case ctx of
           Some e \<Rightarrow> (s, no_result, False, Some e)
         | None \<Rightarrow>
             (let s = upd_g g (\<lambda>x. x\<lparr>g_state := genConsumed\<rparr>) s
              in case m_claim M (gs s g) (world s) of
                   (w, committed, Some e) \<Rightarrow>
                     (let s = s\<lparr>world := w\<rparr>; e' = Wrapf (''open '' @ name) [e]
                      in if committed then (s, no_result\<lparr>or_cleanup := Some g\<rparr>, False, Some e')
                         else (upd_g g (\<lambda>x. x\<lparr>g_state := genFinalized\<rparr>) s, no_result, False, Some e'))
                 | (w, committed, None) \<Rightarrow> commit_open M True g name (s\<lparr>world := w\<rparr>)))
      else commit_open M False g name s)"

text \<open>What an \<open>Open\<close> carries across its turns: its lease, its choices and the follow-next cursor.\<close>

record openState =
  os_h :: href
  os_name :: string
  os_wait :: bool
  os_follow :: bool
  os_captured :: bool
  os_baseline :: genID

definition open_resolve ::
  "time \<Rightarrow> ('b, 'w) store \<times> openState \<Rightarrow> (('b, 'w) store \<times> openState) \<times> (err + gref)" where
  "open_resolve now st =
     (let s = fst st; os = snd st; x = hs s (os_h os);
          os = (if os_follow os \<and> \<not> os_captured os
                then (case h_current x of Some c \<Rightarrow> os\<lparr>os_baseline := g_id (gs s c)\<rparr> | None \<Rightarrow> os)
                     \<lparr>os_captured := True\<rparr>
                else os)
      in ((s, os), if os_follow os then followResolve (gs s) x (os_baseline os) now
                   else resolveRead (gs s) x now))"

definition open_waitable :: "openState \<Rightarrow> err \<Rightarrow> bool" where
  "open_waitable os e \<longleftrightarrow> os_wait os \<and> is_err e ErrNotFound"

text \<open>One hold of the gate by \<open>Open\<close>: resolve, then commit or park.\<close>

definition open_turn ::
  "('b, 'h, 'w) medium \<Rightarrow> err option \<Rightarrow> time \<Rightarrow> openState \<Rightarrow> ('b, 'w) store
   \<Rightarrow> (('b, 'w) store \<times> openState) \<times> 'h openResult awaited" where
  "open_turn M ctx now os s =
     await_turn (\<lambda>st. (wake_h (os_h os) (fst st), snd st)) (\<lambda>st. chan_h (os_h os) (fst st))
       (open_resolve now) (open_waitable os)
       (\<lambda>g st. case commitRead M ctx g (os_name os) (fst st) of
                 (s, r, b, e) \<Rightarrow> ((s, snd st), r, b, e))
       no_result (s, os)"

definition open_begin ::
  "string \<Rightarrow> GetOpts \<Rightarrow> err option \<Rightarrow> ('b, 'w) store \<Rightarrow> ('b, 'w) store \<times> (err + openState)" where
  "open_begin name go ctx s =
     (case ValidName name of
        Some e \<Rightarrow> (s, Inl e)
      | None \<Rightarrow>
          (case ctx of
             Some e \<Rightarrow> (s, Inl e)
           | None \<Rightarrow>
               (case acquire name s of
                  (s, h) \<Rightarrow>
                    (s, Inr \<lparr>os_h = h, os_name = name, os_wait = (go_Wait go \<or> go_FollowNext go),
                         os_follow = go_FollowNext go, os_captured = False, os_baseline = zero_id\<rparr>))))"

text \<open>
  The end of an \<open>Open\<close>.  \<open>cause\<close> is \<open>context.Cause\<close> of the park's context: our own \<open>WaitMax\<close> bound
  turns into not-found, every other error surfaces as itself.
\<close>

record 'h leasedReader =
  lr_rc :: "'h reader"
  lr_g :: gref
  lr_cleanup :: "gref option"
  lr_h :: href
  lr_once :: bool

definition open_error :: "err \<Rightarrow> err option \<Rightarrow> err" where
  "open_error e cause =
     (if is_err e CtxDeadlineExceeded \<and> cause = Some (Leaf WaitElapsed) then Leaf ErrNotFound else e)"

definition open_finish ::
  "('b, 'h, 'w) medium \<Rightarrow> openState \<Rightarrow> err option \<Rightarrow> gref \<Rightarrow> 'h openResult \<Rightarrow> err option
   \<Rightarrow> ('b, 'w) store \<Rightarrow> ('b, 'w) store \<times> (err + 'h leasedReader \<times> Clip)" where
  "open_finish M os cause g res e s =
     (case e of
        Some e \<Rightarrow>
          (let s = (case or_cleanup res of Some g \<Rightarrow> cleanupConsumed M (os_h os) g s | None \<Rightarrow> s)
           in (release (os_h os) s, Inl (open_error e cause)))
      | None \<Rightarrow>
          (s, Inr (\<lparr>lr_rc = the (or_rc res), lr_g = g, lr_cleanup = or_cleanup res,
               lr_h = os_h os, lr_once = False\<rparr>, or_clip res)))"

text \<open>The generation a turn resolved, which the reader's buffer belongs to.\<close>

definition resolved :: "time \<Rightarrow> ('b, 'w) store \<Rightarrow> openState \<Rightarrow> gref" where
  "resolved now s os = (case snd (open_resolve now (s, os)) of Inr g \<Rightarrow> g | Inl _ \<Rightarrow> 0)"

datatype 'h opened = Opened "'h leasedReader" Clip | Refused_open err | Waiting_open openState nat

definition open_continue ::
  "('b, 'h, 'w) medium \<Rightarrow> err option \<Rightarrow> err option \<Rightarrow> time \<Rightarrow> openState \<Rightarrow> ('b, 'w) store
   \<Rightarrow> ('b, 'w) store \<times> 'h opened" where
  "open_continue M ctx cause now os s =
     (case open_turn M ctx now os s of
        ((s', os'), Park c) \<Rightarrow> (s', Waiting_open os' c)
      | ((s', os'), Done res e) \<Rightarrow>
          (case open_finish M os' cause (resolved now s os) res e s' of
             (s', Inl e) \<Rightarrow> (s', Refused_open e)
           | (s', Inr (l, c)) \<Rightarrow> (s', Opened l c)))"

definition store_Open ::
  "('b, 'h, 'w) medium \<Rightarrow> string \<Rightarrow> GetOpts \<Rightarrow> err option \<Rightarrow> time \<Rightarrow> ('b, 'w) store
   \<Rightarrow> ('b, 'w) store \<times> 'h opened" where
  "store_Open M name go ctx now s =
     (case open_begin name go ctx s of
        (s, Inl e) \<Rightarrow> (s, Refused_open e)
      | (s, Inr os) \<Rightarrow> open_continue M ctx None now os s)"

text \<open>
  After a park: \<open>wctx\<close> is \<open>waitCtx.Err\<close>, which is looked at first; otherwise the loop turns again.
\<close>

definition open_resume ::
  "('b, 'h, 'w) medium \<Rightarrow> err option \<Rightarrow> err option \<Rightarrow> err option \<Rightarrow> time \<Rightarrow> openState
   \<Rightarrow> ('b, 'w) store \<Rightarrow> ('b, 'w) store \<times> 'h opened" where
  "open_resume M ctx wctx cause now os s =
     (case wctx of
        Some e \<Rightarrow>
          (case open_finish M os cause 0 no_result (Some e) s of
             (s, Inl e) \<Rightarrow> (s, Refused_open e)
           | (s, Inr (l, c)) \<Rightarrow> (s, Opened l c))
      | None \<Rightarrow> open_continue M ctx cause now os s)"

subsection \<open>The leased reader\<close>

text \<open>One turn of a \<open>Read\<close>; a follower with an empty buffer reports nothing.\<close>

definition leased_Read ::
  "('b, 'h, 'w) medium \<Rightarrow> err option \<Rightarrow> nat \<Rightarrow> 'h leasedReader \<Rightarrow> ('b, 'w) store
   \<Rightarrow> ('b, 'w) store \<times> 'h leasedReader \<times> outcome" where
  "leased_Read M ctx len l s =
     (let b = g_buf (gs s (lr_g l))
      in case lr_rc l of
           RFollow r \<Rightarrow>
             (if len = 0 then (s, l, Returned [] None)
              else case follower_turn (m_back M) len ctx b r (world s) of
                (r, w, out) \<Rightarrow> (s\<lparr>world := w\<rparr>, l\<lparr>lr_rc := RFollow r\<rparr>, out))
         | RSection r \<Rightarrow>
             (case section_Read (m_back M) b len r (world s) of
                (r, w, bs, e) \<Rightarrow> (s\<lparr>world := w\<rparr>, l\<lparr>lr_rc := RSection r\<rparr>, Returned bs e)))"

definition close_rc ::
  "('b, 'h, 'w) medium \<Rightarrow> 'h leasedReader \<Rightarrow> ('b, 'w) store
   \<Rightarrow> ('b, 'w) store \<times> 'h leasedReader \<times> err option" where
  "close_rc M l s =
     (let g = lr_g l; b = g_buf (gs s g)
      in case lr_rc l of
           RFollow r \<Rightarrow>
             (case follower_Close (m_back M) r b (world s) of
                (r, b, w, e) \<Rightarrow>
                  (upd_g g (\<lambda>x. x\<lparr>g_buf := b\<rparr>) (s\<lparr>world := w\<rparr>), l\<lparr>lr_rc := RFollow r\<rparr>, e))
         | RSection r \<Rightarrow>
             (case section_Close (m_back M) r b (world s) of
                (r, b, w, e) \<Rightarrow>
                  (upd_g g (\<lambda>x. x\<lparr>g_buf := b\<rparr>) (s\<lparr>world := w\<rparr>), l\<lparr>lr_rc := RSection r\<rparr>, e)))"

definition leased_Close ::
  "('b, 'h, 'w) medium \<Rightarrow> 'h leasedReader \<Rightarrow> ('b, 'w) store
   \<Rightarrow> ('b, 'w) store \<times> 'h leasedReader \<times> err option" where
  "leased_Close M l s =
     (if lr_once l then (s, l, None)
      else case close_rc M l s of
        (s, l, e) \<Rightarrow>
          (let s = (case lr_cleanup l of Some g \<Rightarrow> cleanupConsumed M (lr_h l) g s | None \<Rightarrow> s)
           in (release (lr_h l) s, l\<lparr>lr_once := True\<rparr>, e)))"

subsection \<open>Stat, Delete, List\<close>

definition store_Stat :: "string \<Rightarrow> time \<Rightarrow> ('b, 'w) store \<Rightarrow> ('b, 'w) store \<times> (err + Clip)" where
  "store_Stat name now s =
     (case ValidName name of
        Some e \<Rightarrow> (s, Inl e)
      | None \<Rightarrow>
          (case acquire name s of
             (s, h) \<Rightarrow>
               (let r = gate_peek (\<lambda>s. map_sum id (\<lambda>g. gen_clip (gs s g)) (resolveRead (gs s) (hs s h) now)) s
                in (release h s, r))))"

definition delete_section ::
  "('b, 'h, 'w) medium \<Rightarrow> href \<Rightarrow> time \<Rightarrow> ('b, 'w) store
   \<Rightarrow> ('b, 'w) store \<times> gref option \<times> err option" where
  "delete_section M h now =
     transitionResult (wake_h h) (\<lambda>s.
       case presentCurrent (gs s) (hs s h) now of
         None \<Rightarrow> (s, None, False, Some (Leaf ErrNotFound))
       | Some cur \<Rightarrow> (case retire M h cur s of (s, r, fault) \<Rightarrow> (s, r, r \<noteq> None, fault)))"

definition delete_error :: "string \<Rightarrow> err option \<Rightarrow> err option" where
  "delete_error name e =
     (case e of
        None \<Rightarrow> None
      | Some e \<Rightarrow> Some (if is_err e ErrNotFound then e else Wrapf (''delete '' @ name) [e]))"

definition store_Delete ::
  "('b, 'h, 'w) medium \<Rightarrow> string \<Rightarrow> time \<Rightarrow> ('b, 'w) store \<Rightarrow> ('b, 'w) store \<times> err option" where
  "store_Delete M name now s =
     (case ValidName name of
        Some e \<Rightarrow> (s, Some e)
      | None \<Rightarrow>
          (case acquire name s of
             (s, h) \<Rightarrow>
               (case delete_section M h now s of
                  (s, prev, e) \<Rightarrow> (release h (reclaim_opt M prev s), delete_error name e))))"

definition store_List :: "time \<Rightarrow> ('b, 'w) store \<Rightarrow> Clip list" where
  "store_List now s =
     concat (map (\<lambda>h. gate_peek (\<lambda>s. case presentCurrent (gs s) (hs s h) now of
         None \<Rightarrow> [] | Some g \<Rightarrow> [gen_clip (gs s g)]) s) (snapshot s))"

end
