(* ===== verification/Sched.thy ===== *)
theory Sched imports Store "HOL-Library.Multiset" begin

text \<open>
  The store under concurrency.  A configuration is the store and the multiset of operations in
  flight; a task is what is left to do of one operation, and a step runs one atomic section of one
  task: a hold of the registry's mutex, a hold of a handle's gate, one atomic access of the quota,
  one call of the medium or of the byte log.  Operations interleave freely between their sections,
  in the order \<open>store.go\<close>, \<open>writer.go\<close> and \<open>reaper.go\<close> have them.  Every task holds one lease,
  on the handle \<open>t_handle\<close>.

  The retries after a pressure sweep need no task of their own: a second attempt of \<open>Create\<close> is
  another \<open>start_create\<close>, a second reservation of \<open>Write\<close> another \<open>write_reserve\<close>, and each
  candidate of a sweep is a \<open>start_reap\<close> with whatever instant and id the sweep observed.
\<close>

datatype 'h task =
    TAdmit href string Meta PutOpts
  | TRelease href
  | TWriter writer
  | TReserved writer "byte list"
  | TTail writer int64
  | TSync writer
  | TFinalize writer
  | TFlip writer
  | TFinish writer "gref option"
  | TAbortPub writer
  | TDiscard writer
  | TFail writer
  | TRemove href gref bool
  | TBytes href gref bool
  | TClip href gref bool
  | TClear href gref
  | TOpen openState
  | TParked openState nat
  | TReader "'h leasedReader"
  | TDelete href
  | TReap href genID time

text \<open>What is left once a section has handed back a generation to reclaim, or none.\<close>

definition reclaim_then :: "href \<Rightarrow> gref option \<Rightarrow> bool \<Rightarrow> 'h task" where
  "reclaim_then h r clear = (case r of Some g \<Rightarrow> TRemove h g clear | None \<Rightarrow> TRelease h)"

datatype event = Tau | Delivered gref | Installed gref | Published href gref

type_synonym ('b, 'h, 'w) config = "('b, 'w) store \<times> 'h task multiset"

text \<open>
  A chunk's length is the length of a Go slice, far below \<open>2 ^ 62\<close>; the environment's clocks,
  random bytes and context states are otherwise arbitrary.
\<close>

inductive sched ::
  "('b, 'h, 'w) medium \<Rightarrow> ('b, 'h, 'w) config \<Rightarrow> event \<Rightarrow> ('b, 'h, 'w) config \<Rightarrow> bool"
  for M :: "('b, 'h, 'w) medium" where
  start_create:
    "ValidName name = None \<Longrightarrow> acquire name s = (s', h) \<Longrightarrow>
     sched M (s, T) Tau (s', add_mset (TAdmit h name (Normalized m) po) T)"
| start_open:
    "open_begin name go ctx s = (s', Inr os) \<Longrightarrow> sched M (s, T) Tau (s', add_mset (TOpen os) T)"
| start_delete:
    "ValidName name = None \<Longrightarrow> acquire name s = (s', h) \<Longrightarrow>
     sched M (s, T) Tau (s', add_mset (TDelete h) T)"
| start_stat:
    "ValidName name = None \<Longrightarrow> acquire name s = (s', h) \<Longrightarrow>
     sched M (s, T) Tau (s', add_mset (TRelease h) T)"
| start_reap:
    "acquire name s = (s', h) \<Longrightarrow> sched M (s, T) Tau (s', add_mset (TReap h cid now) T)"
| sweep_window:
    "reclaim_claim now prior s = (s', b) \<Longrightarrow> sched M (s, T) Tau (s', T)"
| admit_ok:
    "admit_section M h name m po now rnd s = (s', r, None) \<Longrightarrow>
     sched M (s, add_mset (TAdmit h name m po) T) (Installed (the r))
       (s', add_mset (TWriter (new_writer h (the r))) T)"
| admit_no:
    "admit_section M h name m po now rnd s = (s', r, Some e) \<Longrightarrow>
     sched M (s, add_mset (TAdmit h name m po) T) Tau (s', add_mset (TRelease h) T)"
| write_reserve:
    "perClipOK (written wr) (word_of_nat (length p)) (squota s) \<Longrightarrow> length p < 2 ^ 62 \<Longrightarrow>
     reserve_section (word_of_nat (length p)) s = (s', True) \<Longrightarrow>
     sched M (s, add_mset (TWriter wr) T) Tau (s', add_mset (TReserved wr p) T)"
| write_append_full:
    "append_chunk M (wr_g wr) p s = (s', k, e) \<Longrightarrow> length p < 2 ^ 62 \<Longrightarrow>
     \<not> sint (word_of_nat k :: int64) < sint (word_of_nat (length p) :: int64) \<Longrightarrow>
     sched M (s, add_mset (TReserved wr p) T) Tau
       (s', add_mset (TWriter (wr\<lparr>written := written wr + word_of_nat k\<rparr>)) T)"
| write_append_short:
    "append_chunk M (wr_g wr) p s = (s', k, e) \<Longrightarrow> length p < 2 ^ 62 \<Longrightarrow>
     sint (word_of_nat k :: int64) < sint (word_of_nat (length p) :: int64) \<Longrightarrow>
     sched M (s, add_mset (TReserved wr p) T) Tau
       (s', add_mset (TTail (wr\<lparr>written := written wr + word_of_nat k\<rparr>) (word_of_nat (length p) - word_of_nat k)) T)"
| write_tail:
    "sched M (s, add_mset (TTail wr n) T) Tau (return_tail n s, add_mset (TWriter wr) T)"
| close_stamp:
    "sched M (s, add_mset (TWriter wr) T) Tau (stamp now (wr_g wr) s, add_mset (TSync wr) T)"
| close_sync_ok:
    "buf_terminal (buf_Sync (m_back M)) (wr_g wr) s = (s', None) \<Longrightarrow>
     sched M (s, add_mset (TSync wr) T) Tau (s', add_mset (TFinalize wr) T)"
| close_sync_fail:
    "buf_terminal (buf_Sync (m_back M)) (wr_g wr) s = (s', Some e) \<Longrightarrow>
     sched M (s, add_mset (TSync wr) T) Tau (s', add_mset (TDiscard wr) T)"
| close_finalize_ok:
    "finalize_medium M (wr_g wr) s = (s', c, None) \<Longrightarrow>
     sched M (s, add_mset (TFinalize wr) T) Tau (s', add_mset (TFlip wr) T)"
| close_finalize_fail:
    "finalize_medium M (wr_g wr) s = (s', c, Some e) \<Longrightarrow>
     sched M (s, add_mset (TFinalize wr) T) Tau
       (s', add_mset (if c then TAbortPub wr else TDiscard wr) T)"
| close_flip:
    "flip_section wr s = (s', (prev, f), e) \<Longrightarrow>
     sched M (s, add_mset (TFlip wr) T) (Published (wr_h wr) (wr_g wr))
       (s', add_mset (TFinish (wr\<lparr>framing := f\<rparr>) prev) T)"
| close_finish:
    "buf_terminal (buf_Finish (m_back M)) (wr_g wr) s = (s', e) \<Longrightarrow>
     sched M (s, add_mset (TFinish wr prev) T) Tau (s', add_mset (reclaim_then (wr_h wr) prev False) T)"
| abort_start:
    "sched M (s, add_mset (TWriter wr) T) Tau (s, add_mset (TDiscard wr) T)"
| abort_publish:
    "sched M (s, add_mset (TAbortPub wr) T) Tau
       (s\<lparr>world := m_abortPublish M (gs s (wr_g wr)) (world s)\<rparr>, add_mset (TDiscard wr) T)"
| discard_detach:
    "discard_section wr s = (s', f, e) \<Longrightarrow>
     sched M (s, add_mset (TDiscard wr) T) Tau (s', add_mset (TFail (wr\<lparr>framing := f\<rparr>)) T)"
| discard_fail:
    "buf_terminal (buf_Fail (m_back M)) (wr_g wr) s = (s', e) \<Longrightarrow>
     sched M (s, add_mset (TFail wr) T) Tau (s', add_mset (TRemove (wr_h wr) (wr_g wr) False) T)"
| reclaim_remove:
    "sched M (s, add_mset (TRemove h g c) T) Tau (med_remove M g s, add_mset (TBytes h g c) T)"
| reclaim_bytes:
    "sched M (s, add_mset (TBytes h g c) T) Tau (give_bytes g s, add_mset (TClip h g c) T)"
| reclaim_clip:
    "sched M (s, add_mset (TClip h g c) T) Tau
       (give_clip s, add_mset (if c then TClear h g else TRelease h) T)"
| cleanup_clear:
    "sched M (s, add_mset (TClear h g) T) Tau (clear_section h g s, add_mset (TRelease h) T)"
| lease_release:
    "sched M (s, add_mset (TRelease h) T) Tau (release h s, T)"
| open_park:
    "open_turn M ctx now os s = ((s', os'), Park c) \<Longrightarrow>
     sched M (s, add_mset (TOpen os) T) Tau (s', add_mset (TParked os' c) T)"
| open_fail:
    "open_turn M ctx now os s = ((s', os'), Done res (Some e)) \<Longrightarrow>
     sched M (s, add_mset (TOpen os) T) Tau (s', add_mset (reclaim_then (os_h os') (or_cleanup res) True) T)"
| open_done:
    "open_turn M ctx now os s = ((s', os'), Done res None) \<Longrightarrow> g = resolved now s os \<Longrightarrow>
     sched M (s, add_mset (TOpen os) T) (Delivered g)
       (s', add_mset (TReader \<lparr>lr_rc = the (or_rc res), lr_g = g, lr_cleanup = or_cleanup res,
              lr_h = os_h os', lr_once = False\<rparr>) T)"
| park_wake:
    "chan_h (os_h os) s \<noteq> c \<Longrightarrow> sched M (s, add_mset (TParked os c) T) Tau (s, add_mset (TOpen os) T)"
| park_cancel:
    "sched M (s, add_mset (TParked os c) T) Tau (s, add_mset (TRelease (os_h os)) T)"
| reader_read:
    "leased_Read M ctx len l s = (s', l', out) \<Longrightarrow>
     sched M (s, add_mset (TReader l) T) Tau (s', add_mset (TReader l') T)"
| reader_close:
    "close_rc M l s = (s', l', e) \<Longrightarrow>
     sched M (s, add_mset (TReader l) T) Tau (s', add_mset (reclaim_then (lr_h l) (lr_cleanup l) True) T)"
| delete_retire:
    "delete_section M h now s = (s', prev, e) \<Longrightarrow>
     sched M (s, add_mset (TDelete h) T) Tau (s', add_mset (reclaim_then h prev False) T)"
| reap_retire:
    "reap_section M h cid now s = (s', prev, e) \<Longrightarrow>
     sched M (s, add_mset (TReap h cid now) T) Tau (s', add_mset (reclaim_then h prev False) T)"

text \<open>Runs, with the events they emit in order.\<close>

inductive run ::
  "('b, 'h, 'w) medium \<Rightarrow> ('b, 'h, 'w) config \<Rightarrow> event list \<Rightarrow> ('b, 'h, 'w) config \<Rightarrow> bool"
  for M :: "('b, 'h, 'w) medium" and c0 :: "('b, 'h, 'w) config" where
  run_start: "run M c0 [] c0"
| run_step: "run M c0 evs c \<Longrightarrow> sched M c e c' \<Longrightarrow> run M c0 (evs @ [e]) c'"

end
