(* ===== verification/StoreView.thy ===== *)
theory StoreView imports Sched begin

text \<open>
  The abstract account of a store: what its invariants are about, with the effect of every atomic
  section on it.  The view forgets notifiers, id seeds, byte contents, stamps and the outside
  world; it keeps the registry, the leases, the generation pointers, the generations' states and
  sizes, and the two counters.
\<close>

record view =
  v_reg :: "string \<Rightarrow> href option"
  v_hnext :: nat
  v_name :: "href \<Rightarrow> string"
  v_lease :: "href \<Rightarrow> int"
  v_cur :: "href \<Rightarrow> gref option"
  v_live :: "href \<Rightarrow> gref option"
  v_gnext :: nat
  v_gname :: "gref \<Rightarrow> string"
  v_cons :: "gref \<Rightarrow> bool"
  v_st :: "gref \<Rightarrow> genState"
  v_size :: "gref \<Rightarrow> int64"
  v_bytes :: int64
  v_clips :: int64

definition view :: "('b, 'w) store \<Rightarrow> view" where
  "view s = \<lparr>v_reg = map_of (reg s), v_hnext = hnext s, v_name = (\<lambda>h. h_name (hs s h)),
     v_lease = (\<lambda>h. h_leases (hs s h)), v_cur = (\<lambda>h. h_current (hs s h)),
     v_live = (\<lambda>h. h_live (hs s h)), v_gnext = gnext s, v_gname = (\<lambda>g. g_name (gs s g)),
     v_cons = (\<lambda>g. g_consume (gs s g)), v_st = (\<lambda>g. g_state (gs s g)),
     v_size = (\<lambda>g. bsize (g_buf (gs s g))), v_bytes = bytes (squota s), v_clips = clips (squota s)\<rparr>"

lemmas upd_defs = upd_h_def upd_g_def wake_h_def

lemma view_upd_h_frame:
  assumes "\<And>x. h_name (f x) = h_name x" "\<And>x. h_leases (f x) = h_leases x"
    "\<And>x. h_current (f x) = h_current x" "\<And>x. h_live (f x) = h_live x"
  shows "view (upd_h h f s) = view s"
  using assms by (auto simp: view_def upd_h_def fun_eq_iff)

lemma view_wake [simp]: "view (wake_h h s) = view s"
  unfolding wake_h_def by (rule view_upd_h_frame) simp_all

lemma view_world [simp]: "view (s\<lparr>world := w\<rparr>) = view s"
  by (simp add: view_def)

lemma view_lastReclaim [simp]: "view (s\<lparr>lastReclaim := n\<rparr>) = view s"
  by (simp add: view_def)

lemma view_upd_g_frame:
  assumes "\<And>x. g_name (f x) = g_name x" "\<And>x. g_consume (f x) = g_consume x"
    "\<And>x. g_state (f x) = g_state x" "\<And>x. bsize (g_buf (f x)) = bsize (g_buf x)"
  shows "view (upd_g g f s) = view s"
  using assms by (auto simp: view_def upd_g_def fun_eq_iff)

lemma view_sel [simp]:
  "v_reg (view s) = map_of (reg s)" "v_hnext (view s) = hnext s" "v_name (view s) h = h_name (hs s h)"
  "v_lease (view s) h = h_leases (hs s h)" "v_cur (view s) h = h_current (hs s h)"
  "v_live (view s) h = h_live (hs s h)" "v_gnext (view s) = gnext s"
  "v_gname (view s) g = g_name (gs s g)" "v_cons (view s) g = g_consume (gs s g)"
  "v_st (view s) g = g_state (gs s g)" "v_size (view s) g = bsize (g_buf (gs s g))"
  "v_bytes (view s) = bytes (squota s)" "v_clips (view s) = clips (squota s)"
  by (simp_all add: view_def)

subsection \<open>The registry\<close>

definition va_handle :: "string \<Rightarrow> view \<Rightarrow> href" where
  "va_handle name v = (case v_reg v name of Some h \<Rightarrow> h | None \<Rightarrow> v_hnext v)"

definition va_acquire :: "string \<Rightarrow> view \<Rightarrow> view" where
  "va_acquire name v =
     (case v_reg v name of
        Some h \<Rightarrow> v\<lparr>v_lease := (v_lease v)(h := v_lease v h + 1)\<rparr>
      | None \<Rightarrow> (let h = v_hnext v in
          v\<lparr>v_reg := (v_reg v)(name \<mapsto> h), v_hnext := Suc h, v_name := (v_name v)(h := name),
            v_lease := (v_lease v)(h := 1), v_cur := (v_cur v)(h := None),
            v_live := (v_live v)(h := None)\<rparr>))"

definition va_release :: "href \<Rightarrow> view \<Rightarrow> view" where
  "va_release h v =
     (let v' = v\<lparr>v_lease := (v_lease v)(h := v_lease v h - 1)\<rparr>
      in if v_lease v h = 1 \<and> v_cur v h = None \<and> v_live v h = None
         then v'\<lparr>v_reg := (v_reg v)(v_name v h := None)\<rparr> else v')"

lemma view_acquire:
  assumes "acquire name s = (s', h)"
  shows "view s' = va_acquire name (view s)" and "h = va_handle name (view s)"
  using assms
  by (auto simp: acquire_def va_acquire_def va_handle_def Let_def upd_h_def newHandle_def view_def
      fun_eq_iff split: option.splits)

lemma map_of_filter_name: "map_of (filter (\<lambda>p. fst p \<noteq> n) xs) = (map_of xs)(n := None)"
  by (induction xs) (auto simp: fun_eq_iff)

lemma view_release: "view (release h s) = va_release h (view s)"
  by (auto simp: release_def va_release_def Let_def upd_h_def gate_peek_def view_def
      map_of_filter_name fun_eq_iff)

subsection \<open>The other sections\<close>

lemma view_give_bytes:
  "view (give_bytes g s) = (view s)\<lparr>v_bytes := v_bytes (view s) - v_size (view s) g\<rparr>"
  by (simp add: give_bytes_def view_def buf_size_def)

lemma view_give_clip: "view (give_clip s) = (view s)\<lparr>v_clips := v_clips (view s) - 1\<rparr>"
  by (simp add: give_clip_def view_def)

lemma view_med_remove [simp]: "view (med_remove M g s) = view s"
  by (simp add: med_remove_def)

lemma view_return_tail: "view (return_tail n s) = (view s)\<lparr>v_bytes := v_bytes (view s) - n\<rparr>"
  by (simp add: return_tail_def view_def)

lemma view_reserve:
  "reserve_section n s = (s', True) \<Longrightarrow> view s' = (view s)\<lparr>v_bytes := v_bytes (view s) + n\<rparr>"
  by (auto simp: reserve_section_def view_def dest!: reserve_bytes split: prod.splits)

lemma view_reclaim_claim: "reclaim_claim now prior s = (s', b) \<Longrightarrow> view s' = view s"
  by (auto simp: reclaim_claim_def split: if_splits)

lemma view_stamp: "view (stamp now g s) = view s"
  unfolding stamp_def by (rule view_upd_g_frame) (simp_all add: Let_def)

lemma view_upd_buf:
  assumes "bsize b = bsize (g_buf (gs s g))"
  shows "view (upd_g g (\<lambda>x. x\<lparr>g_buf := b\<rparr>) (s\<lparr>world := w\<rparr>)) = view s"
  using assms by (auto simp: view_def upd_g_def fun_eq_iff)

lemma view_buf_terminal:
  assumes "buf_terminal f g s = (s', e)" and "\<And>b w b' w' e. f b w = (b', w', e) \<Longrightarrow> bsize b' = bsize b"
  shows "view s' = view s"
proof -
  obtain b w e' where f: "f (g_buf (gs s g)) (world s) = (b, w, e')"
    by (cases "f (g_buf (gs s g)) (world s)") auto
  then have "s' = upd_g g (\<lambda>x. x\<lparr>g_buf := b\<rparr>) (s\<lparr>world := w\<rparr>)"
    using assms(1) by (simp add: buf_terminal_def)
  then show ?thesis using view_upd_buf [of b s g w] assms(2) [OF f] by simp
qed

lemma bsize_terminals:
  "buf_Sync B b w = (b', w', e) \<Longrightarrow> bsize b' = bsize b"
  "buf_Finish B b w = (b', w', e) \<Longrightarrow> bsize b' = bsize b"
  "buf_Fail B b w = (b', w', e) \<Longrightarrow> bsize b' = bsize b"
  by (auto simp: buf_Sync_def buf_Finish_def buf_Fail_def wakeLocked_def Let_def
      split: prod.splits if_splits)

lemma bsize_readers:
  "buf_Reader B off b w = (b', w', r) \<Longrightarrow> bsize b' = bsize b"
  "buf_Section B b w = (b', w', r') \<Longrightarrow> bsize b' = bsize b"
  "follower_Close B fl b w = (fl', b', w', e) \<Longrightarrow> bsize b' = bsize b"
  "section_Close B sr b w = (sr', b', w', e) \<Longrightarrow> bsize b' = bsize b"
  by (auto simp: buf_Reader_def buf_Section_def follower_Close_def section_Close_def Let_def
      split: prod.splits if_splits sum.splits)

lemma view_finalize_medium: "finalize_medium M g s = (s', c, e) \<Longrightarrow> view s' = view s"
  by (auto simp: finalize_medium_def split: prod.splits)

lemma view_open_reader: "open_reader M g s = (s', r) \<Longrightarrow> view s' = view s"
  by (auto simp: open_reader_def view_upd_buf bsize_readers split: prod.splits if_splits)

lemma view_leased_Read: "leased_Read M ctx len l s = (s', l', out) \<Longrightarrow> view s' = view s"
  by (auto simp: leased_Read_def Let_def split: prod.splits if_splits reader.splits)

lemma view_close_rc: "close_rc M l s = (s', l', e) \<Longrightarrow> view s' = view s"
  by (auto simp: close_rc_def Let_def view_upd_buf bsize_readers split: prod.splits reader.splits)

definition va_install :: "href \<Rightarrow> string \<Rightarrow> bool \<Rightarrow> view \<Rightarrow> view" where
  "va_install h name cons v =
     (let g = v_gnext v
      in v\<lparr>v_gnext := Suc g, v_gname := (v_gname v)(g := name), v_cons := (v_cons v)(g := cons),
           v_st := (v_st v)(g := genLive), v_size := (v_size v)(g := 0),
           v_live := (v_live v)(h := Some g), v_clips := v_clips v + 1\<rparr>)"

definition va_flip :: "href \<Rightarrow> gref \<Rightarrow> view \<Rightarrow> view" where
  "va_flip h g v = v\<lparr>v_st := (v_st v)(g := genFinalized), v_cur := (v_cur v)(h := Some g),
     v_live := (v_live v)(h := None)\<rparr>"

definition va_prev :: "href \<Rightarrow> view \<Rightarrow> gref option" where
  "va_prev h v = (case v_cur v h of Some c \<Rightarrow> (if v_st v c = genConsumed then None else Some c) | None \<Rightarrow> None)"

definition va_detach :: "href \<Rightarrow> view \<Rightarrow> view" where
  "va_detach h v = v\<lparr>v_live := (v_live v)(h := None)\<rparr>"

definition va_clear :: "href \<Rightarrow> gref \<Rightarrow> view \<Rightarrow> view" where
  "va_clear h g v = (if v_cur v h = Some g then v\<lparr>v_cur := (v_cur v)(h := None)\<rparr> else v)"

definition va_claim :: "gref \<Rightarrow> view \<Rightarrow> view" where
  "va_claim g v = v\<lparr>v_st := (v_st v)(g := genConsumed)\<rparr>"

definition va_grow :: "gref \<Rightarrow> int64 \<Rightarrow> view \<Rightarrow> view" where
  "va_grow g n v = v\<lparr>v_size := (v_size v)(g := v_size v g + n)\<rparr>"

lemma view_flip:
  assumes "flip_section wr s = (s', (prev, f), e)"
  shows "view s' = va_flip (wr_h wr) (wr_g wr) (view s)" and "prev = va_prev (wr_h wr) (view s)"
  using assms
  by (auto simp: flip_section_def transitionResult_def Let_def va_flip_def va_prev_def upd_defs
      view_def fun_eq_iff split: option.splits if_splits)

lemma view_discard: "discard_section wr s = (s', f, e) \<Longrightarrow> view s' = va_detach (wr_h wr) (view s)"
  by (auto simp: discard_section_def transitionResult_def va_detach_def upd_defs view_def fun_eq_iff)

lemma view_clear: "view (clear_section h g s) = va_clear h g (view s)"
  by (auto simp: clear_section_def transition_def va_clear_def upd_defs view_def fun_eq_iff)

lemma retire_cases:
  assumes "retire M h g s = (s', r, e)"
  obtains "r = None" and "view s' = view s"
  | "r = Some g" and "view s' = (view s)\<lparr>v_cur := (v_cur (view s))(h := None)\<rparr>"
  using assms
  by (auto simp: retire_def Let_def upd_defs view_def fun_eq_iff split: prod.splits if_splits)

text \<open>A removal either leaves everything, or takes the finalized current off its handle.\<close>

definition va_retire :: "href \<Rightarrow> gref option \<Rightarrow> view \<Rightarrow> view \<Rightarrow> bool" where
  "va_retire h r v v' \<longleftrightarrow>
     r = None \<and> v' = v \<or>
     (\<exists>c. r = Some c \<and> v_cur v h = Some c \<and> v_st v c = genFinalized
        \<and> v' = v\<lparr>v_cur := (v_cur v)(h := None)\<rparr>)"

lemma view_delete:
  assumes "delete_section M h now s = (s', r, e)"
  shows "va_retire h r (view s) (view s')"
proof (cases "presentCurrent (gs s) (hs s h) now")
  case None
  then show ?thesis using assms by (auto simp: delete_section_def transitionResult_def va_retire_def)
next
  case (Some c)
  obtain s1 r1 e1 where rt: "retire M h c s = (s1, r1, e1)" by (cases "retire M h c s") auto
  from Some have c: "h_current (hs s h) = Some c" "g_state (gs s c) = genFinalized"
    by (simp_all add: presentCurrent_Some)
  have s': "s' = (if r1 \<noteq> None then wake_h h s1 else s1)" "r = r1"
    using assms Some rt by (auto simp: delete_section_def transitionResult_def)
  show ?thesis
    by (rule retire_cases [OF rt]) (use c s' in \<open>simp_all add: va_retire_def\<close>)
qed

lemma view_reap:
  assumes "reap_section M h cid now s = (s', r, e)"
  shows "va_retire h r (view s) (view s')"
proof (cases "expiredCurrent (gs s) (hs s h) now")
  case None
  then show ?thesis using assms by (auto simp: reap_section_def transitionResult_def va_retire_def)
next
  case (Some c)
  obtain s1 r1 e1 where rt: "retire M h c s = (s1, r1, e1)" by (cases "retire M h c s") auto
  from Some have c: "h_current (hs s h) = Some c" "g_state (gs s c) = genFinalized"
    by (simp_all add: expiredCurrent_Some)
  show ?thesis
  proof (cases "g_id (gs s c) = cid")
    case False
    then show ?thesis using assms Some by (auto simp: reap_section_def transitionResult_def va_retire_def)
  next
    case True
    then have s': "s' = (if r1 \<noteq> None then wake_h h s1 else s1)" "r = r1"
      using assms Some rt by (auto simp: reap_section_def transitionResult_def)
    show ?thesis
      by (rule retire_cases [OF rt]) (use c s' in \<open>simp_all add: va_retire_def\<close>)
  qed
qed

subsection \<open>Admission and opening\<close>

lemma view_upd_h_prefix: "view (upd_h h (\<lambda>x. x\<lparr>h_lastPrefix := p\<rparr>) s) = view s"
  by (rule view_upd_h_frame) simp_all

lemma view_squota:
  "view (s\<lparr>squota := q\<rparr>) = (view s)\<lparr>v_bytes := bytes q, v_clips := clips q\<rparr>"
  by (simp add: view_def)

lemma view_admit_error:
  assumes "admit_section M h name m po now rnd s = (s', r, Some e)"
  shows "view s' = view s"
proof -
  obtain s1 b where a: "admit M h name m po now rnd s = (s1, r, b, Some e)"
    and s': "s' = (if b then wake_h h s1 else s1)"
    using assms by (auto simp: admit_section_def transitionResult_def split: prod.splits)
  have "view s1 = view s"
    using a
    by (auto simp: admit_def Let_def view_give_clip view_upd_h_prefix view_squota
        dest!: reserveClip_clips split: prod.splits if_splits bool.splits sum.splits)
  then show ?thesis by (simp add: s')
qed

context medium_contract
begin

lemma view_admit_ok:
  assumes "admit_section M h name m po now rnd s = (s', r, None)"
  shows "r = Some (gnext s)" and "h_live (hs s h) = None"
    and "view s' = va_install h name (po_ConsumeOnce po) (view s)"
proof -
  obtain s1 b where a: "admit M h name m po now rnd s = (s1, r, b, None)"
    and s': "s' = (if b then wake_h h s1 else s1)"
    using assms by (auto simp: admit_section_def transitionResult_def split: prod.splits)
  have v: "view s' = view s1" by (simp add: s')
  show "r = Some (gnext s)" "h_live (hs s h) = None"
    using a by (auto simp: admit_def Let_def upd_h_def split: prod.splits if_splits bool.splits sum.splits)
  show "view s' = va_install h name (po_ConsumeOnce po) (view s)"
    unfolding v using a
    by (auto simp: admit_def Let_def upd_h_def va_install_def view_def fun_eq_iff
        dest!: reserveClip_clips create_fresh split: prod.splits if_splits bool.splits sum.splits)
qed

lemma view_append:
  assumes "append_chunk M g p s = (s', n, e)"
  shows "view s' = va_grow g (word_of_nat n) (view s)" and "n \<le> length p"
proof -
  obtain b w k f where a: "buf_Append (m_back M) p (g_buf (gs s g)) (world s) = (b, w, k, f)"
    by (cases "buf_Append (m_back M) p (g_buf (gs s g)) (world s)") auto
  have s': "s' = upd_g g (\<lambda>x. x\<lparr>g_buf := b\<rparr>) (s\<lparr>world := w\<rparr>)" "n = k"
    using assms a by (simp_all add: append_chunk_def)
  have b: "bsize b = bsize (g_buf (gs s g)) + word_of_nat k" "k \<le> length p"
    using a by (auto simp: buf_Append_def advance_def wakeLocked_def Let_def dest!: append_bound
        split: prod.splits if_splits)
  show "n \<le> length p" using b s' by simp
  show "view s' = va_grow g (word_of_nat n) (view s)"
    using b by (auto simp: s' view_def va_grow_def upd_g_def fun_eq_iff)
qed

end

text \<open>
  A turn of \<open>Open\<close> moves nothing but the claim it commits: then the generation was the handle's
  finalized consume-once current, and it is the cleanup the result carries.
\<close>

definition va_opened :: "href \<Rightarrow> gref option \<Rightarrow> view \<Rightarrow> view \<Rightarrow> bool" where
  "va_opened h r v v' \<longleftrightarrow>
     r = None \<and> v' = v \<or>
     (\<exists>g. r = Some g \<and> v_cur v h = Some g \<and> v_st v g = genFinalized \<and> v_cons v g
        \<and> v' = va_claim g v)"

lemma view_claim:
  "view (upd_g g (\<lambda>x. x\<lparr>g_state := genConsumed\<rparr>) s) = va_claim g (view s)"
  by (auto simp: view_def upd_g_def va_claim_def fun_eq_iff)

lemma commit_open_view:
  assumes "commit_open M c g name s = (s', r, b, e)"
  shows "view s' = view s" and "or_cleanup r = (if c then Some g else None)"
    and "e = None \<Longrightarrow> or_rc r \<noteq> None"
  using assms
  by (auto simp: commit_open_def Let_def no_result_def dest!: view_open_reader
      split: prod.splits sum.splits)

lemma commitRead_view:
  assumes "commitRead M ctx g name s = (s', r, b, e)"
  shows "or_cleanup r = None \<and> view s' = view s \<or>
    or_cleanup r = Some g \<and> g_state (gs s g) = genFinalized \<and> g_consume (gs s g)
    \<and> view s' = va_claim g (view s)"
    and "e = None \<Longrightarrow> or_rc r \<noteq> None"
    and "e = None \<Longrightarrow> g_state (gs s g) = genFinalized \<Longrightarrow> g_consume (gs s g) \<Longrightarrow> or_cleanup r = Some g"
proof -
  let ?c = "g_state (gs s g) = genFinalized \<and> g_consume (gs s g)"
  let ?s1 = "upd_g g (\<lambda>x. x\<lparr>g_state := genConsumed\<rparr>) s"
  have all: "(or_cleanup r = None \<and> view s' = view s \<or>
      or_cleanup r = Some g \<and> g_state (gs s g) = genFinalized \<and> g_consume (gs s g)
      \<and> view s' = va_claim g (view s)) \<and> (e = None \<longrightarrow> or_rc r \<noteq> None)
      \<and> (e = None \<and> ?c \<longrightarrow> or_cleanup r = Some g)"
  proof (cases ?c)
    case False
    then have "commit_open M False g name s = (s', r, b, e)" using assms by (auto simp: commitRead_def)
    then show ?thesis using commit_open_view [of M False g name s s' r b e] False by auto
  next
    case c: True
    show ?thesis
    proof (cases ctx)
      case (Some x)
      then show ?thesis using assms c by (auto simp: commitRead_def no_result_def)
    next
      case None
      obtain w committed f where cl: "m_claim M (gs ?s1 g) (world ?s1) = (w, committed, f)"
        by (cases "m_claim M (gs ?s1 g) (world ?s1)") auto
      show ?thesis
      proof (cases f)
        case None
        then have "commit_open M True g name (?s1\<lparr>world := w\<rparr>) = (s', r, b, e)"
          using assms c \<open>ctx = None\<close> cl by (simp add: commitRead_def Let_def)
        then show ?thesis
          using commit_open_view [of M True g name "?s1\<lparr>world := w\<rparr>" s' r b e] c by (simp add: view_claim)
      next
        case (Some x)
        have undo: "view (upd_g g (\<lambda>x. x\<lparr>g_state := genFinalized\<rparr>) (?s1\<lparr>world := w\<rparr>)) = view s"
          using c by (auto simp: view_def upd_g_def fun_eq_iff)
        show ?thesis
          using assms c \<open>ctx = None\<close> cl Some undo
          by (cases committed) (auto simp: commitRead_def Let_def no_result_def view_claim)
      qed
    qed
  qed
  then show "or_cleanup r = None \<and> view s' = view s \<or>
    or_cleanup r = Some g \<and> g_state (gs s g) = genFinalized \<and> g_consume (gs s g)
    \<and> view s' = va_claim g (view s)" "e = None \<Longrightarrow> or_rc r \<noteq> None"
    "e = None \<Longrightarrow> g_state (gs s g) = genFinalized \<Longrightarrow> g_consume (gs s g) \<Longrightarrow> or_cleanup r = Some g"
    by blast+
qed

lemma open_resolve_fields:
  assumes "open_resolve now (s, os) = ((s', os'), r)"
  shows "s' = s" and "os_h os' = os_h os" and "os_name os' = os_name os" and "os_wait os' = os_wait os"
  using assms by (auto simp: open_resolve_def Let_def split: if_splits option.splits)

lemma open_resolve_Inr:
  assumes "open_resolve now (s, os) = (st, Inr g)"
  shows "h_current (hs s (os_h os)) = Some g \<and> g_state (gs s g) = genFinalized
      \<and> \<not> expired (gs s g) now
    \<or> h_live (hs s (os_h os)) = Some g \<and> \<not> g_consume (gs s g)"
  using assms
  by (auto simp: open_resolve_def Let_def resolveRead_def followResolve_def presentCurrent_Some
      followable_live_Some split: if_splits option.splits)

text \<open>A turn of \<open>Open\<close> that ends.\<close>

lemma open_turn_done:
  assumes t: "open_turn M ctx now os s = ((s', os'), Done res e)"
  shows "va_opened (os_h os) (or_cleanup res) (view s) (view s')" and "os_h os' = os_h os"
    and "or_cleanup res = Some g \<Longrightarrow> g = resolved now s os"
    and "e = None \<Longrightarrow> or_rc res \<noteq> None"
    and "e = None \<Longrightarrow> open_resolve now (s, os) = ((s, os'), Inr (resolved now s os))"
    and "e = None \<Longrightarrow> g_state (gs s (resolved now s os)) = genFinalized \<Longrightarrow>
      g_consume (gs s (resolved now s os)) \<Longrightarrow> or_cleanup res = Some (resolved now s os)"
proof -
  obtain st r where rs: "open_resolve now (s, os) = (st, r)" by (cases "open_resolve now (s, os)")
  obtain s1 os1 where st: "st = (s1, os1)" by (cases st)
  note f = open_resolve_fields [OF rs [unfolded st]]
  have all: "va_opened (os_h os) (or_cleanup res) (view s) (view s') \<and> os_h os' = os_h os
     \<and> (\<forall>g. or_cleanup res = Some g \<longrightarrow> g = resolved now s os) \<and> (e = None \<longrightarrow> or_rc res \<noteq> None)
     \<and> (e = None \<longrightarrow> open_resolve now (s, os) = ((s, os'), Inr (resolved now s os)))
     \<and> (e = None \<and> g_state (gs s (resolved now s os)) = genFinalized
         \<and> g_consume (gs s (resolved now s os)) \<longrightarrow> or_cleanup res = Some (resolved now s os))"
  proof (cases r)
    case (Inl x)
    then show ?thesis using t rs st f
      by (auto simp: open_turn_def await_turn_def va_opened_def no_result_def split: if_splits)
  next
    case (Inr g)
    obtain s2 r2 b2 e2 where c: "commitRead M ctx g (os_name os) s = (s2, r2, b2, e2)"
      by (cases "commitRead M ctx g (os_name os) s") auto
    have eq: "res = r2" "e = e2" "os' = os1" "view s' = view s2"
      using t rs st f c Inr by (auto simp: open_turn_def await_turn_def split: if_splits)
    have g: "resolved now s os = g" using rs Inr by (simp add: resolved_def)
    note cr = commitRead_view [OF c]
    have "h_current (hs s (os_h os)) = Some g" if "g_state (gs s g) = genFinalized" "g_consume (gs s g)"
      using open_resolve_Inr [of now s os st g] rs Inr that by auto
    then show ?thesis using cr eq f g rs st Inr by (auto simp: va_opened_def)
  qed
  then show "va_opened (os_h os) (or_cleanup res) (view s) (view s')" "os_h os' = os_h os"
    "or_cleanup res = Some g \<Longrightarrow> g = resolved now s os" "e = None \<Longrightarrow> or_rc res \<noteq> None"
    "e = None \<Longrightarrow> open_resolve now (s, os) = ((s, os'), Inr (resolved now s os))"
    "e = None \<Longrightarrow> g_state (gs s (resolved now s os)) = genFinalized \<Longrightarrow>
      g_consume (gs s (resolved now s os)) \<Longrightarrow> or_cleanup res = Some (resolved now s os)"
    by blast+
qed

lemma open_resolve_Inl:
  assumes "open_resolve now (s, os) = (st, Inl e)"
  shows "e = Leaf ErrNotFound \<or> e = Leaf ErrConsumed"
  using assms
  by (auto simp: open_resolve_def Let_def resolveRead_def followResolve_def
      split: if_splits option.splits)

lemma open_turn_park:
  assumes t: "open_turn M ctx now os s = ((s', os'), Park c)"
  shows "s' = s" and "os_h os' = os_h os" and "c = chan_h (os_h os) s"
    and "open_resolve now (s, os) = ((s, os'), Inl (Leaf ErrNotFound))" and "os_wait os"
proof -
  obtain s1 os1 r where rs: "open_resolve now (s, os) = ((s1, os1), r)"
    by (cases "open_resolve now (s, os)") auto
  note f = open_resolve_fields [OF rs]
  have r: "\<exists>e. r = Inl e"
    using t rs by (cases r) (auto simp: open_turn_def await_turn_def split: prod.splits if_splits)
  then obtain e where e: "r = Inl e" by blast
  have "e = Leaf ErrNotFound \<or> e = Leaf ErrConsumed" using open_resolve_Inl rs e by blast
  then have all: "s' = s \<and> os' = os1 \<and> c = chan_h (os_h os) s \<and> e = Leaf ErrNotFound \<and> os_wait os"
    using t rs f e by (auto simp: open_turn_def await_turn_def open_waitable_def split: if_splits)
  show "s' = s" "os_h os' = os_h os" "c = chan_h (os_h os) s"
    "open_resolve now (s, os) = ((s, os'), Inl (Leaf ErrNotFound))" "os_wait os"
    using all f rs e by simp_all
qed

end
