(* ===== verification/StoreInv.thy ===== *)
theory StoreInv imports StoreView begin

text \<open>
  The invariants of the concurrent store, over the view of a configuration and its tasks: leases
  count the operations in flight and pin their handles; the generation pointers are well formed;
  every extant generation has exactly one owner, a handle's finalized current or one task; and the
  quota's counters are exactly what the owners hold.  Each is kept by every step.
\<close>

fun t_handle :: "'h task \<Rightarrow> href" where
  "t_handle (TAdmit h _ _ _) = h"
| "t_handle (TRelease h) = h"
| "t_handle (TWriter wr) = wr_h wr"
| "t_handle (TReserved wr _) = wr_h wr"
| "t_handle (TTail wr _) = wr_h wr"
| "t_handle (TSync wr) = wr_h wr"
| "t_handle (TFinalize wr) = wr_h wr"
| "t_handle (TFlip wr) = wr_h wr"
| "t_handle (TFinish wr _) = wr_h wr"
| "t_handle (TAbortPub wr) = wr_h wr"
| "t_handle (TDiscard wr) = wr_h wr"
| "t_handle (TFail wr) = wr_h wr"
| "t_handle (TRemove h _ _) = h"
| "t_handle (TBytes h _ _) = h"
| "t_handle (TClip h _ _) = h"
| "t_handle (TClear h _) = h"
| "t_handle (TOpen os) = os_h os"
| "t_handle (TParked os _) = os_h os"
| "t_handle (TReader l) = lr_h l"
| "t_handle (TDelete h) = h"
| "t_handle (TReap h _ _) = h"

text \<open>The generation a task must reclaim: whose count slot, and whose bytes, it still owes.\<close>

fun t_slot :: "'h task \<Rightarrow> gref option" where
  "t_slot (TWriter wr) = Some (wr_g wr)"
| "t_slot (TReserved wr _) = Some (wr_g wr)"
| "t_slot (TTail wr _) = Some (wr_g wr)"
| "t_slot (TSync wr) = Some (wr_g wr)"
| "t_slot (TFinalize wr) = Some (wr_g wr)"
| "t_slot (TFlip wr) = Some (wr_g wr)"
| "t_slot (TFinish _ prev) = prev"
| "t_slot (TAbortPub wr) = Some (wr_g wr)"
| "t_slot (TDiscard wr) = Some (wr_g wr)"
| "t_slot (TFail wr) = Some (wr_g wr)"
| "t_slot (TRemove _ g _) = Some g"
| "t_slot (TBytes _ g _) = Some g"
| "t_slot (TClip _ g _) = Some g"
| "t_slot (TReader l) = lr_cleanup l"
| "t_slot _ = None"

fun t_bytes :: "'h task \<Rightarrow> gref option" where
  "t_bytes (TClip _ _ _) = None"
| "t_bytes t = t_slot t"

text \<open>The live generation a writer that has not ended yet is attached to.\<close>

fun t_writer :: "'h task \<Rightarrow> gref option" where
  "t_writer (TWriter wr) = Some (wr_g wr)"
| "t_writer (TReserved wr _) = Some (wr_g wr)"
| "t_writer (TTail wr _) = Some (wr_g wr)"
| "t_writer (TSync wr) = Some (wr_g wr)"
| "t_writer (TFinalize wr) = Some (wr_g wr)"
| "t_writer (TFlip wr) = Some (wr_g wr)"
| "t_writer (TAbortPub wr) = Some (wr_g wr)"
| "t_writer (TDiscard wr) = Some (wr_g wr)"
| "t_writer _ = None"

text \<open>A consumed generation whose claimant has its destruction still to do.\<close>

fun t_cleans :: "'h task \<Rightarrow> gref option" where
  "t_cleans (TRemove _ g c) = (if c then Some g else None)"
| "t_cleans (TBytes _ g c) = (if c then Some g else None)"
| "t_cleans (TClip _ g c) = (if c then Some g else None)"
| "t_cleans (TClear _ g) = Some g"
| "t_cleans (TReader l) = lr_cleanup l"
| "t_cleans _ = None"

text \<open>The name an admission is for.\<close>

fun t_named :: "'h task \<Rightarrow> string option" where
  "t_named (TAdmit _ n _ _) = Some n"
| "t_named _ = None"

text \<open>Bytes reserved but not yet appended or returned.\<close>

fun t_resv :: "'h task \<Rightarrow> int64" where
  "t_resv (TReserved _ p) = word_of_nat (length p)"
| "t_resv (TTail _ n) = n"
| "t_resv _ = 0"

definition held :: "view \<Rightarrow> gref \<Rightarrow> bool" where
  "held v g \<longleftrightarrow> v_st v g = genFinalized \<and>
     (\<exists>h. v_reg v (v_gname v g) = Some h \<and> v_cur v h = Some g)"

definition tally :: "('h task \<Rightarrow> gref option) \<Rightarrow> 'h task multiset \<Rightarrow> gref \<Rightarrow> nat" where
  "tally f T g = size {#t \<in># T. f t = Some g#}"

definition owners :: "('h task \<Rightarrow> gref option) \<Rightarrow> view \<Rightarrow> 'h task multiset \<Rightarrow> gref \<Rightarrow> nat" where
  "owners f v T g = (if held v g then 1 else 0) + tally f T g"

definition lease_count :: "'h task multiset \<Rightarrow> href \<Rightarrow> nat" where
  "lease_count T h = size {#t \<in># T. t_handle t = h#}"

definition inv_reg :: "view \<Rightarrow> 'h task multiset \<Rightarrow> bool" where
  "inv_reg v T \<longleftrightarrow>
     (\<forall>n h. v_reg v n = Some h \<longrightarrow> h < v_hnext v \<and> v_name v h = n)
     \<and> (\<forall>h < v_hnext v. v_reg v (v_name v h) \<noteq> Some h \<longrightarrow>
          lease_count T h = 0 \<and> v_cur v h = None \<and> v_live v h = None)
     \<and> (\<forall>h < v_hnext v. v_lease v h = int (lease_count T h))
     \<and> (\<forall>t \<in># T. t_handle t < v_hnext v)
     \<and> (\<forall>n h. v_reg v n = Some h \<longrightarrow> lease_count T h \<noteq> 0 \<or> v_cur v h \<noteq> None \<or> v_live v h \<noteq> None)"

definition task_ok :: "view \<Rightarrow> 'h task \<Rightarrow> bool" where
  "task_ok v t \<longleftrightarrow> (t_writer t \<noteq> None \<longrightarrow> v_live v (t_handle t) = t_writer t)
     \<and> (t_cleans t \<noteq> None \<longrightarrow> 
          v_st v (the (t_cleans t)) = genConsumed \<and> the (t_cleans t) < v_gnext v)
     \<and> (t_named t \<noteq> None \<longrightarrow> v_name v (t_handle t) = the (t_named t))"

definition inv_ptr :: "view \<Rightarrow> 'h task multiset \<Rightarrow> bool" where
  "inv_ptr v T \<longleftrightarrow>
     (\<forall>h c. h < v_hnext v \<and> v_cur v h = Some c \<longrightarrow>
        c < v_gnext v \<and> v_gname v c = v_name v h \<and> v_st v c \<noteq> genLive)
     \<and> (\<forall>h l. h < v_hnext v \<and> v_live v h = Some l \<longrightarrow>
        l < v_gnext v \<and> v_gname v l = v_name v h \<and> v_st v l = genLive)
     \<and> (\<forall>t \<in># T. task_ok v t)"

definition inv_own :: "view \<Rightarrow> 'h task multiset \<Rightarrow> bool" where
  "inv_own v T \<longleftrightarrow> (\<forall>g. owners t_slot v T g \<le> (if g < v_gnext v then 1 else 0))"

definition inv_quota :: "view \<Rightarrow> 'h task multiset \<Rightarrow> bool" where
  "inv_quota v T \<longleftrightarrow>
     v_bytes v = (\<Sum>g < v_gnext v. of_nat (owners t_bytes v T g) * v_size v g) + (\<Sum>t \<in># T. t_resv t)
     \<and> v_clips v = (\<Sum>g < v_gnext v. of_nat (owners t_slot v T g))"

definition inv :: "view \<Rightarrow> 'h task multiset \<Rightarrow> bool" where
  "inv v T \<longleftrightarrow> inv_reg v T \<and> inv_ptr v T \<and> inv_own v T \<and> inv_quota v T"

subsection \<open>Counting\<close>

lemma tally_add [simp]: "tally f (add_mset t T) g = (if f t = Some g then 1 else 0) + tally f T g"
  by (simp add: tally_def)

lemma lease_add [simp]: "lease_count (add_mset t T) h = (if t_handle t = h then 1 else 0) + lease_count T h"
  by (simp add: lease_count_def)

lemma tally_empty [simp]: "tally f {#} g = 0"
  by (simp add: tally_def)

lemma lease_zero: "lease_count T h = 0 \<longleftrightarrow> (\<forall>t \<in># T. t_handle t \<noteq> h)"
  by (auto simp: lease_count_def)

lemma tally_zero: "tally f T g = 0 \<longleftrightarrow> (\<forall>t \<in># T. f t \<noteq> Some g)"
  by (auto simp: tally_def)

lemma tally_bytes_le: "tally t_bytes T g \<le> tally t_slot T g"
proof (induction T)
  case empty then show ?case by simp
next
  case (add t T)
  then show ?case by (cases t) auto
qed

lemma owners_bytes_le: "owners t_bytes v T g \<le> owners t_slot v T g"
  by (simp add: owners_def tally_bytes_le)

subsection \<open>Steps that only change the task\<close>

text \<open>Handing an obligation on within the task, or to and from the handles, keeps the counters.\<close>

lemma inv_quota_move:
  assumes "inv_quota v T" and "\<And>g. owners t_bytes v' T' g = owners t_bytes v T g"
    and "\<And>g. owners t_slot v' T' g = owners t_slot v T g"
    and "v_gnext v' = v_gnext v" and "v_size v' = v_size v" and "v_bytes v' = v_bytes v"
    and "v_clips v' = v_clips v" and "(\<Sum>t \<in># T'. t_resv t) = (\<Sum>t \<in># T. t_resv t)"
  shows "inv_quota v' T'"
  using assms by (simp add: inv_quota_def)

lemma inv_own_move:
  assumes "inv_own v T" and "\<And>g. owners t_slot v' T' g = owners t_slot v T g"
    and "v_gnext v' = v_gnext v"
  shows "inv_own v' T'"
  using assms by (simp add: inv_own_def)

lemma inv_relabel:
  assumes "inv v (add_mset t T)" and "t_handle t' = t_handle t" and "t_slot t' = t_slot t"
    and "t_bytes t' = t_bytes t" and "t_resv t' = t_resv t"
    and "t_writer t' = None \<or> t_writer t' = t_writer t"
    and "t_cleans t' = None \<or> t_cleans t' = t_cleans t" and "t_named t' = None"
  shows "inv v (add_mset t' T)"
proof -
  have "inv_reg v (add_mset t' T)" using assms(1,2) by (auto simp: inv_def inv_reg_def)
  moreover have "inv_ptr v (add_mset t' T)"
    using assms(1,2,6,7,8) by (auto simp: inv_def inv_ptr_def task_ok_def)
  moreover have "inv_own v (add_mset t' T)"
    using assms(1,3) inv_own_move [of v "add_mset t T" v "add_mset t' T"] by (simp add: inv_def owners_def)
  moreover have "inv_quota v (add_mset t' T)"
    using assms(1,3,4,5) inv_quota_move [of v "add_mset t T" v "add_mset t' T"] by (simp add: inv_def owners_def)
  ultimately show ?thesis by (simp add: inv_def)
qed

subsection \<open>Leases\<close>

lemma inv_regD:
  assumes "inv_reg v T"
  shows "v_reg v n = Some h \<Longrightarrow> h < v_hnext v" and "v_reg v n = Some h \<Longrightarrow> v_name v h = n"
    and "h < v_hnext v \<Longrightarrow> v_reg v (v_name v h) \<noteq> Some h \<Longrightarrow> lease_count T h = 0"
    and "h < v_hnext v \<Longrightarrow> v_reg v (v_name v h) \<noteq> Some h \<Longrightarrow> v_cur v h = None"
    and "h < v_hnext v \<Longrightarrow> v_reg v (v_name v h) \<noteq> Some h \<Longrightarrow> v_live v h = None"
    and "h < v_hnext v \<Longrightarrow> v_lease v h = int (lease_count T h)"
    and "t \<in># T \<Longrightarrow> t_handle t < v_hnext v"
    and "v_reg v n = Some h \<Longrightarrow> lease_count T h \<noteq> 0 \<or> v_cur v h \<noteq> None \<or> v_live v h \<noteq> None"
  using assms unfolding inv_reg_def by blast+

lemma leased_registered:
  assumes "inv_reg v (add_mset t T)"
  shows "t_handle t < v_hnext v" and "v_reg v (v_name v (t_handle t)) = Some (t_handle t)"
proof -
  show lt: "t_handle t < v_hnext v" using inv_regD(7) [OF assms] by simp
  show "v_reg v (v_name v (t_handle t)) = Some (t_handle t)"
    using inv_regD(3) [OF assms lt] by fastforce
qed

lemma held_acquire:
  assumes "inv_reg v T"
  shows "held (va_acquire name v) g = held v g"
proof (cases "v_reg v name")
  case (Some h)
  then show ?thesis by (simp add: held_def va_acquire_def)
next
  case None
  have "v_reg v n = Some h \<Longrightarrow> h \<noteq> v_hnext v" for n h using assms unfolding inv_reg_def by blast
  then show ?thesis using None by (auto simp: held_def va_acquire_def Let_def)
qed

lemma inv_acquire:
  assumes "inv v T" and "t_handle t = va_handle name v"
    and "t_slot t = None" and "t_writer t = None" and "t_cleans t = None" and "t_resv t = 0"
    and "t_named t = None \<or> t_named t = Some name"
  shows "inv (va_acquire name v) (add_mset t T)"
proof -
  have reg: "inv_reg v T" using assms(1) by (simp add: inv_def)
  have bytes: "t_bytes t = None" using assms(3) by (cases t) simp_all
  have fresh: "lease_count T (v_hnext v) = 0"
    using reg by (auto simp: inv_reg_def lease_zero)
  have "inv_reg (va_acquire name v) (add_mset t T)"
  proof (cases "v_reg v name")
    case (Some h)
    then have "h < v_hnext v" "v_name v h = name" using reg by (auto simp: inv_reg_def)
    then show ?thesis using reg Some assms(2) by (auto simp: inv_reg_def va_acquire_def va_handle_def)
  next
    case None
    then show ?thesis using reg assms(2) fresh
      by (auto simp: inv_reg_def va_acquire_def va_handle_def Let_def less_Suc_eq)
  qed
  moreover have "inv_ptr (va_acquire name v) (add_mset t T)"
  proof -
    have lt: "\<forall>t \<in># T. t_handle t < v_hnext v" using reg by (simp add: inv_reg_def)
    show ?thesis
      using assms(1,2,4,5,7) lt inv_regD(2) [OF reg]
      by (cases "v_reg v name")
        (auto simp: inv_def inv_ptr_def task_ok_def va_acquire_def va_handle_def Let_def less_Suc_eq)
  qed
  moreover have gn: "v_gnext (va_acquire name v) = v_gnext v" "v_size (va_acquire name v) = v_size v"
    "v_bytes (va_acquire name v) = v_bytes v" "v_clips (va_acquire name v) = v_clips v"
    by (simp_all add: va_acquire_def Let_def split: option.split)
  moreover have "inv_own (va_acquire name v) (add_mset t T)"
    using assms(1,3) gn by (simp add: inv_def inv_own_def owners_def held_acquire [OF reg])
  moreover have "inv_quota (va_acquire name v) (add_mset t T)"
    using assms(1,3,6) gn bytes by (simp add: inv_def inv_quota_def owners_def held_acquire [OF reg])
  ultimately show ?thesis by (simp add: inv_def)
qed

lemma inv_release:
  assumes "inv v (add_mset (TRelease h) T)"
  shows "inv (va_release h v) T"
proof -
  have reg: "inv_reg v (add_mset (TRelease h) T)" using assms by (simp add: inv_def)
  note h = leased_registered [OF reg, simplified]
  have lease: "v_lease v h = 1 + int (lease_count T h)"
    using inv_regD(6) [OF reg h(1)] by simp
  have one: "v_reg v n = Some h \<longleftrightarrow> n = v_name v h" for n
    using inv_regD(2) [OF reg] h(2) by blast
  let ?v = "va_release h v"
  have flds: "v_hnext ?v = v_hnext v" "v_name ?v = v_name v" "v_cur ?v = v_cur v" "v_live ?v = v_live v"
    "v_lease ?v = (v_lease v)(h := v_lease v h - 1)"
    by (simp_all add: va_release_def Let_def)
  have sub: "v_reg ?v n = Some k \<Longrightarrow> v_reg v n = Some k" for n k
    by (auto simp: va_release_def Let_def split: if_splits)
  have gone: "v_reg v (v_name v k) \<noteq> Some k \<or> k = h \<and> lease_count T h = 0 \<and> v_cur v h = None \<and> v_live v h = None"
    if "v_reg ?v (v_name v k) \<noteq> Some k" "k < v_hnext v" for k
  proof (cases "v_lease v h = 1 \<and> v_cur v h = None \<and> v_live v h = None")
    case False
    then have "v_reg ?v = v_reg v" by (auto simp: va_release_def Let_def)
    then show ?thesis using that(1) by simp
  next
    case True
    then have r: "v_reg ?v = (v_reg v)(v_name v h := None)" by (simp add: va_release_def Let_def)
    have "lease_count T h = 0" using True lease by simp
    then show ?thesis
      using True that(1) h(2) unfolding r by (cases "k = h"; cases "v_name v k = v_name v h") simp_all
  qed
  have "inv_reg ?v T"
    unfolding inv_reg_def flds
  proof (intro conjI allI impI ballI)
    fix k assume "k < v_hnext v" "v_reg ?v (v_name v k) \<noteq> Some k"
    then show "lease_count T k = 0" "v_cur v k = None" "v_live v k = None"
      using gone [of k] inv_regD(3-5) [OF reg, of k] by auto
  next
    fix n k assume "v_reg ?v n = Some k"
    from sub [OF this] show "k < v_hnext v" "v_name v k = n" using inv_regD(1,2) [OF reg] by blast+
  next
    fix k assume "k < v_hnext v"
    then show "((v_lease v)(h := v_lease v h - 1)) k = int (lease_count T k)"
      using inv_regD(6) [OF reg, of k] lease by simp
  next
    fix t assume "t \<in># T"
    then show "t_handle t < v_hnext v" using inv_regD(7) [OF reg, of t] by simp
  next
    fix n k assume a: "v_reg ?v n = Some k"
    have "k = h \<Longrightarrow> lease_count T h = 0 \<Longrightarrow> v_cur v h = None \<Longrightarrow> v_live v h = None \<Longrightarrow> False"
      using a one [of n] lease by (auto simp: va_release_def Let_def)
    then show "lease_count T k \<noteq> 0 \<or> v_cur v k \<noteq> None \<or> v_live v k \<noteq> None"
      using inv_regD(8) [OF reg sub [OF a]] by (cases "k = h") auto
  qed
  moreover have "inv_ptr (va_release h v) T"
  proof -
    have p: "inv_ptr v (add_mset (TRelease h) T)" using assms by (simp add: inv_def)
    have same: "v_gnext ?v = v_gnext v" "v_gname ?v = v_gname v" "v_st ?v = v_st v"
      by (simp_all add: va_release_def Let_def)
    show ?thesis using p unfolding inv_ptr_def task_ok_def flds same by simp
  qed
  moreover have held: "held (va_release h v) g = held v g" for g
  proof (cases "v_lease v h = 1 \<and> v_cur v h = None \<and> v_live v h = None")
    case False
    then have r: "v_reg ?v = v_reg v" by (auto simp: va_release_def Let_def)
    have o: "v_st ?v = v_st v" "v_gname ?v = v_gname v" by (simp_all add: va_release_def Let_def)
    show ?thesis unfolding held_def r o flds by (rule refl)
  next
    case True
    then have r: "v_reg ?v = (v_reg v)(v_name v h := None)" by (simp add: va_release_def Let_def)
    have o: "v_st ?v = v_st v" "v_gname ?v = v_gname v" by (simp_all add: va_release_def Let_def)
    show ?thesis unfolding held_def r o flds using True h(2) by (cases "v_gname v g = v_name v h") simp_all
  qed
  moreover have gn: "v_gnext (va_release h v) = v_gnext v" "v_size (va_release h v) = v_size v"
    "v_bytes (va_release h v) = v_bytes v" "v_clips (va_release h v) = v_clips v"
    by (simp_all add: va_release_def Let_def)
  moreover have "inv_own (va_release h v) T"
    using assms gn by (simp add: inv_def inv_own_def owners_def held)
  moreover have "inv_quota (va_release h v) T"
    using assms gn by (simp add: inv_def inv_quota_def owners_def held)
  ultimately show ?thesis by (simp add: inv_def)
qed

subsection \<open>Handing generations on\<close>

text \<open>The readable form of the pointer invariant.\<close>

lemma inv_ptrD:
  assumes "inv_ptr v T"
  shows "h < v_hnext v \<Longrightarrow> v_cur v h = Some c \<Longrightarrow> c < v_gnext v"
    and "h < v_hnext v \<Longrightarrow> v_cur v h = Some c \<Longrightarrow> v_gname v c = v_name v h"
    and "h < v_hnext v \<Longrightarrow> v_cur v h = Some c \<Longrightarrow> v_st v c \<noteq> genLive"
    and "h < v_hnext v \<Longrightarrow> v_live v h = Some l \<Longrightarrow> l < v_gnext v"
    and "h < v_hnext v \<Longrightarrow> v_live v h = Some l \<Longrightarrow> v_gname v l = v_name v h"
    and "h < v_hnext v \<Longrightarrow> v_live v h = Some l \<Longrightarrow> v_st v l = genLive"
    and "t \<in># T \<Longrightarrow> task_ok v t"
  using assms by (simp_all add: inv_ptr_def)

lemma invD:
  assumes "inv v T"
  shows "inv_reg v T" and "inv_ptr v T" and "inv_own v T" and "inv_quota v T"
  using assms by (simp_all add: inv_def)

text \<open>A leased handle's current is held exactly when it is finalized.\<close>

lemma held_iff_current:
  assumes "inv_reg v T" and "inv_ptr v T" and "h < v_hnext v" and "v_reg v (v_name v h) = Some h"
    and "v_gname v g = v_name v h"
  shows "held v g \<longleftrightarrow> v_cur v h = Some g \<and> v_st v g = genFinalized"
  using assms(4,5) by (auto simp: held_def)

lemma held_other:
  assumes "inv_reg v T" and "v_reg v (v_name v h) = Some h" and "v_gname v g \<noteq> v_name v h"
    and "v_reg v (v_gname v g) = Some k"
  shows "k \<noteq> h"
  using inv_regD(2) [OF assms(1)] assms(3,4) by metis

text \<open>A change of current, live and states that keeps who owns what, on one leased handle.\<close>

lemma inv_reg_frame:
  assumes "inv_reg v (add_mset t T)" and "t_handle t' = t_handle t"
    and "v_reg v' = v_reg v" "v_hnext v' = v_hnext v" "v_name v' = v_name v" "v_lease v' = v_lease v"
    and "\<And>h. h \<noteq> t_handle t \<Longrightarrow> v_cur v' h = v_cur v h \<and> v_live v' h = v_live v h"
  shows "inv_reg v' (add_mset t' T)"
proof -
  note h = leased_registered [OF assms(1)]
  have "v_cur v' k = None \<and> v_live v' k = None"
    if k: "k < v_hnext v" "v_reg v (v_name v k) \<noteq> Some k" for k
  proof -
    have "k \<noteq> t_handle t" using k(2) h(2) by blast
    then show ?thesis using assms(7) inv_regD(4,5) [OF assms(1) k] by simp
  qed
  moreover have "lease_count (add_mset t' T) k \<noteq> 0 \<or> v_cur v' k \<noteq> None \<or> v_live v' k \<noteq> None"
    if "v_reg v n = Some k" for n k
    using inv_regD(8) [OF assms(1) that] assms(2) assms(7) [of k] by (cases "k = t_handle t") simp_all
  ultimately show ?thesis
    using assms(1-6) unfolding inv_reg_def by (simp add: lease_add)
qed

lemma inv_transfer:
  assumes "inv v (add_mset t T)" and "t_handle t' = t_handle t"
    and "v_reg v' = v_reg v" "v_hnext v' = v_hnext v" "v_name v' = v_name v" "v_lease v' = v_lease v"
    and "\<And>h. h \<noteq> t_handle t \<Longrightarrow> v_cur v' h = v_cur v h \<and> v_live v' h = v_live v h"
    and "inv_ptr v' (add_mset t' T)"
    and "\<And>g. (if held v' g then 1 else 0) + (if t_slot t' = Some g then 1 else 0)
            = (if held v g then 1 else (0::nat)) + (if t_slot t = Some g then 1 else 0)"
    and "t_bytes t' = t_slot t'" "t_bytes t = t_slot t" and "t_resv t' = t_resv t"
    and "v_gnext v' = v_gnext v" "v_size v' = v_size v" "v_bytes v' = v_bytes v" "v_clips v' = v_clips v"
  shows "inv v' (add_mset t' T)"
proof -
  have s: "owners t_slot v' (add_mset t' T) g = owners t_slot v (add_mset t T) g" for g
    using assms(9) [of g] by (simp add: owners_def)
  have b: "owners t_bytes v' (add_mset t' T) g = owners t_bytes v (add_mset t T) g" for g
    using assms(9) [of g] assms(10,11) by (simp add: owners_def)
  have "inv_reg v' (add_mset t' T)"
    using invD(1) [OF assms(1)] by (rule inv_reg_frame) (use assms in simp_all)
  moreover have "inv_own v' (add_mset t' T)"
    using invD(3) [OF assms(1)] s assms(13) by (rule inv_own_move)
  moreover have "inv_quota v' (add_mset t' T)"
    using invD(4) [OF assms(1)] b s assms(13-16) by (rule inv_quota_move) (simp add: assms(12))
  ultimately show ?thesis using assms(8) by (simp add: inv_def)
qed

lemma held_upd:
  assumes "inv_reg v (add_mset t T)" and "h = t_handle t"
    and "v_reg v' = v_reg v" and "v_gname v' = v_gname v" and "v_cur v' = (v_cur v)(h := x)"
    and "\<And>g. v_gname v g \<noteq> v_name v h \<Longrightarrow> v_st v' g = v_st v g"
  shows "held v' g \<longleftrightarrow>
    (if v_gname v g = v_name v h then x = Some g \<and> v_st v' g = genFinalized else held v g)"
proof -
  note r = leased_registered(2) [OF assms(1), folded assms(2)]
  show ?thesis
    using r assms(3-6) held_other [OF assms(1) r, of g]
    by (auto simp: held_def)
qed

lemma inv_own_le:
  assumes "inv_own v T"
  shows "owners t_slot v T g \<le> 1" and "owners t_slot v T g \<noteq> 0 \<Longrightarrow> g < v_gnext v"
proof -
  have "owners t_slot v T g \<le> (if g < v_gnext v then 1 else 0)" using assms by (simp add: inv_own_def)
  then show "owners t_slot v T g \<le> 1" "owners t_slot v T g \<noteq> 0 \<Longrightarrow> g < v_gnext v"
    by (simp_all split: if_splits)
qed

text \<open>Ownership is exclusive.\<close>

lemma slot_alone:
  assumes "inv_own v (add_mset t T)" and "t_slot t = Some g" and "t' \<in># T"
  shows "t_slot t' \<noteq> Some g" and "\<not> held v g"
proof -
  have le: "owners t_slot v (add_mset t T) g \<le> 1" using inv_own_le(1) [OF assms(1)] .
  then have "tally t_slot T g = 0" using assms(2) by (simp add: owners_def)
  then show "t_slot t' \<noteq> Some g" using tally_zero assms(3) by fastforce
  show "\<not> held v g" using le assms(2) by (simp add: owners_def split: if_splits)
qed

lemma t_writer_slot: "t_writer t = Some g \<Longrightarrow> t_slot t = Some g"
  by (cases t) auto

lemma writer_alone:
  assumes "inv v (add_mset t T)" and "t_writer t = Some g" and "t' \<in># T" and "t_writer t' \<noteq> None"
  shows "t_handle t' \<noteq> t_handle t"
proof
  assume eq: "t_handle t' = t_handle t"
  note ptr = invD(2) [OF assms(1)]
  have "v_live v (t_handle t) = Some g"
    using inv_ptrD(7) [OF ptr, of t] assms(2) by (simp add: task_ok_def)
  moreover have "v_live v (t_handle t') = t_writer t'"
    using inv_ptrD(7) [OF ptr, of t'] assms(3,4) by (simp add: task_ok_def)
  ultimately have "t_writer t' = Some g" using eq by metis
  then have "t_slot t' = Some g" by (rule t_writer_slot)
  then show False
    using slot_alone(1) [OF invD(3) [OF assms(1)] t_writer_slot [OF assms(2)] assms(3)] by simp
qed

lemma inv_flip:
  assumes i: "inv v (add_mset (TFlip wr) T)" and p: "prev = va_prev (wr_h wr) v"
    and same: "wr_h wr' = wr_h wr"
  shows "inv (va_flip (wr_h wr) (wr_g wr) v) (add_mset (TFinish wr' prev) T)"
proof -
  let ?h = "wr_h wr" and ?g = "wr_g wr" and ?v = "va_flip (wr_h wr) (wr_g wr) v"
  note reg = invD(1) [OF i] and ptr = invD(2) [OF i] and own = invD(3) [OF i]
  note h = leased_registered [OF reg, simplified]
  have live: "v_live v ?h = Some ?g" using inv_ptrD(7) [OF ptr, of "TFlip wr"] by (simp add: task_ok_def)
  note lv = inv_ptrD(4,5,6) [OF ptr h(1) live]
  have held: "held ?v g \<longleftrightarrow> (if v_gname v g = v_name v ?h then g = ?g else held v g)" for g
  proof -
    have "v_st ?v g = v_st v g" if "v_gname v g \<noteq> v_name v ?h" for g
      using that lv(2) by (auto simp: va_flip_def)
    then have "held ?v g \<longleftrightarrow>
        (if v_gname v g = v_name v ?h then Some ?g = Some g \<and> v_st ?v g = genFinalized else held v g)"
      by (intro held_upd [OF reg]) (simp_all add: va_flip_def)
    then show ?thesis by (auto simp: va_flip_def)
  qed
  have old: "held v g \<longleftrightarrow> v_cur v ?h = Some g \<and> v_st v g = genFinalized" if "v_gname v g = v_name v ?h" for g
    using held_iff_current [OF reg ptr h(1,2) that] .
  have cur: "prev = Some c \<longleftrightarrow> v_cur v ?h = Some c \<and> v_st v c = genFinalized" for c
  proof (cases "v_cur v ?h")
    case None
    then show ?thesis by (simp add: p va_prev_def)
  next
    case (Some d)
    then have "v_st v d \<noteq> genLive" by (rule inv_ptrD(3) [OF ptr h(1)])
    then show ?thesis using Some by (cases "v_st v d") (auto simp: p va_prev_def)
  qed
  have name: "prev = Some c \<Longrightarrow> v_gname v c = v_name v ?h" for c
    using cur inv_ptrD(2) [OF ptr h(1)] by blast
  have count: "(if held ?v g then 1 else 0) + (if prev = Some g then 1 else 0)
      = (if held v g then 1 else (0::nat)) + (if ?g = g then 1 else 0)" for g
  proof (cases "v_gname v g = v_name v ?h")
    case True
    then show ?thesis using held [of g] old [OF True] cur [of g] lv(3) by auto
  next
    case False
    then show ?thesis using held [of g] name [of g] lv(2) by auto
  qed
  have alone: "v_live v k \<noteq> Some ?g" if "k \<noteq> ?h" "k < v_hnext v" for k
  proof
    assume k: "v_live v k = Some ?g"
    then have "v_name v k = v_name v ?h" using inv_ptrD(5) [OF ptr that(2) k] lv(2) by simp
    moreover have "v_reg v (v_name v k) = Some k" using inv_regD(5) [OF reg that(2)] k by fastforce
    ultimately show False using h(2) that(1) by simp
  qed
  have tasks: "task_ok ?v t" if "t \<in># T" for t
  proof -
    have ok: "task_ok v t" using inv_ptrD(7) [OF ptr] that by simp
    have "t_writer t \<noteq> None \<Longrightarrow> t_handle t \<noteq> ?h"
      using writer_alone [OF i _ that] by simp
    moreover have "t_cleans t \<noteq> None \<Longrightarrow> the (t_cleans t) \<noteq> ?g"
      using ok lv(3) by (auto simp: task_ok_def)
    ultimately show ?thesis using ok by (auto simp: task_ok_def va_flip_def)
  qed
  have ptr': "inv_ptr ?v (add_mset (TFinish wr' prev) T)"
    using ptr lv tasks alone
    by (auto simp: inv_ptr_def va_flip_def task_ok_def)
  show ?thesis
    by (rule inv_transfer [OF i _ _ _ _ _ _ ptr']) (use same count in \<open>simp_all add: va_flip_def\<close>)
qed

lemma inv_detach:
  assumes i: "inv v (add_mset (TDiscard wr) T)" and same: "wr_h wr' = wr_h wr" "wr_g wr' = wr_g wr"
  shows "inv (va_detach (wr_h wr) v) (add_mset (TFail wr') T)"
proof -
  let ?h = "wr_h wr" and ?v = "va_detach (wr_h wr) v"
  note ptr = invD(2) [OF i]
  have tasks: "task_ok ?v t" if "t \<in># T" for t
  proof -
    have "task_ok v t" using inv_ptrD(7) [OF ptr] that by simp
    moreover have "t_writer t \<noteq> None \<Longrightarrow> t_handle t \<noteq> ?h"
      using writer_alone [OF i _ that] by simp
    ultimately show ?thesis by (auto simp: task_ok_def va_detach_def)
  qed
  have held: "held ?v g = held v g" for g by (simp add: held_def va_detach_def)
  have ptr': "inv_ptr ?v (add_mset (TFail wr') T)"
    using ptr tasks by (auto simp: inv_ptr_def va_detach_def task_ok_def)
  show ?thesis
    by (rule inv_transfer [OF i _ _ _ _ _ _ ptr']) (use same held in \<open>simp_all add: va_detach_def\<close>)
qed

lemma inv_clear:
  assumes i: "inv v (add_mset (TClear h g) T)"
  shows "inv (va_clear h g v) (add_mset (TRelease h) T)"
proof (cases "v_cur v h = Some g")
  case False
  then show ?thesis using inv_relabel [OF i, of "TRelease h"] by (simp add: va_clear_def)
next
  case True
  let ?v = "va_clear h g v"
  note reg = invD(1) [OF i] and ptr = invD(2) [OF i]
  note h = leased_registered [OF reg, simplified]
  have cons: "v_st v g = genConsumed"
    using inv_ptrD(7) [OF ptr, of "TClear h g"] by (simp add: task_ok_def)
  have v: "?v = v\<lparr>v_cur := (v_cur v)(h := None)\<rparr>" using True by (simp add: va_clear_def)
  have held: "held ?v k = held v k" for k
  proof -
    have "held ?v k \<longleftrightarrow> (if v_gname v k = v_name v h then None = Some k \<and> v_st ?v k = genFinalized else held v k)"
      by (intro held_upd [OF reg]) (simp_all add: v)
    then show ?thesis
      using held_iff_current [OF reg ptr h, of k] True cons by auto
  qed
  have ptr': "inv_ptr ?v (add_mset (TRelease h) T)"
    using ptr by (auto simp: inv_ptr_def v task_ok_def)
  show ?thesis
    by (rule inv_transfer [OF i _ _ _ _ _ _ ptr']) (use held in \<open>simp_all add: v\<close>)
qed

lemma inv_retire:
  assumes i: "inv v (add_mset t T)" and r: "va_retire h r v v'" and h: "t_handle t = h"
    and t: "t_slot t = None" "t_bytes t = None" "t_resv t = 0"
  shows "inv v' (add_mset (reclaim_then h r False) T)"
proof (cases r)
  case None
  then have "v' = v" using r by (simp add: va_retire_def)
  then show ?thesis using inv_relabel [OF i, of "TRelease h"] None h t by (simp add: reclaim_then_def)
next
  case (Some c)
  note reg = invD(1) [OF i] and ptr = invD(2) [OF i]
  note hh = leased_registered [OF reg, unfolded h]
  have c: "v_cur v h = Some c" "v_st v c = genFinalized" and v: "v' = v\<lparr>v_cur := (v_cur v)(h := None)\<rparr>"
    using r Some by (simp_all add: va_retire_def)
  have name: "v_gname v c = v_name v h" using inv_ptrD(2) [OF ptr hh(1) c(1)] .
  have held: "held v' k \<longleftrightarrow> held v k \<and> k \<noteq> c" and hc: "held v c" for k
  proof -
    have "held v' k \<longleftrightarrow> (if v_gname v k = v_name v h then None = Some k \<and> v_st v' k = genFinalized else held v k)"
      using h by (intro held_upd [OF reg]) (simp_all add: v)
    then show "held v' k \<longleftrightarrow> held v k \<and> k \<noteq> c"
      using held_iff_current [OF reg ptr hh, of k] c name by auto
    show "held v c" using held_iff_current [OF reg ptr hh name] c by simp
  qed
  have ptr': "inv_ptr v' (add_mset (TRemove h c False) T)"
    using ptr by (auto simp: inv_ptr_def v task_ok_def)
  have "inv v' (add_mset (TRemove h c False) T)"
    by (rule inv_transfer [OF i _ _ _ _ _ _ ptr']) (use held hc h t in \<open>auto simp: v\<close>)
  then show ?thesis by (simp add: Some reclaim_then_def)
qed

lemma inv_claim:
  assumes i: "inv v (add_mset (TOpen os) T)" and o: "va_opened (os_h os) r v v'"
    and t: "t_handle t = os_h os" "t_slot t = r" "t_bytes t = r" "t_resv t = 0" "t_writer t = None"
    "t_cleans t = r" "t_named t = None"
  shows "inv v' (add_mset t T)"
proof (cases r)
  case None
  then have "v' = v" using o by (simp add: va_opened_def)
  then show ?thesis using inv_relabel [OF i, of t] None t by simp
next
  case (Some g)
  let ?h = "os_h os"
  note reg = invD(1) [OF i] and ptr = invD(2) [OF i]
  note h = leased_registered [OF reg, simplified]
  have c: "v_cur v ?h = Some g" "v_st v g = genFinalized" and v: "v' = va_claim g v"
    using o Some by (simp_all add: va_opened_def)
  have name: "v_gname v g = v_name v ?h" using inv_ptrD(2) [OF ptr h(1) c(1)] .
  have lt: "g < v_gnext v" using inv_ptrD(1) [OF ptr h(1) c(1)] .
  have held: "held v' k \<longleftrightarrow> held v k \<and> k \<noteq> g" for k
    by (auto simp: held_def v va_claim_def)
  have hg: "held v g" using held_iff_current [OF reg ptr h name] c by simp
  have tasks: "task_ok v' u" if "u \<in># T" for u
    using inv_ptrD(7) [OF ptr, of u] that by (auto simp: task_ok_def v va_claim_def)
  have ptr': "inv_ptr v' (add_mset t T)"
    using ptr tasks c t Some lt by (auto simp: inv_ptr_def v va_claim_def task_ok_def)
  show ?thesis
    by (rule inv_transfer [OF i _ _ _ _ _ _ ptr']) (use held hg t Some in \<open>auto simp: v va_claim_def\<close>)
qed

subsection \<open>Steps that move the counters\<close>

text \<open>The installed generation is new: nothing owned its address, and its size is zero.\<close>

lemma inv_install:
  assumes i: "inv v (add_mset (TAdmit h name m po) T)" and none: "v_live v h = None"
    and t: "t_handle t = h" "t_slot t = Some (v_gnext v)" "t_bytes t = Some (v_gnext v)" "t_resv t = 0"
    "t_writer t = Some (v_gnext v)" "t_cleans t = None" "t_named t = None"
  shows "inv (va_install h name cons v) (add_mset t T)"
proof -
  let ?g = "v_gnext v" and ?v = "va_install h name cons v"
  note reg = invD(1) [OF i] and ptr = invD(2) [OF i] and own = invD(3) [OF i] and quo = invD(4) [OF i]
  note hh = leased_registered [OF reg, simplified]
  have fld: "v_reg ?v = v_reg v" "v_hnext ?v = v_hnext v" "v_name ?v = v_name v" "v_lease ?v = v_lease v"
    "v_cur ?v = v_cur v" "v_live ?v = (v_live v)(h := Some ?g)" "v_gnext ?v = Suc ?g"
    "v_gname ?v = (v_gname v)(?g := name)" "v_st ?v = (v_st v)(?g := genLive)"
    "v_size ?v = (v_size v)(?g := 0)" "v_bytes ?v = v_bytes v" "v_clips ?v = v_clips v + 1"
    by (simp_all add: va_install_def Let_def)
  have name: "v_name v h = name"
    using inv_ptrD(7) [OF ptr, of "TAdmit h name m po"] by (simp add: task_ok_def)
  have fresh: "owners t_slot v (add_mset (TAdmit h name m po) T) ?g = 0"
    using inv_own_le(2) [OF own, of ?g] by fastforce
  then have f0: "\<not> held v ?g" "tally t_slot T ?g = 0" by (simp_all add: owners_def split: if_splits)
  have cur: "v_cur v k \<noteq> Some ?g" if "k < v_hnext v" for k
    using inv_ptrD(1) [OF ptr that, of ?g] by auto
  have held: "held ?v g = held v g" for g
  proof (cases "g = ?g")
    case True
    then show ?thesis using f0 by (simp add: held_def fld)
  next
    case False
    then show ?thesis by (simp add: held_def fld)
  qed
  have own': "owners t_slot ?v (add_mset t T) g
      = owners t_slot v (add_mset (TAdmit h name m po) T) g + (if g = ?g then 1 else 0)" for g
    by (simp add: owners_def held t)
  have ownb: "owners t_bytes ?v (add_mset t T) g
      = owners t_bytes v (add_mset (TAdmit h name m po) T) g + (if g = ?g then 1 else 0)" for g
    by (simp add: owners_def held t)
  have "inv_reg ?v (add_mset t T)"
    using reg by (rule inv_reg_frame) (simp_all add: fld t)
  moreover have "inv_ptr ?v (add_mset t T)"
  proof -
    have tasks: "task_ok ?v u" if u: "u \<in># T" for u
    proof -
      have ok: "task_ok v u" using inv_ptrD(7) [OF ptr] u by simp
      have "t_writer u \<noteq> None \<Longrightarrow> t_handle u \<noteq> h"
        using ok none by (auto simp: task_ok_def)
      moreover have "t_cleans u \<noteq> None \<Longrightarrow> the (t_cleans u) \<noteq> ?g"
        using ok by (auto simp: task_ok_def)
      ultimately show ?thesis using ok by (auto simp: task_ok_def fld)
    qed
    show ?thesis
      unfolding inv_ptr_def
    proof (intro conjI allI impI ballI)
      fix k c assume a: "k < v_hnext ?v \<and> v_cur ?v k = Some c"
      then have k: "k < v_hnext v" "v_cur v k = Some c" by (simp_all add: fld)
      show "c < v_gnext ?v" "v_gname ?v c = v_name ?v k" "v_st ?v c \<noteq> genLive"
        using inv_ptrD(1-3) [OF ptr k] by (simp_all add: fld)
    next
      fix k l assume a: "k < v_hnext ?v \<and> v_live ?v k = Some l"
      then have k: "k < v_hnext v" by (simp add: fld)
      show "l < v_gnext ?v" "v_gname ?v l = v_name ?v k" "v_st ?v l = genLive"
        using a inv_ptrD(4-6) [OF ptr k, of l] name by (cases "k = h"; auto simp: fld)+
    next
      fix u assume "u \<in># add_mset t T"
      moreover have "task_ok ?v t" using t by (simp add: task_ok_def fld)
      ultimately show "task_ok ?v u" using tasks by auto
    qed
  qed
  moreover have "inv_own ?v (add_mset t T)"
    unfolding inv_own_def own' fld
  proof
    fix g
    show "owners t_slot v (add_mset (TAdmit h name m po) T) g + (if g = ?g then 1 else 0)
        \<le> (if g < Suc ?g then 1 else 0)"
      using inv_own_le [OF own, of g] fresh by (auto simp: less_Suc_eq)
  qed
  moreover have "inv_quota ?v (add_mset t T)"
  proof -
    have b: "(\<Sum>g < v_gnext ?v. of_nat (owners t_bytes ?v (add_mset t T) g) * v_size ?v g)
        = (\<Sum>g < ?g. of_nat (owners t_bytes v (add_mset (TAdmit h name m po) T) g) * v_size v g)"
      unfolding fld lessThan_Suc by (simp add: ownb fld)
    have c: "(\<Sum>g < v_gnext ?v. of_nat (owners t_slot ?v (add_mset t T) g))
        = (\<Sum>g < ?g. of_nat (owners t_slot v (add_mset (TAdmit h name m po) T) g)) + (1 :: int64)"
      unfolding fld lessThan_Suc using fresh by (simp add: own')
    show ?thesis
      unfolding inv_quota_def b c using quo by (simp add: inv_quota_def fld t)
  qed
  ultimately show ?thesis by (simp add: inv_def)
qed

text \<open>The structural invariants do not look at sizes and counters.\<close>

lemma inv_shape:
  assumes i: "inv v (add_mset t T)"
    and same: "v_reg v' = v_reg v" "v_hnext v' = v_hnext v" "v_name v' = v_name v" "v_lease v' = v_lease v"
    "v_cur v' = v_cur v" "v_live v' = v_live v" "v_gnext v' = v_gnext v" "v_gname v' = v_gname v"
    "v_st v' = v_st v"
    and t: "t_handle t' = t_handle t" "t_slot t' = None \<or> t_slot t' = t_slot t"
    "t_writer t' = None \<or> t_writer t' = t_writer t" "t_cleans t' = None \<or> t_cleans t' = t_cleans t"
    "t_named t' = None"
  shows "inv_reg v' (add_mset t' T)" and "inv_ptr v' (add_mset t' T)" and "inv_own v' (add_mset t' T)"
    and "held v' = held v"
proof -
  show held: "held v' = held v" by (simp add: held_def same fun_eq_iff)
  show "inv_reg v' (add_mset t' T)"
    using invD(1) [OF i] by (rule inv_reg_frame) (simp_all add: same t)
  have tasks: "task_ok v' u" if "u \<in># T" for u
    using inv_ptrD(7) [OF invD(2) [OF i], of u] that by (simp add: task_ok_def same)
  have "task_ok v' t'"
    using inv_ptrD(7) [OF invD(2) [OF i], of t] t by (auto simp: task_ok_def same)
  then show "inv_ptr v' (add_mset t' T)"
    using invD(2) [OF i] tasks unfolding inv_ptr_def same by auto
  have "owners t_slot v' (add_mset t' T) g \<le> owners t_slot v (add_mset t T) g" for g
    using t(2) by (auto simp: owners_def held)
  then show "inv_own v' (add_mset t' T)"
    using invD(3) [OF i] unfolding inv_own_def same by (meson order.trans)
qed

lemma inv_reserve:
  assumes i: "inv v (add_mset (TWriter wr) T)"
  shows "inv (v\<lparr>v_bytes := v_bytes v + word_of_nat (length p)\<rparr>) (add_mset (TReserved wr p) T)"
proof -
  note s = inv_shape [OF i, where t' = "TReserved wr p" and v' = "v\<lparr>v_bytes := v_bytes v + word_of_nat (length p)\<rparr>", simplified]
  have "inv_quota (v\<lparr>v_bytes := v_bytes v + word_of_nat (length p)\<rparr>) (add_mset (TReserved wr p) T)"
    using invD(4) [OF i] s(4) by (simp add: inv_quota_def owners_def)
  then show ?thesis using s by (simp add: inv_def)
qed

lemma inv_tail:
  assumes i: "inv v (add_mset (TTail wr n) T)"
  shows "inv (v\<lparr>v_bytes := v_bytes v - n\<rparr>) (add_mset (TWriter wr) T)"
proof -
  note s = inv_shape [OF i, where t' = "TWriter wr" and v' = "v\<lparr>v_bytes := v_bytes v - n\<rparr>", simplified]
  have "inv_quota (v\<lparr>v_bytes := v_bytes v - n\<rparr>) (add_mset (TWriter wr) T)"
    using invD(4) [OF i] s(4) by (simp add: inv_quota_def owners_def)
  then show ?thesis using s by (simp add: inv_def)
qed

text \<open>A weighted count changes by the weight when one member's multiplicity or weight does.\<close>

lemma wsum_upd:
  fixes f :: "nat \<Rightarrow> nat" and w :: "nat \<Rightarrow> int64"
  assumes "g < n" and "\<And>k. k \<noteq> g \<Longrightarrow> f' k = f k \<and> w' k = w k"
  shows "(\<Sum>k < n. of_nat (f' k) * w' k) = (\<Sum>k < n. of_nat (f k) * w k) - of_nat (f g) * w g + of_nat (f' g) * w' g"
proof -
  have "(\<lambda>k. of_nat (f' k) * w' k) = (\<lambda>k. of_nat (f k) * w k)(g := of_nat (f' g) * w' g)"
    using assms(2) by (auto simp: fun_eq_iff)
  then have "(\<Sum>k < n. of_nat (f' k) * w' k)
      = sum ((\<lambda>k. of_nat (f k) * w k)(g := of_nat (f' g) * w' g)) {..<n}" by (simp only:)
  also have "\<dots> = (\<Sum>k < n. of_nat (f k) * w k) - of_nat (f g) * w g + of_nat (f' g) * w' g"
    by (rule sum_update_one) (simp_all add: assms(1))
  finally show ?thesis .
qed

lemma inv_appended:
  assumes i: "inv v (add_mset (TReserved wr p) T)" and g: "g = wr_g wr"
    and t: "t' = TWriter wr' \<and> word_of_nat k = (word_of_nat (length p) :: int64)
      \<or> t' = TTail wr' (word_of_nat (length p) - word_of_nat k)"
    and wr': "wr_h wr' = wr_h wr" "wr_g wr' = wr_g wr"
  shows "inv (va_grow g (word_of_nat k) v) (add_mset t' T)"
proof -
  let ?v = "va_grow g (word_of_nat k) v" and ?t = "TReserved wr p"
  have t': "t_handle t' = wr_h wr" "t_slot t' = Some g" "t_bytes t' = Some g" "t_writer t' = Some g"
    "t_cleans t' = None" "t_resv t' = word_of_nat (length p) - word_of_nat k" "t_named t' = None"
    using t wr' g by auto
  have gg: "wr_g wr = g" using g by simp
  have fld: "v_reg ?v = v_reg v" "v_hnext ?v = v_hnext v" "v_name ?v = v_name v" "v_lease ?v = v_lease v"
    "v_cur ?v = v_cur v" "v_live ?v = v_live v" "v_gnext ?v = v_gnext v" "v_gname ?v = v_gname v"
    "v_st ?v = v_st v" "v_bytes ?v = v_bytes v" "v_clips ?v = v_clips v"
    "v_size ?v = (v_size v)(g := v_size v g + word_of_nat k)"
    by (simp_all add: va_grow_def)
  have s: "inv_reg ?v (add_mset t' T)" "inv_ptr ?v (add_mset t' T)" "inv_own ?v (add_mset t' T)"
    "held ?v = held v"
    using inv_shape [OF i, where t' = t' and v' = ?v] by (simp_all add: fld t' gg)
  have own: "owners t_bytes ?v (add_mset t' T) = owners t_bytes v (add_mset ?t T)"
    "owners t_slot ?v (add_mset t' T) = owners t_slot v (add_mset ?t T)"
    by (simp_all add: owners_def s(4) t' gg fun_eq_iff)
  have "owners t_slot v (add_mset ?t T) g \<noteq> 0" by (simp add: owners_def gg)
  then have lt: "g < v_gnext v" using inv_own_le(2) [OF invD(3) [OF i]] by blast
  have "owners t_bytes v (add_mset ?t T) g \<noteq> 0" by (simp add: owners_def gg)
  moreover have "owners t_bytes v (add_mset ?t T) g \<le> 1"
    using owners_bytes_le inv_own_le(1) [OF invD(3) [OF i]] by (rule order.trans)
  ultimately have one: "owners t_bytes v (add_mset ?t T) g = 1" by simp
  have "(\<Sum>k < v_gnext v. of_nat (owners t_bytes v (add_mset ?t T) k) * v_size ?v k)
      = (\<Sum>k < v_gnext v. of_nat (owners t_bytes v (add_mset ?t T) k) * v_size v k) + word_of_nat k"
    using wsum_upd [OF lt, of "owners t_bytes v (add_mset ?t T)" "owners t_bytes v (add_mset ?t T)" "v_size ?v" "v_size v"]
    by (simp add: fld one)
  then have "inv_quota ?v (add_mset t' T)"
    using invD(4) [OF i] unfolding inv_quota_def own by (simp add: fld t')
  then show ?thesis using s by (simp add: inv_def)
qed

lemma inv_bytes:
  assumes i: "inv v (add_mset (TBytes h g c) T)"
  shows "inv (v\<lparr>v_bytes := v_bytes v - v_size v g\<rparr>) (add_mset (TClip h g c) T)"
proof -
  let ?v = "v\<lparr>v_bytes := v_bytes v - v_size v g\<rparr>" and ?t = "TBytes h g c"
  note s = inv_shape [OF i, where t' = "TClip h g c" and v' = ?v, simplified]
  have "owners t_slot v (add_mset ?t T) g \<noteq> 0" by (simp add: owners_def)
  then have lt: "g < v_gnext v" using inv_own_le(2) [OF invD(3) [OF i]] by blast
  have own: "owners t_bytes v (add_mset ?t T) k
      = owners t_bytes v (add_mset (TClip h g c) T) k + (if k = g then 1 else 0)" for k
    by (simp add: owners_def)
  have "(\<Sum>k < v_gnext v. of_nat (owners t_bytes v (add_mset (TClip h g c) T) k) * v_size v k)
      = (\<Sum>k < v_gnext v. of_nat (owners t_bytes v (add_mset ?t T) k) * v_size v k) - v_size v g"
    using wsum_upd [OF lt, of "owners t_bytes v (add_mset (TClip h g c) T)" "owners t_bytes v (add_mset ?t T)" "v_size v" "v_size v"]
    by (simp add: own algebra_simps)
  then have "inv_quota ?v (add_mset (TClip h g c) T)"
    using invD(4) [OF i] s(4) by (simp add: inv_quota_def owners_def)
  then show ?thesis using s by (simp add: inv_def)
qed

lemma inv_clip:
  assumes i: "inv v (add_mset (TClip h g c) T)"
  shows "inv (v\<lparr>v_clips := v_clips v - 1\<rparr>) (add_mset (if c then TClear h g else TRelease h) T)"
proof -
  let ?v = "v\<lparr>v_clips := v_clips v - 1\<rparr>" and ?t = "TClip h g c" and ?u = "if c then TClear h g else TRelease h"
  have u: "t_handle ?u = h" "t_slot ?u = None" "t_bytes ?u = None" "t_writer ?u = None"
    "t_cleans ?u = (if c then Some g else None)" "t_resv ?u = 0" "t_named ?u = None"
    by simp_all
  note s = inv_shape [OF i, where t' = ?u and v' = ?v, simplified u, simplified]
  have "owners t_slot v (add_mset ?t T) g \<noteq> 0" by (simp add: owners_def)
  then have lt: "g < v_gnext v" using inv_own_le(2) [OF invD(3) [OF i]] by blast
  have own: "owners t_slot v (add_mset ?t T) k = owners t_slot v (add_mset ?u T) k + (if k = g then 1 else 0)" for k
    using u(2) by (simp add: owners_def)
  have b: "owners t_bytes v (add_mset ?t T) k = owners t_bytes v (add_mset ?u T) k" for k
    using u(3) by (simp add: owners_def)
  have ov: "owners f ?v M k = owners f v M k" for f :: "'a task \<Rightarrow> gref option" and M k
    using s(4) by (simp add: owners_def)
  have "(\<Sum>k < v_gnext v. of_nat (owners t_slot v (add_mset ?u T) k))
      = (\<Sum>k < v_gnext v. of_nat (owners t_slot v (add_mset ?t T) k)) - (1 :: int64)"
    using wsum_upd [OF lt, of "owners t_slot v (add_mset ?u T)" "owners t_slot v (add_mset ?t T)" "\<lambda>_. 1" "\<lambda>_. 1"]
    by (simp add: own)
  then have "inv_quota ?v (add_mset ?u T)"
    using invD(4) [OF i] u(6) unfolding inv_quota_def ov b by simp
  then show ?thesis using s by (simp add: inv_def)
qed

end
