(* ===== verification/StoreSafety.thy ===== *)
theory StoreSafety imports StoreInv begin

text \<open>
  Every step keeps the store's invariants, so every run of the concurrent store does; the store's
  safety properties are read off them.
\<close>

lemma reclaim_then_None [simp]: "reclaim_then h None c = TRelease h"
  by (simp add: reclaim_then_def)

lemma reclaim_then_Some [simp]: "reclaim_then h (Some g) c = TRemove h g c"
  by (simp add: reclaim_then_def)

lemma open_begin_acquire:
  assumes "open_begin name go ctx s = (s', Inr os)"
  shows "acquire name s = (s', os_h os)"
  using assms by (auto simp: open_begin_def split: option.splits prod.splits)

lemma leased_Read_fields:
  "leased_Read M ctx len l s = (s', l', out) \<Longrightarrow>
     lr_h l' = lr_h l \<and> lr_cleanup l' = lr_cleanup l \<and> lr_g l' = lr_g l \<and> lr_once l' = lr_once l"
  by (auto simp: leased_Read_def Let_def split: prod.splits if_splits reader.splits)

text \<open>A new task on a freshly acquired lease.\<close>

lemma inv_start:
  assumes "inv (view s) T" and "acquire name s = (s', h)" and "t_handle t = h"
    and "t_slot t = None" "t_writer t = None" "t_cleans t = None" "t_resv t = 0"
    and "t_named t = None \<or> t_named t = Some name"
  shows "inv (view s') (add_mset t T)"
  using inv_acquire [of "view s" T t name] assms view_acquire [OF assms(2)] by simp

context medium_contract
begin

lemma sched_inv:
  assumes "sched M c e c'" and "inv (view (fst c)) (snd c)"
  shows "inv (view (fst c')) (snd c')"
  using assms
proof (cases rule: sched.cases)
  case (start_create name s s' h T m po)
  then show ?thesis using assms(2) inv_start [of s T name s' h "TAdmit h name (Normalized m) po"] by simp
next
  case (start_open name go ctx s s' os T)
  then show ?thesis
    using assms(2) inv_start [of s T name s' "os_h os" "TOpen os"] open_begin_acquire [OF start_open(4)] by simp
next
  case (start_delete name s s' h T)
  then show ?thesis using assms(2) inv_start [of s T name s' h "TDelete h"] by simp
next
  case (start_stat name s s' h T)
  then show ?thesis using assms(2) inv_start [of s T name s' h "TRelease h"] by simp
next
  case (start_reap name s s' h T cid now)
  then show ?thesis using assms(2) inv_start [of s T name s' h "TReap h cid now"] by simp
next
  case (sweep_window now prior s s' b T)
  then show ?thesis using assms(2) view_reclaim_claim by fastforce
next
  case (admit_ok h name m po now rnd s s' r T)
  note ok = view_admit_ok [OF admit_ok(4)]
  have i: "inv (view s) (add_mset (TAdmit h name m po) T)" using assms(2) admit_ok by simp
  have "inv (va_install h name (po_ConsumeOnce po) (view s)) (add_mset (TWriter (new_writer h (the r))) T)"
    using inv_install [OF i, of "TWriter (new_writer h (the r))" "po_ConsumeOnce po"] ok(1,2) by (simp add: new_writer_def)
  then show ?thesis using admit_ok ok(3) by simp
next
  case (admit_no h name m po now rnd s s' r ea T)
  then show ?thesis
    using assms(2) view_admit_error inv_relabel [of "view s" "TAdmit h name m po" T "TRelease h"] by fastforce
next
  case (write_reserve wr p s s' T)
  then show ?thesis using assms(2) inv_reserve [of "view s" wr T p] view_reserve by fastforce
next
  case (write_append_full wr p s s' k ea T)
  note a = view_append [OF write_append_full(4)]
  have "sint (word_of_nat k :: int64) = int k" "sint (word_of_nat (length p) :: int64) = int (length p)"
    using write_append_full(5) a(2) by (intro sint64_of_nat; simp)+
  then have "k = length p" using write_append_full(6) a(2) by simp
  then show ?thesis
    using assms(2) write_append_full(1-3) a inv_appended [of "view s" wr p T "wr_g wr" _ "wr\<lparr>written := written wr + word_of_nat k\<rparr>" k]
    by simp
next
  case (write_append_short wr p s s' k ea T)
  note a = view_append [OF write_append_short(4)]
  show ?thesis
    using assms(2) write_append_short a inv_appended [of "view s" wr p T "wr_g wr" _ "wr\<lparr>written := written wr + word_of_nat k\<rparr>" k]
    by simp
next
  case (write_tail s wr n T)
  then show ?thesis using assms(2) inv_tail [of "view s" wr n T] by (simp add: view_return_tail)
next
  case (close_stamp s wr T now)
  then show ?thesis
    using assms(2) inv_relabel [of "view s" "TWriter wr" T "TSync wr"] by (simp add: view_stamp)
next
  case (close_sync_ok wr s s' T)
  have "view s' = view s"
    by (rule view_buf_terminal [OF close_sync_ok(4)]) (rule bsize_terminals(1))
  then show ?thesis using assms(2) close_sync_ok(1-3) inv_relabel [of "view s" "TSync wr" T "TFinalize wr"] by simp
next
  case (close_sync_fail wr s s' ea T)
  have "view s' = view s"
    by (rule view_buf_terminal [OF close_sync_fail(4)]) (rule bsize_terminals(1))
  then show ?thesis using assms(2) close_sync_fail(1-3) inv_relabel [of "view s" "TSync wr" T "TDiscard wr"] by simp
next
  case (close_finalize_ok wr s s' ca T)
  have "view s' = view s" by (rule view_finalize_medium [OF close_finalize_ok(4)])
  then show ?thesis using assms(2) close_finalize_ok(1-3) inv_relabel [of "view s" "TFinalize wr" T "TFlip wr"] by simp
next
  case (close_finalize_fail wr s s' ca ea T)
  have "view s' = view s" by (rule view_finalize_medium [OF close_finalize_fail(4)])
  then show ?thesis
    using assms(2) close_finalize_fail(1-3)
      inv_relabel [of "view s" "TFinalize wr" T "TAbortPub wr"]
      inv_relabel [of "view s" "TFinalize wr" T "TDiscard wr"] by simp
next
  case (close_flip wr s s' prev f ea T)
  note f = view_flip [OF close_flip(4)]
  then show ?thesis
    using assms(2) close_flip(1-3) inv_flip [of "view s" wr T prev "wr\<lparr>framing := f\<rparr>"] by simp
next
  case (close_finish wr s s' ea prev T)
  have "view s' = view s"
    by (rule view_buf_terminal [OF close_finish(4)]) (rule bsize_terminals(2))
  then show ?thesis
    using assms(2) close_finish(1-3) inv_relabel [of "view s" "TFinish wr prev" T "reclaim_then (wr_h wr) prev False"]
    by (cases prev) simp_all
next
  case (abort_start s wr T)
  then show ?thesis using assms(2) inv_relabel [of "view s" "TWriter wr" T "TDiscard wr"] by simp
next
  case (abort_publish s wr T)
  then show ?thesis using assms(2) inv_relabel [of "view s" "TAbortPub wr" T "TDiscard wr"] by simp
next
  case (discard_detach wr s s' f ea T)
  then show ?thesis
    using assms(2) inv_detach [of "view s" wr T "wr\<lparr>framing := f\<rparr>"] view_discard [OF discard_detach(4)] by simp
next
  case (discard_fail wr s s' ea T)
  have "view s' = view s"
    by (rule view_buf_terminal [OF discard_fail(4)]) (rule bsize_terminals(3))
  then show ?thesis
    using assms(2) discard_fail(1-3) inv_relabel [of "view s" "TFail wr" T "TRemove (wr_h wr) (wr_g wr) False"] by simp
next
  case (reclaim_remove s h g ca T)
  then show ?thesis using assms(2) inv_relabel [of "view s" "TRemove h g ca" T "TBytes h g ca"] by simp
next
  case (reclaim_bytes s h g ca T)
  then show ?thesis using assms(2) inv_bytes [of "view s" h g ca T] by (simp add: view_give_bytes)
next
  case (reclaim_clip s h g ca T)
  then show ?thesis using assms(2) inv_clip [of "view s" h g ca T] by (simp add: view_give_clip)
next
  case (cleanup_clear s h g T)
  then show ?thesis using assms(2) inv_clear [of "view s" h g T] by (simp add: view_clear)
next
  case (lease_release s h T)
  then show ?thesis using assms(2) inv_release [of "view s" h T] by (simp add: view_release)
next
  case (open_park ctx now os s s' os' ca T)
  note p = open_turn_park [OF open_park(4)]
  then show ?thesis
    using assms(2) open_park(1-3) inv_relabel [of "view s" "TOpen os" T "TParked os' ca"] by simp
next
  case (open_fail ctx now os s s' os' res ea T)
  note d = open_turn_done [OF open_fail(4)]
  show ?thesis
    using assms(2) open_fail(1-3) d(2)
      inv_claim [OF _ d(1), of T "reclaim_then (os_h os') (or_cleanup res) True"]
    by (cases "or_cleanup res") simp_all
next
  case (open_done ctx now os s s' os' res g T)
  note d = open_turn_done [OF open_done(4)]
  show ?thesis using assms(2) open_done(1-3) d(2) inv_claim [OF _ d(1), of T] by simp
next
  case (park_wake os s ca T)
  then show ?thesis using assms(2) inv_relabel [of "view s" "TParked os ca" T "TOpen os"] by simp
next
  case (park_cancel s os ca T)
  then show ?thesis using assms(2) inv_relabel [of "view s" "TParked os ca" T "TRelease (os_h os)"] by simp
next
  case (reader_read ctx len l s s' l' out T)
  then show ?thesis
    using assms(2) view_leased_Read [OF reader_read(4)] leased_Read_fields [OF reader_read(4)]
      inv_relabel [of "view s" "TReader l" T "TReader l'"] by simp
next
  case (reader_close l s s' l' ea T)
  then show ?thesis
    using assms(2) view_close_rc [OF reader_close(4)]
      inv_relabel [of "view s" "TReader l" T "reclaim_then (lr_h l) (lr_cleanup l) True"]
    by (cases "lr_cleanup l") simp_all
next
  case (delete_retire h now s s' prev ea T)
  then show ?thesis
    using assms(2) inv_retire [OF _ view_delete [OF delete_retire(4)], of "TDelete h" T] by simp
next
  case (reap_retire h cid now s s' prev ea T)
  then show ?thesis
    using assms(2) inv_retire [OF _ view_reap [OF reap_retire(4)], of "TReap h cid now" T] by simp
qed

lemma run_inv:
  assumes "run M c0 evs c" and "inv (view (fst c0)) (snd c0)"
  shows "inv (view (fst c)) (snd c)"
  using assms by (induction rule: run.induct) (auto dest: sched_inv)

end

lemma inv_start_store: "inv (view (newStore w blank c)) {#}"
  by (simp add: inv_def inv_reg_def inv_ptr_def inv_own_def inv_quota_def owners_def held_def
      newStore_def newQuota_def newHandle_def view_def lease_count_def)

lemma reachable_inv:
  assumes "medium_contract M" and "run M (newStore w blank cfg, {#}) evs (s, T)"
  shows "inv (view s) T"
  using medium_contract.run_inv [OF assms, unfolded fst_conv snd_conv, OF inv_start_store] .

subsection \<open>Ownership and the quota\<close>

text \<open>
  The generations whose count slot (or whose bytes) somebody still owes: a registered handle's
  finalized current, and what the operations in flight will reclaim or publish.
\<close>

definition extant :: "('h task \<Rightarrow> gref option) \<Rightarrow> ('b, 'w) store \<Rightarrow> 'h task multiset \<Rightarrow> gref set" where
  "extant f s T = {g. held (view s) g} \<union> {g. \<exists>t \<in># T. f t = Some g}"

lemma owners_extant: "owners f (view s) T g \<noteq> 0 \<longleftrightarrow> g \<in> extant f s T"
  by (auto simp: owners_def extant_def tally_zero)

lemma owners_indicator:
  assumes "inv_own v T" and "f = t_slot \<or> f = t_bytes"
  shows "owners f v T g \<le> 1"
  using assms inv_own_le(1) [OF assms(1)] owners_bytes_le [of v T g] by (auto intro: order.trans)

lemma weighted_extant:
  fixes w :: "gref \<Rightarrow> int64"
  assumes "inv_own (view s) T" and "f = t_slot \<or> f = t_bytes"
  shows "(\<Sum>g < gnext s. of_nat (owners f (view s) T g) * w g) = (\<Sum>g \<in> extant f s T. w g)"
    and "extant f s T \<subseteq> {..<gnext s}"
proof -
  have le: "owners f (view s) T g \<le> 1" for g using owners_indicator [OF assms] .
  have "owners f (view s) T g \<le> owners t_slot (view s) T g" for g
    using assms(2) owners_bytes_le by auto
  then have "owners f (view s) T g \<noteq> 0 \<Longrightarrow> g < gnext s" for g
    using inv_own_le(2) [OF assms(1), of g] by (metis le_zero_eq view_sel(7))
  then show sub: "extant f s T \<subseteq> {..<gnext s}" using owners_extant by blast
  have "of_nat (owners f (view s) T g) * w g = (if g \<in> extant f s T then w g else 0)" for g
    using le [of g] owners_extant [of f s T g] by (cases "owners f (view s) T g") auto
  then have "(\<Sum>g < gnext s. of_nat (owners f (view s) T g) * w g)
      = (\<Sum>g < gnext s. if g \<in> extant f s T then w g else 0)" by simp
  also have "\<dots> = (\<Sum>g \<in> extant f s T. w g)"
    using sub by (simp add: sum.If_cases Int_absorb1)
  finally show "(\<Sum>g < gnext s. of_nat (owners f (view s) T g) * w g) = (\<Sum>g \<in> extant f s T. w g)" .
qed

text \<open>
  C1. The quota balances exactly, in every interleaving and on every error path, over any medium.
  The clip counter is the number of extant generations, the byte counter is the sum of their sizes
  plus what the writes in flight have reserved and not yet stored, every generation is owed by
  exactly one party so nothing is ever released twice, and when nothing is stored and nothing is in
  flight both counters are zero.
\<close>

theorem quota_balance:
  assumes "medium_contract M" and "run M (newStore w blank cfg, {#}) evs (s, T)"
  shows "clips (squota s) = of_nat (card (extant t_slot s T))
    \<and> bytes (squota s) = (\<Sum>g \<in> extant t_bytes s T. buf_size g s) + (\<Sum>t \<in># T. t_resv t)
    \<and> (\<forall>g. owners t_slot (view s) T g \<le> 1)
    \<and> (T = {#} \<and> reg s = [] \<longrightarrow> bytes (squota s) = 0 \<and> clips (squota s) = 0)"
proof -
  have i: "inv (view s) T" using reachable_inv [OF assms] .
  note own = invD(3) [OF i] and quo = invD(4) [OF i]
  have b: "bytes (squota s) = (\<Sum>g \<in> extant t_bytes s T. buf_size g s) + (\<Sum>t \<in># T. t_resv t)"
    using quo weighted_extant(1) [OF own, of t_bytes "\<lambda>g. buf_size g s"]
    by (simp add: inv_quota_def buf_size_def)
  have c: "clips (squota s) = of_nat (card (extant t_slot s T))"
    using quo weighted_extant(1) [OF own, of t_slot "\<lambda>_. 1"] by (simp add: inv_quota_def)
  have none: "T = {#} \<and> reg s = [] \<longrightarrow> extant t_slot s T = {} \<and> extant t_bytes s T = {}"
    by (simp add: extant_def held_def)
  show ?thesis
    using b c none inv_own_le(1) [OF own] by simp
qed

subsection \<open>What a step can do to the view\<close>

inductive veff :: "view \<Rightarrow> event \<Rightarrow> view \<Rightarrow> bool" where
  e_same: "veff v Tau v"
| e_acquire: "veff v Tau (va_acquire name v)"
| e_release: "veff v Tau (va_release h v)"
| e_install: "v_live v h = None \<Longrightarrow> veff v (Installed (v_gnext v)) (va_install h name cons v)"
| e_flip: "v_st v g = genLive \<Longrightarrow> v_live v h = Some g \<Longrightarrow> veff v (Published h g) (va_flip h g v)"
| e_detach: "veff v Tau (va_detach h v)"
| e_clear: "v_st v g = genConsumed \<Longrightarrow> veff v Tau (va_clear h g v)"
| e_retire: "va_retire h r v v' \<Longrightarrow> veff v Tau v'"
| e_forfeit: "v_cur v h = Some g \<Longrightarrow> v_st v g = genFinalized \<Longrightarrow> veff v Tau (va_claim g v)"
| e_claim: "v_cur v h = Some g \<Longrightarrow> g < v_gnext v \<Longrightarrow> v_st v g = genFinalized \<Longrightarrow> v_cons v g \<Longrightarrow>
    veff v (Delivered g) (va_claim g v)"
| e_deliver: "g < v_gnext v \<Longrightarrow> \<not> v_cons v g \<Longrightarrow> v_st v g \<noteq> genConsumed \<Longrightarrow> veff v (Delivered g) v"
| e_grow: "v_st v g = genLive \<Longrightarrow> veff v Tau (va_grow g n v)"
| e_counters: "veff v Tau (v\<lparr>v_bytes := b, v_clips := c\<rparr>)"

lemma veff_bytes: "veff v Tau (v\<lparr>v_bytes := b\<rparr>)"
proof -
  have eq: "v\<lparr>v_bytes := b\<rparr> = v\<lparr>v_bytes := b, v_clips := v_clips v\<rparr>" by simp
  show ?thesis by (subst eq) (rule e_counters)
qed

lemma veff_clips: "veff v Tau (v\<lparr>v_clips := c\<rparr>)"
proof -
  have eq: "v\<lparr>v_clips := c\<rparr> = v\<lparr>v_bytes := v_bytes v, v_clips := c\<rparr>" by simp
  show ?thesis by (subst eq) (rule e_counters)
qed

lemma writer_live:
  assumes "inv v (add_mset t T)" and "t_writer t = Some g"
  shows "v_live v (t_handle t) = Some g" and "v_st v g = genLive"
    and "v_gname v g = v_name v (t_handle t)" and "g < v_gnext v"
proof -
  note ptr = invD(2) [OF assms(1)] and h = leased_registered [OF invD(1) [OF assms(1)]]
  show l: "v_live v (t_handle t) = Some g"
    using inv_ptrD(7) [OF ptr, of t] assms(2) by (simp add: task_ok_def)
  show "v_st v g = genLive" "v_gname v g = v_name v (t_handle t)" "g < v_gnext v"
    using inv_ptrD(4-6) [OF ptr h(1) l] by simp_all
qed

context medium_contract
begin

lemma sched_veff:
  assumes "sched M c e c'" and "inv (view (fst c)) (snd c)"
  shows "veff (view (fst c)) e (view (fst c'))"
  using assms
proof (cases rule: sched.cases)
  case (admit_ok h name m po now rnd s s' r T)
  then show ?thesis using view_admit_ok [OF admit_ok(4)] e_install [of "view s" h] by simp
next
  case (close_flip wr s s' prev f ea T)
  then show ?thesis
    using view_flip [OF close_flip(4)] e_flip [of "view s" "wr_g wr" "wr_h wr"]
      writer_live [of "view s" "TFlip wr" T "wr_g wr"] assms(2) by simp
next
  case (write_append_full wr p s s' k ea T)
  then show ?thesis
    using view_append [OF write_append_full(4)] e_grow [of "view s" "wr_g wr"]
      writer_live [of "view s" "TReserved wr p" T "wr_g wr"] assms(2) by simp
next
  case (write_append_short wr p s s' k ea T)
  then show ?thesis
    using view_append [OF write_append_short(4)] e_grow [of "view s" "wr_g wr"]
      writer_live [of "view s" "TReserved wr p" T "wr_g wr"] assms(2) by simp
next
  case (cleanup_clear s h g T)
  then have "v_st (view s) g = genConsumed"
    using inv_ptrD(7) [OF invD(2), of "view s" "add_mset (TClear h g) T" "TClear h g"] assms(2)
    by (simp add: task_ok_def)
  then show ?thesis using cleanup_clear e_clear [of "view s" g h] by (simp add: view_clear)
next
  case (open_fail ctx now os s s' os' res ea T)
  note d = open_turn_done [OF open_fail(4)]
  show ?thesis using d(1) open_fail(1-3) e_same e_forfeit by (auto simp: va_opened_def)
next
  case (open_done ctx now os s s' os' res g T)
  note d = open_turn_done [OF open_done(4)]
  note ptr = invD(2) [OF assms(2)] and reg = invD(1) [OF assms(2)]
  have h: "os_h os < hnext s" using leased_registered(1) [of "view s" "TOpen os" T] reg open_done(1) by simp
  have rs: "open_resolve now (s, os) = ((s, os'), Inr g)" using d(5) open_done(5) by simp
  note pick = open_resolve_Inr [OF rs]
  have g: "g < v_gnext (view s)" "g_state (gs s g) \<noteq> genConsumed"
    "g_consume (gs s g) \<Longrightarrow> g_state (gs s g) = genFinalized"
    using pick ptr open_done(1) h
      inv_ptrD(1,3,4,6) [of "view s" "add_mset (TOpen os) T" "os_h os" g]
    by auto
  show ?thesis
  proof (cases "g_consume (gs s g)")
    case True
    then have "or_cleanup res = Some g" using d(6) open_done(5) g(3) by simp
    then show ?thesis using d(1) open_done(1-3) g e_claim [of "view s" "os_h os" g] by (simp add: va_opened_def)
  next
    case False
    then have "view s' = view s" using d(1,3) open_done(5) by (auto simp: va_opened_def)
    then show ?thesis using open_done(1-3) e_deliver [of g "view s"] g False by simp
  qed
next
  case (delete_retire h now s s' prev ea T)
  then show ?thesis using e_retire [OF view_delete [OF delete_retire(4)]] by simp
next
  case (reap_retire h cid now s s' prev ea T)
  then show ?thesis using e_retire [OF view_reap [OF reap_retire(4)]] by simp
next
  case (start_create name s s' h T m po)
  then show ?thesis using view_acquire(1) [OF start_create(5)] e_acquire by simp
next
  case (start_open name go ctx s s' os T)
  then show ?thesis using view_acquire(1) [OF open_begin_acquire [OF start_open(4)]] e_acquire by simp
next
  case (start_delete name s s' h T)
  then show ?thesis using view_acquire(1) [OF start_delete(5)] e_acquire by simp
next
  case (start_stat name s s' h T)
  then show ?thesis using view_acquire(1) [OF start_stat(5)] e_acquire by simp
next
  case (start_reap name s s' h T cid now)
  then show ?thesis using view_acquire(1) [OF start_reap(4)] e_acquire by simp
next
  case (sweep_window now prior s s' b T)
  then show ?thesis using view_reclaim_claim [OF sweep_window(4)] e_same by simp
next
  case (admit_no h name m po now rnd s s' r ea T)
  then show ?thesis using view_admit_error [OF admit_no(4)] e_same by simp
next
  case (write_reserve wr p s s' T)
  then show ?thesis using view_reserve [OF write_reserve(6)] veff_bytes by simp
next
  case (write_tail s wr n T)
  then show ?thesis using veff_bytes by (simp add: view_return_tail)
next
  case (close_stamp s wr T now)
  then show ?thesis using e_same by (simp add: view_stamp)
next
  case (close_sync_ok wr s s' T)
  have "view s' = view s"
    by (rule view_buf_terminal [OF close_sync_ok(4)]) (rule bsize_terminals(1))
  then show ?thesis using close_sync_ok(1-3) e_same by simp
next
  case (close_sync_fail wr s s' ea T)
  have "view s' = view s"
    by (rule view_buf_terminal [OF close_sync_fail(4)]) (rule bsize_terminals(1))
  then show ?thesis using close_sync_fail(1-3) e_same by simp
next
  case (close_finalize_ok wr s s' ca T)
  then show ?thesis using view_finalize_medium [OF close_finalize_ok(4)] e_same by simp
next
  case (close_finalize_fail wr s s' ca ea T)
  then show ?thesis using view_finalize_medium [OF close_finalize_fail(4)] e_same by simp
next
  case (close_finish wr s s' ea prev T)
  have "view s' = view s"
    by (rule view_buf_terminal [OF close_finish(4)]) (rule bsize_terminals(2))
  then show ?thesis using close_finish(1-3) e_same by simp
next
  case (discard_detach wr s s' f ea T)
  then show ?thesis using view_discard [OF discard_detach(4)] e_detach by simp
next
  case (discard_fail wr s s' ea T)
  have "view s' = view s"
    by (rule view_buf_terminal [OF discard_fail(4)]) (rule bsize_terminals(3))
  then show ?thesis using discard_fail(1-3) e_same by simp
next
  case (reclaim_bytes s h g ca T)
  then show ?thesis using veff_bytes by (simp add: view_give_bytes)
next
  case (reclaim_clip s h g ca T)
  then show ?thesis using veff_clips by (simp add: view_give_clip)
next
  case (lease_release s h T)
  then show ?thesis using e_release by (simp add: view_release)
next
  case (open_park ctx now os s s' os' ca T)
  then show ?thesis using open_turn_park(1) [OF open_park(4)] e_same by simp
next
  case (reader_read ctx len l s s' l' out T)
  then show ?thesis using view_leased_Read [OF reader_read(4)] e_same by simp
next
  case (reader_close l s s' l' ea T)
  then show ?thesis using view_close_rc [OF reader_close(4)] e_same by simp
qed (use e_same in simp_all)

end

end
