(* ===== verification/StoreProps.thy ===== *)
theory StoreProps imports StoreSafety begin

text \<open>
  What the store promises over every interleaving, read off the invariants and the effects of the
  steps: a consume-once clip is delivered at most once, a name has at most one upload, and the
  registry is exact.
\<close>

lemmas va_defs = va_acquire_def va_release_def va_install_def va_flip_def va_detach_def va_clear_def
  va_retire_def va_claim_def va_grow_def Let_def

subsection \<open>Consume-once\<close>

text \<open>How often the events of a run hand a generation to a reader.\<close>

definition deliveries :: "event list \<Rightarrow> gref \<Rightarrow> nat" where
  "deliveries evs g = length (filter (\<lambda>e. e = Delivered g) evs)"

definition once_inv :: "event list \<Rightarrow> view \<Rightarrow> bool" where
  "once_inv evs v \<longleftrightarrow> (\<forall>g.
     (v_gnext v \<le> g \<longrightarrow> deliveries evs g = 0)
     \<and> (g < v_gnext v \<and> v_cons v g \<longrightarrow>
          deliveries evs g \<le> (if v_st v g = genConsumed then 1 else 0)))"

lemma deliveries_snoc [simp]:
  "deliveries (evs @ [e]) g = deliveries evs g + (if e = Delivered g then 1 else 0)"
  by (simp add: deliveries_def)

text \<open>Generations are immutable where they must be, and a claim is never taken back.\<close>

lemma two_of_filter:
  assumes "1 < size {#x \<in># M. P x#}"
  obtains x y M0 where "M = add_mset x (add_mset y M0)" "P x" "P y"
proof -
  let ?F = "{#x \<in># M. P x#}"
  obtain x F1 where x: "?F = add_mset x F1" using assms by (cases ?F) auto
  obtain y F2 where y: "F1 = add_mset y F2" using assms x by (cases F1) auto
  have "M = ?F + (M - ?F)" by (simp add: subset_mset.add_diff_inverse)
  then have "M = add_mset x (add_mset y (F2 + (M - ?F)))"
    using x y by (metis union_mset_add_mset_left)
  moreover have "x \<in># ?F" "y \<in># ?F" using x y by simp_all
  then have "P x" "P y" by simp_all
  ultimately show thesis using that by blast
qed

lemma va_gnext:
  "v_gnext (va_acquire n v) = v_gnext v" "v_gnext (va_release h v) = v_gnext v"
  "v_gnext (va_install h n c v) = Suc (v_gnext v)" "v_gnext (va_flip h g v) = v_gnext v"
  "v_gnext (va_detach h v) = v_gnext v" "v_gnext (va_clear h g v) = v_gnext v"
  "v_gnext (va_claim g v) = v_gnext v" "v_gnext (va_grow g k v) = v_gnext v"
  by (auto simp: va_defs split: option.splits)

lemma va_same:
  "v_cons (va_acquire n v) = v_cons v" "v_cons (va_release h v) = v_cons v"
  "v_cons (va_flip h g v) = v_cons v" "v_cons (va_detach h v) = v_cons v"
  "v_cons (va_clear h g v) = v_cons v" "v_cons (va_claim g v) = v_cons v"
  "v_cons (va_grow g k v) = v_cons v"
  "v_gname (va_acquire n v) = v_gname v" "v_gname (va_release h v) = v_gname v"
  "v_gname (va_flip h g v) = v_gname v" "v_gname (va_detach h v) = v_gname v"
  "v_gname (va_clear h g v) = v_gname v" "v_gname (va_claim g v) = v_gname v"
  "v_gname (va_grow g k v) = v_gname v"
  by (auto simp: va_defs split: option.splits)

lemma va_states:
  "v_st (va_acquire n v) = v_st v" "v_st (va_release h v) = v_st v"
  "v_st (va_flip h g v) = (v_st v)(g := genFinalized)" "v_st (va_detach h v) = v_st v"
  "v_st (va_clear h g v) = v_st v" "v_st (va_claim g v) = (v_st v)(g := genConsumed)"
  "v_st (va_grow g k v) = v_st v"
  by (auto simp: va_defs split: option.splits)

lemma va_install_gens:
  "v_cons (va_install h n c v) = (v_cons v)(v_gnext v := c)"
  "v_gname (va_install h n c v) = (v_gname v)(v_gnext v := n)"
  "v_st (va_install h n c v) = (v_st v)(v_gnext v := genLive)"
  by (simp_all add: va_install_def Let_def)

lemma va_retire_gens:
  assumes "va_retire h r v v'"
  shows "v_gnext v' = v_gnext v" "v_cons v' = v_cons v" "v_gname v' = v_gname v" "v_st v' = v_st v"
  using assms by (auto simp: va_retire_def)

lemmas va_gens = va_gnext va_same va_states va_install_gens

definition gens_kept :: "view \<Rightarrow> event \<Rightarrow> view \<Rightarrow> bool" where
  "gens_kept v e v' \<longleftrightarrow> v_gnext v \<le> v_gnext v'
     \<and> (\<forall>g < v_gnext v. v_cons v' g = v_cons v g \<and> v_gname v' g = v_gname v g
          \<and> (v_st v g = genConsumed \<longrightarrow> v_st v' g = genConsumed))
     \<and> (\<forall>g. e = Delivered g \<longrightarrow> g < v_gnext v
          \<and> (v_cons v g \<longrightarrow> v_st v g = genFinalized \<and> v_st v' g = genConsumed))"

lemma veff_gens_kept: "veff v e v' \<Longrightarrow> gens_kept v e v'"
proof (induction rule: veff.induct)
  case (e_retire h r v v')
  then show ?case by (simp add: gens_kept_def va_retire_gens)
qed (simp_all add: gens_kept_def va_gens)

lemma veff_gens:
  assumes "veff v e v'"
  shows "v_gnext v \<le> v_gnext v'"
    and "g < v_gnext v \<Longrightarrow> v_cons v' g = v_cons v g \<and> v_gname v' g = v_gname v g"
    and "g < v_gnext v \<Longrightarrow> v_st v g = genConsumed \<Longrightarrow> v_st v' g = genConsumed"
    and "e = Delivered g \<Longrightarrow> g < v_gnext v"
    and "e = Delivered g \<Longrightarrow> v_cons v g \<Longrightarrow> v_st v g = genFinalized \<and> v_st v' g = genConsumed"
  using veff_gens_kept [OF assms] by (simp_all add: gens_kept_def)

lemma once_step:
  assumes "once_inv evs v" and "veff v e v'"
  shows "once_inv (evs @ [e]) v'"
  unfolding once_inv_def
proof (intro allI conjI impI)
  fix g assume "v_gnext v' \<le> g"
  then show "deliveries (evs @ [e]) g = 0"
    using assms(1) veff_gens(1,4) [OF assms(2)] by (auto simp: once_inv_def)
next
  fix g assume g: "g < v_gnext v' \<and> v_cons v' g"
  show "deliveries (evs @ [e]) g \<le> (if v_st v' g = genConsumed then 1 else 0)"
  proof (cases "g < v_gnext v")
    case True
    then have c: "v_cons v g" using g veff_gens(2) [OF assms(2)] by simp
    then have le: "deliveries evs g \<le> (if v_st v g = genConsumed then 1 else 0)"
      using assms(1) True by (simp add: once_inv_def)
    show ?thesis
      using le c veff_gens(3,5) [OF assms(2), of g] True by (auto split: if_splits)
  next
    case False
    then have "e \<noteq> Delivered g" using veff_gens(4) [OF assms(2), of g] by blast
    then show ?thesis using assms(1) False by (simp add: once_inv_def)
  qed
qed

lemma run_once:
  assumes "medium_contract M" and "run M c0 evs c" and "inv (view (fst c0)) (snd c0)"
    and "once_inv [] (view (fst c0))"
  shows "once_inv evs (view (fst c)) \<and> inv (view (fst c)) (snd c)"
  using assms(2,3,4)
proof (induction rule: run.induct)
  case run_start then show ?case by simp
next
  case (run_step evs c e c')
  then show ?case
    using once_step [OF _ medium_contract.sched_veff [OF assms(1) run_step.hyps(2)]]
      medium_contract.sched_inv [OF assms(1) run_step.hyps(2)] by blast
qed

text \<open>
  C2. A consume-once clip is delivered at most once.  In every interleaving of any number of readers,
  writers, deletes and sweeps, over any medium and whatever faults its claim raises, the events of a
  run hand a given consume-once generation to at most one reader; once that has happened it is
  consumed for good, and from the claim on its destruction is owed by exactly one operation.
\<close>

theorem consume_once_at_most_once:
  assumes "medium_contract M" and "run M (newStore w blank cfg, {#}) evs (s, T)"
    and "g < gnext s" and "g_consume (gs s g)"
  shows "deliveries evs g \<le> 1 \<and> (deliveries evs g = 1 \<longrightarrow> g_state (gs s g) = genConsumed)
    \<and> tally t_slot T g \<le> 1"
proof -
  have o0: "once_inv [] (view (newStore w blank cfg))" by (simp add: once_inv_def deliveries_def)
  have oi: "once_inv evs (view s) \<and> inv (view s) T"
    using run_once [OF assms(1,2), unfolded fst_conv snd_conv, OF inv_start_store o0] .
  note o = conjunct1 [OF oi] and i = conjunct2 [OF oi]
  have "owners t_slot (view s) T g \<le> 1" using inv_own_le(1) [OF invD(3) [OF i]] .
  then show ?thesis using o assms(3,4) by (auto simp: once_inv_def owners_def split: if_splits)
qed

subsection \<open>One writer per name, and the registry\<close>

text \<open>
  C4. At any moment at most one upload is open on a name: among the operations in flight, those still
  attached to a live generation are on handles of pairwise different names, and each is the writer
  of the very generation its handle shows as live, which is what makes \<open>ErrBusy\<close> and the read
  resolution truthful.
\<close>

theorem single_writer:
  assumes "medium_contract M" and "run M (newStore w blank cfg, {#}) evs (s, T)"
  shows "size {#t \<in># T. t_writer t \<noteq> None \<and> h_name (hs s (t_handle t)) = n#} \<le> 1
    \<and> (\<forall>t \<in># T. t_writer t \<noteq> None \<longrightarrow> h_live (hs s (t_handle t)) = t_writer t
         \<and> g_state (gs s (the (t_writer t))) = genLive)"
proof -
  have i: "inv (view s) T" using reachable_inv [OF assms] .
  have live: "h_live (hs s (t_handle t)) = t_writer t \<and> g_state (gs s (the (t_writer t))) = genLive"
    if t: "t \<in># T" "t_writer t \<noteq> None" for t
  proof -
    obtain T0 where "T = add_mset t T0" using t(1) by (rule mset_add)
    then show ?thesis using i writer_live(1,2) [of "view s" t T0] t(2) by auto
  qed
  have "size {#t \<in># T. t_writer t \<noteq> None \<and> h_name (hs s (t_handle t)) = n#} \<le> 1"
  proof (rule ccontr)
    assume "\<not> size {#t \<in># T. t_writer t \<noteq> None \<and> h_name (hs s (t_handle t)) = n#} \<le> 1"
    then have "1 < size {#t \<in># T. t_writer t \<noteq> None \<and> h_name (hs s (t_handle t)) = n#}" by simp
    then obtain t u T0 where T0: "T = add_mset t (add_mset u T0)"
      and P: "t_writer t \<noteq> None" "h_name (hs s (t_handle t)) = n"
        "t_writer u \<noteq> None" "h_name (hs s (t_handle u)) = n"
      by (rule two_of_filter) blast
    obtain g where g: "t_writer t = Some g" using P(1) by blast
    have it: "inv (view s) (add_mset t (add_mset u T0))" using i T0 by simp
    have ne: "t_handle u \<noteq> t_handle t" using writer_alone [OF it g, of u] P(3) by simp
    have "map_of (reg s) n = Some (t_handle t)"
      using leased_registered(2) [OF invD(1) [OF it]] P(2) by simp
    moreover have "inv (view s) (add_mset u (add_mset t T0))" using it by (simp add: add_mset_commute)
    then have "map_of (reg s) n = Some (t_handle u)"
      using leased_registered(2) [OF invD(1)] P(4) by fastforce
    ultimately show False using ne by simp
  qed
  then show ?thesis using live by blast
qed

text \<open>
  C5. The registry is exact.  A handle some operation has leased is never evicted: it is the handle
  the registry holds for its name, and its lease count is the number of those operations; a
  generation that is current or live is always reachable through the registry; and a name is
  registered only while an operation is in flight on it or it carries a generation, so the map is
  bounded by what is in use and not by past traffic.
\<close>

theorem registry_exact:
  assumes "medium_contract M" and "run M (newStore w blank cfg, {#}) evs (s, T)"
  shows "(\<forall>t \<in># T. map_of (reg s) (h_name (hs s (t_handle t))) = Some (t_handle t)
         \<and> h_leases (hs s (t_handle t)) = int (lease_count T (t_handle t)))
    \<and> (\<forall>h < hnext s. h_current (hs s h) \<noteq> None \<or> h_live (hs s h) \<noteq> None
         \<longrightarrow> map_of (reg s) (h_name (hs s h)) = Some h)
    \<and> (\<forall>n h. map_of (reg s) n = Some h \<longrightarrow> h_name (hs s h) = n \<and>
         (lease_count T h \<noteq> 0 \<or> h_current (hs s h) \<noteq> None \<or> h_live (hs s h) \<noteq> None))"
proof -
  have r: "inv_reg (view s) T" using invD(1) [OF reachable_inv [OF assms]] .
  have "map_of (reg s) (h_name (hs s (t_handle t))) = Some (t_handle t)
      \<and> h_leases (hs s (t_handle t)) = int (lease_count T (t_handle t))" if "t \<in># T" for t
  proof -
    obtain T0 where T0: "T = add_mset t T0" using \<open>t \<in># T\<close> by (rule mset_add)
    show ?thesis
      using leased_registered [of "view s" t T0] inv_regD(6) [OF r, of "t_handle t"] r T0 by simp
  qed
  moreover have "map_of (reg s) (h_name (hs s h)) = Some h"
    if "h < hnext s" "h_current (hs s h) \<noteq> None \<or> h_live (hs s h) \<noteq> None" for h
    using inv_regD(4,5) [OF r, of h] that
    by (cases "map_of (reg s) (h_name (hs s h)) = Some h") simp_all
  moreover have "h_name (hs s h) = n \<and> (lease_count T h \<noteq> 0 \<or> h_current (hs s h) \<noteq> None \<or> h_live (hs s h) \<noteq> None)"
    if "map_of (reg s) n = Some h" for n h
    using inv_regD(2,8) [OF r, of n h] that by simp
  ultimately show ?thesis by blast
qed

end
