(* ===== verification/StoreDemo.thy ===== *)
theory StoreDemo imports StoreProps begin

text \<open>
  A concrete run of the store over the memory medium: a consume-once clip is created, written,
  published and opened.  The safety properties are applied to it.
\<close>

type_synonym mstore = "(memBacking, unit) store"

definition demo_medium :: "(memBacking, unit, unit) medium" where
  "demo_medium = memMedium"

definition demo_po :: PutOpts where
  "demo_po = \<lparr>po_TTL = 0, po_Keep = True, po_ConsumeOnce = True, po_IfMatch = ''''\<rparr>"

definition demo_meta :: Meta where
  "demo_meta = Normalized \<lparr>Kind = KindBytes, Filename = '''', Executable = False\<rparr>"

definition demo_blank :: "memBacking generation" where
  "demo_blank = \<lparr>g_id = [], g_name = '''', g_meta = demo_meta, g_created = 0, g_ttl = 0,
     g_finalized = 0, g_expires = 0, g_consume = False, g_state = genLive, g_buf = NewMemory\<rparr>"

definition demo_cfg :: Config where
  "demo_cfg = \<lparr>MaxClip = 10, MaxTotal = 20, MaxClips = 3, DefaultTTL = 0\<rparr>"

definition demo_rnd :: "err + byte list" where
  "demo_rnd = Inr (replicate 8 1)"

definition ds_new :: mstore where "ds_new = newStore () demo_blank demo_cfg"
definition ds_leased :: mstore where "ds_leased = fst (acquire ''a'' ds_new)"
definition ds_admitted :: mstore where
  "ds_admitted = fst (admit_section demo_medium 0 ''a'' demo_meta demo_po 5 demo_rnd ds_leased)"
definition ds_reserved :: mstore where "ds_reserved = fst (reserve_section 2 ds_admitted)"
definition ds_written :: mstore where "ds_written = fst (append_chunk demo_medium 0 [7, 9] ds_reserved)"
definition ds_stamped :: mstore where "ds_stamped = stamp 6 0 ds_written"
definition ds_synced :: mstore where
  "ds_synced = fst (buf_terminal (buf_Sync (m_back demo_medium)) 0 ds_stamped)"
definition ds_final :: mstore where "ds_final = fst (finalize_medium demo_medium 0 ds_synced)"

definition dw_new :: writer where "dw_new = new_writer 0 0"
definition dw_full :: writer where "dw_full = dw_new\<lparr>written := 2\<rparr>"

definition ds_flipped :: mstore where "ds_flipped = fst (flip_section dw_full ds_final)"
definition dw_done :: writer where
  "dw_done = dw_full\<lparr>framing := snd (fst (snd (flip_section dw_full ds_final)))\<rparr>"
definition ds_ended :: mstore where
  "ds_ended = fst (buf_terminal (buf_Finish (m_back demo_medium)) 0 ds_flipped)"
definition ds_quiet :: mstore where "ds_quiet = release 0 ds_ended"
definition ds_opening :: mstore where "ds_opening = fst (acquire ''a'' ds_quiet)"

definition demo_os :: openState where
  "demo_os = \<lparr>os_h = 0, os_name = ''a'', os_wait = False, os_follow = False, os_captured = False,
     os_baseline = zero_id\<rparr>"
definition ds_open :: mstore where
  "ds_open = fst (fst (open_turn demo_medium None 7 demo_os ds_opening))"
definition demo_reader :: "unit leasedReader" where
  "demo_reader = \<lparr>lr_rc = RSection \<lparr>sr_h = (), sr_size = 2, sr_off = 0, sr_once = False\<rparr>, lr_g = 0, lr_cleanup = Some 0, lr_h = 0, lr_once = False\<rparr>"

lemma demo_evals:
  "ValidName ''a'' = None"
  "snd (acquire ''a'' ds_new) = 0"
  "snd (admit_section demo_medium 0 ''a'' demo_meta demo_po 5 demo_rnd ds_leased) = (Some 0, None)"
  "perClipOK 0 2 (squota ds_admitted)"
  "snd (reserve_section 2 ds_admitted) = True"
  "snd (append_chunk demo_medium 0 [7, 9] ds_reserved) = (2, None)"
  "snd (buf_terminal (buf_Sync (m_back demo_medium)) 0 ds_stamped) = None"
  "snd (finalize_medium demo_medium 0 ds_synced) = (True, None)"
  "fst (fst (snd (flip_section dw_full ds_final))) = None"
  "snd (acquire ''a'' ds_quiet) = 0"
  "snd (fst (open_turn demo_medium None 7 demo_os ds_opening)) = demo_os"
  by code_simp+

definition demo_result :: "unit openResult" where
  "demo_result = \<lparr>or_rc = Some (lr_rc demo_reader), or_clip = gen_clip (gs ds_open 0), or_cleanup = Some 0\<rparr>"

lemma demo_opened: "snd (open_turn demo_medium None 7 demo_os ds_opening) = Done demo_result None"
  by code_simp

lemma pair_eqI: "snd p = b \<Longrightarrow> p = (fst p, b)" by (cases p) simp

abbreviation demo_c0 :: "(memBacking, unit, unit) config" where
  "demo_c0 \<equiv> (newStore () demo_blank demo_cfg, {#})"

text \<open>The upload, up to the moment its writer has stored its bytes.\<close>

lemma demo_run_written:
  "run demo_medium demo_c0 [Tau, Installed 0, Tau, Tau] (ds_written, {#TWriter dw_full#})"
proof -
  have 0: "run demo_medium demo_c0 [] (ds_new, {#})" unfolding ds_new_def by (rule run_start)
  have 1: "sched demo_medium (ds_new, {#}) Tau (ds_leased, {#TAdmit 0 ''a'' demo_meta demo_po#})"
    unfolding demo_meta_def ds_leased_def
    by (rule start_create [OF demo_evals(1) pair_eqI [OF demo_evals(2)]])
  have 2: "sched demo_medium (ds_leased, {#TAdmit 0 ''a'' demo_meta demo_po#}) (Installed 0) (ds_admitted, {#TWriter dw_new#})"
    using admit_ok [OF pair_eqI [OF demo_evals(3)], of "{#}"] by (simp add: ds_admitted_def dw_new_def)
  have 3: "sched demo_medium (ds_admitted, {#TWriter dw_new#}) Tau (ds_reserved, {#TReserved dw_new [7, 9]#})"
    using write_reserve [where wr = dw_new and p = "[7, 9]" and s = ds_admitted and s' = ds_reserved and M = demo_medium and T = "{#}"]
      demo_evals(4) pair_eqI [OF demo_evals(5)] by (simp add: dw_new_def new_writer_def ds_reserved_def)
  have 4: "sched demo_medium (ds_reserved, {#TReserved dw_new [7, 9]#}) Tau (ds_written, {#TWriter dw_full#})"
    using write_append_full [where wr = dw_new and p = "[7, 9]" and s = ds_reserved and s' = ds_written
        and M = demo_medium and T = "{#}" and k = 2 and e = None]
      pair_eqI [OF demo_evals(6)] by (simp add: dw_full_def dw_new_def new_writer_def ds_written_def)
  show ?thesis
    using run_step [OF run_step [OF run_step [OF run_step [OF 0 1] 2] 3] 4] by simp
qed

text \<open>From there to the moment a reader holds the clip.\<close>

definition demo_events :: "event list" where
  "demo_events = [Tau, Installed 0, Tau, Tau, Tau, Tau, Tau, Published 0 0, Tau, Tau, Tau, Delivered 0]"

lemma demo_run: "run demo_medium demo_c0 demo_events (ds_open, {#TReader demo_reader#})"
proof -
  have 1: "sched demo_medium (ds_written, {#TWriter dw_full#}) Tau (ds_stamped, {#TSync dw_full#})"
    using close_stamp [where M = demo_medium and wr = dw_full and s = ds_written and T = "{#}" and now = 6]
    by (simp add: ds_stamped_def dw_full_def dw_new_def new_writer_def)
  have 2: "sched demo_medium (ds_stamped, {#TSync dw_full#}) Tau (ds_synced, {#TFinalize dw_full#})"
    using close_sync_ok [where M = demo_medium and wr = dw_full and s = ds_stamped and T = "{#}" and s' = ds_synced]
      pair_eqI [OF demo_evals(7)] by (simp add: ds_synced_def dw_full_def dw_new_def new_writer_def)
  have 3: "sched demo_medium (ds_synced, {#TFinalize dw_full#}) Tau (ds_final, {#TFlip dw_full#})"
    using close_finalize_ok [where M = demo_medium and wr = dw_full and s = ds_synced and T = "{#}" and s' = ds_final and c = True]
      pair_eqI [OF demo_evals(8)] by (simp add: ds_final_def dw_full_def dw_new_def new_writer_def)
  have flip: "flip_section dw_full ds_final = (ds_flipped, (None, framing dw_done), snd (snd (flip_section dw_full ds_final)))"
    using demo_evals(9) by (simp add: ds_flipped_def dw_done_def prod_eq_iff)
  have 4: "sched demo_medium (ds_final, {#TFlip dw_full#}) (Published 0 0) (ds_flipped, {#TFinish dw_done None#})"
    using close_flip [OF flip, of demo_medium "{#}"] by (simp add: dw_done_def dw_full_def dw_new_def new_writer_def)
  have 5: "sched demo_medium (ds_flipped, {#TFinish dw_done None#}) Tau (ds_ended, {#TRelease 0#})"
    using close_finish [where M = demo_medium and wr = dw_done and s = ds_flipped and T = "{#}" and s' = ds_ended
        and prev = None and e = "snd (buf_terminal (buf_Finish (m_back demo_medium)) 0 ds_flipped)"]
    by (simp add: ds_ended_def dw_done_def dw_full_def dw_new_def new_writer_def reclaim_then_def)
  have 6: "sched demo_medium (ds_ended, {#TRelease 0#}) Tau (ds_quiet, {#})"
    unfolding ds_quiet_def by (rule lease_release)
  have "open_begin ''a'' \<lparr>go_Wait = False, go_FollowNext = False, go_WaitMax = 0\<rparr> None ds_quiet = (ds_opening, Inr demo_os)"
    using demo_evals(1,10) by (simp add: open_begin_def ds_opening_def demo_os_def case_prod_beta)
  then have 7: "sched demo_medium (ds_quiet, {#}) Tau (ds_opening, {#TOpen demo_os#})"
    using start_open [where M = demo_medium and T = "{#}"] by simp
  have t: "open_turn demo_medium None 7 demo_os ds_opening = ((ds_open, demo_os), Done demo_result None)"
    using demo_evals(11) demo_opened by (simp add: ds_open_def prod_eq_iff)
  have r: "0 = resolved 7 ds_opening demo_os" by code_simp
  have "os_h demo_os = 0" by (simp add: demo_os_def)
  then have 8: "sched demo_medium (ds_opening, {#TOpen demo_os#}) (Delivered 0) (ds_open, {#TReader demo_reader#})"
    using open_done [OF t r, of "{#}"] by (simp add: demo_result_def demo_reader_def)
  show ?thesis
    using run_step [OF run_step [OF run_step [OF run_step [OF run_step [OF run_step [OF run_step [OF run_step
      [OF demo_run_written 1] 2] 3] 4] 5] 6] 7] 8] by (simp add: demo_events_def)
qed

lemma demo_contract: "medium_contract demo_medium"
  unfolding demo_medium_def by (rule memmed.medium_contract_axioms)

definition demo_tasks :: "unit task multiset" where "demo_tasks = {#TWriter dw_full#}"
definition demo_held :: "unit task multiset" where "demo_held = {#TReader demo_reader#}"

theorem quota_balance_witness:
  "bytes (squota ds_written) = 2
    \<and> bytes (squota ds_written) = (\<Sum>g \<in> extant t_bytes ds_written demo_tasks. buf_size g ds_written)
    \<and> clips (squota ds_written) = of_nat (card (extant t_slot ds_written demo_tasks))"
proof -
  have "bytes (squota ds_written) = 2" by code_simp
  moreover have "(\<Sum>t \<in># demo_tasks. t_resv t) = 0" by (simp add: demo_tasks_def)
  ultimately show ?thesis using quota_balance [OF demo_contract demo_run_written [folded demo_tasks_def]] by auto
qed

theorem consume_once_at_most_once_witness:
  "deliveries demo_events 0 = 1 \<and> g_state (gs ds_open 0) = genConsumed
    \<and> tally t_slot demo_held 0 \<le> 1"
proof -
  have "deliveries demo_events 0 = 1" "0 < gnext ds_open" "g_consume (gs ds_open 0)" by code_simp+
  then show ?thesis using consume_once_at_most_once [OF demo_contract demo_run [folded demo_held_def], of 0] by simp
qed

theorem single_writer_witness:
  "h_live (hs ds_written 0) = Some 0 \<and> g_state (gs ds_written 0) = genLive
    \<and> size {#t \<in># demo_tasks. t_writer t \<noteq> None \<and> h_name (hs ds_written (t_handle t)) = ''a''#} \<le> 1"
  using single_writer [OF demo_contract demo_run_written [folded demo_tasks_def], of "''a''"]
  by (simp add: demo_tasks_def dw_full_def dw_new_def new_writer_def)

theorem registry_exact_witness:
  "map_of (reg ds_open) (h_name (hs ds_open 0)) = Some 0 \<and> h_leases (hs ds_open 0) = 1"
  using registry_exact [OF demo_contract demo_run [folded demo_held_def]] by (simp add: demo_held_def demo_reader_def lease_count_def)

end
