(* ===== verification/StoreWake.thy ===== *)
theory StoreWake imports StoreDemo begin

text \<open>
  No wakeup of a waiting \<open>Open\<close> is lost.  A step that leaves a handle's notifier channel alone
  leaves everything a resolve reads through that handle as it was, except that a value may have been
  claimed; so a waiter still parked on its captured channel has nothing to read.
\<close>

definition steady :: "('b, 'w) store \<Rightarrow> ('b, 'w) store \<Rightarrow> bool" where
  "steady s s' \<longleftrightarrow>
     (\<forall>g < gnext s. g_state (gs s g) \<noteq> genLive \<longrightarrow>
        g_expires (gs s' g) = g_expires (gs s g) \<and> g_id (gs s' g) = g_id (gs s g))
     \<and> (\<forall>h < hnext s. h_notify (hs s h) \<le> h_notify (hs s' h)
        \<and> (h_notify (hs s' h) = h_notify (hs s h) \<longrightarrow>
             h_current (hs s' h) = h_current (hs s h) \<and> h_live (hs s' h) = h_live (hs s h)))"

lemma steady_refl [simp]: "steady s s"
  by (simp add: steady_def)

text \<open>A section that rewrites neither the handles nor the identity and deadline of a generation.\<close>

lemma steady_frame:
  assumes "hs s' = hs s" and "\<And>g. g_expires (gs s' g) = g_expires (gs s g)" "\<And>g. g_id (gs s' g) = g_id (gs s g)"
  shows "steady s s'"
  using assms by (simp add: steady_def)

lemma steady_simple [simp]:
  "steady s (give_bytes g s)" "steady s (give_clip s)" "steady s (med_remove M g s)"
  "steady s (return_tail n s)" "steady s (s\<lparr>world := w\<rparr>)"
  by (simp_all add: steady_def give_bytes_def give_clip_def med_remove_def return_tail_def)

lemma steady_acquire:
  assumes "acquire name s = (s', h)" and "\<forall>h. map_of (reg s) name = Some h \<longrightarrow> h < hnext s"
  shows "steady s s'"
  using assms
  by (auto simp: acquire_def steady_def upd_h_def Let_def split: option.splits)

lemma steady_release: "steady s (release h s)"
  by (simp add: release_def steady_def upd_h_def Let_def)

lemma steady_stamp:
  assumes "g_state (gs s g) = genLive"
  shows "steady s (stamp now g s)"
  using assms by (simp add: stamp_def steady_def upd_g_def Let_def)

lemma steady_clear: "steady s (clear_section h g s)"
  by (auto simp: clear_section_def transition_def steady_def wake_h_def upd_h_def split: prod.splits if_splits)

lemma steady_flip:
  "flip_section wr s = (s', r) \<Longrightarrow> steady s s'"
  by (auto simp: flip_section_def transitionResult_def steady_def wake_h_def upd_h_def upd_g_def Let_def)

lemma steady_discard:
  "discard_section wr s = (s', r) \<Longrightarrow> steady s s'"
  by (auto simp: discard_section_def transitionResult_def steady_def wake_h_def upd_h_def)

lemma steady_retired:
  assumes "retire M h g s = (s', r, e)"
  shows "gs s' = gs s" and "r = None \<Longrightarrow> hs s' = hs s"
    and "r \<noteq> None \<Longrightarrow> hs s' = (hs s)(h := hs s h\<lparr>h_current := None\<rparr>)"
  using assms by (auto simp: retire_def upd_h_def Let_def split: prod.splits if_splits)

lemma steady_delete:
  assumes "delete_section M h now s = (s', r, e)"
  shows "steady s s'"
proof (cases "presentCurrent (gs s) (hs s h) now")
  case None
  then show ?thesis using assms by (simp add: delete_section_def transitionResult_def)
next
  case (Some c)
  obtain s1 r1 f where rt: "retire M h c s = (s1, r1, f)" by (cases "retire M h c s") auto
  note t = steady_retired [OF rt]
  have s': "s' = (if r1 \<noteq> None then wake_h h s1 else s1)"
    using assms Some rt by (auto simp: delete_section_def transitionResult_def split: if_splits)
  show ?thesis
    using t s' by (cases r1) (auto simp: steady_def wake_h_def upd_h_def)
qed

lemma steady_reap:
  assumes "reap_section M h cid now s = (s', r, e)"
  shows "steady s s'"
proof (cases "expiredCurrent (gs s) (hs s h) now")
  case None
  then show ?thesis using assms by (simp add: reap_section_def transitionResult_def)
next
  case (Some c)
  obtain s1 r1 f where rt: "retire M h c s = (s1, r1, f)" by (cases "retire M h c s") auto
  note t = steady_retired [OF rt]
  have s': "s' = (if g_id (gs s c) \<noteq> cid then s else if r1 \<noteq> None then wake_h h s1 else s1)"
    using assms Some rt by (auto simp: reap_section_def transitionResult_def split: if_splits)
  show ?thesis
    using t s' by (cases r1) (auto simp: steady_def wake_h_def upd_h_def)
qed

lemma steady_admit:
  assumes "admit_section M h name m po now rnd s = (s', r, e)"
  shows "steady s s'"
  using assms
  by (auto simp: admit_section_def transitionResult_def admit_def steady_def wake_h_def upd_h_def
      give_clip_def Let_def split: if_splits prod.splits bool.splits sum.splits)

lemma steady_buf:
  "buf_terminal f g s = (s', e) \<Longrightarrow> steady s s'"
  by (auto simp: buf_terminal_def steady_def upd_g_def split: prod.splits)

lemma steady_append: "append_chunk M g p s = (s', k, e) \<Longrightarrow> steady s s'"
  by (auto simp: append_chunk_def steady_def upd_g_def split: prod.splits)

lemma steady_read: "leased_Read M ctx len l s = (s', l', out) \<Longrightarrow> steady s s'"
  by (auto simp: leased_Read_def Let_def split: prod.splits reader.splits if_splits)

lemma steady_close_rc: "close_rc M l s = (s', l', e) \<Longrightarrow> steady s s'"
  by (auto simp: close_rc_def Let_def steady_def upd_g_def split: prod.splits reader.splits)

lemma open_reader_frame:
  assumes "open_reader M g s = (s', r)"
  shows "hs s' = hs s" and "g_expires (gs s' x) = g_expires (gs s x)" and "g_id (gs s' x) = g_id (gs s x)"
  using assms by (auto simp: open_reader_def upd_g_def split: prod.splits if_splits)

lemma commit_open_frame:
  assumes "commit_open M c g name s = (s', r, b, e)"
  shows "hs s' = hs s" and "g_expires (gs s' x) = g_expires (gs s x)" and "g_id (gs s' x) = g_id (gs s x)"
  using assms open_reader_frame [of M g s]
  by (auto simp: commit_open_def Let_def split: prod.splits sum.splits)

lemma commitRead_frame:
  assumes "commitRead M ctx g name s = (s', r, b, e)"
  shows "hs s' = hs s" and "g_expires (gs s' x) = g_expires (gs s x)" and "g_id (gs s' x) = g_id (gs s x)"
  using assms
  by (auto simp: commitRead_def Let_def upd_g_def dest: commit_open_frame split: prod.splits if_splits option.splits)

lemma steady_turn:
  assumes "open_turn M ctx now os s = ((s', os'), res)"
  shows "steady s s'"
proof -
  obtain s1 os1 r where rs: "open_resolve now (s, os) = ((s1, os1), r)"
    by (cases "open_resolve now (s, os)") auto
  have s1: "s1 = s" using open_resolve_fields(1) [OF rs] .
  show ?thesis
  proof (cases r)
    case (Inl e)
    then show ?thesis using assms rs s1 by (auto simp: open_turn_def await_turn_def split: if_splits)
  next
    case (Inr g)
    obtain s2 r2 b2 e2 where c: "commitRead M ctx g (os_name os) s = (s2, r2, b2, e2)"
      by (cases "commitRead M ctx g (os_name os) s") auto
    have "s' = (if b2 then wake_h (os_h os) s2 else s2)"
      using assms rs s1 c Inr by (auto simp: open_turn_def await_turn_def split: if_splits)
    then show ?thesis
      using commitRead_frame [OF c] by (auto simp: steady_def wake_h_def upd_h_def)
  qed
qed

subsection \<open>Every step is steady\<close>

lemma sched_steady:
  assumes "sched M c e c'" and "inv (view (fst c)) (snd c)"
  shows "steady (fst c) (fst c')"
proof -
  have reg: "map_of (reg (fst c)) n = Some h \<Longrightarrow> h < hnext (fst c)" for n h
    using inv_regD(1) [OF invD(1) [OF assms(2)], of n h] by simp
  have acq: "steady s s'" if "c = (s, T)" "acquire name s = (s', h)" for s s' T name h
    using steady_acquire [OF that(2)] reg that(1) by simp
  show ?thesis using assms(1)
  proof (cases rule: sched.cases)
    case (start_open name go ctx s s' os T)
    then show ?thesis using steady_acquire [OF open_begin_acquire [OF start_open(4)]] reg by simp
  next
    case (close_stamp s wr T now)
    then show ?thesis
      using steady_stamp [of s "wr_g wr"] writer_live(2) [of "view s" "TWriter wr" T "wr_g wr"] assms(2) by simp
  next
    case (write_reserve wr p s s' T)
    then have "hs s' = hs s \<and> gs s' = gs s" by (auto simp: reserve_section_def split: prod.splits)
    then show ?thesis using write_reserve(1-3) by (simp add: steady_frame)
  next
    case (sweep_window now prior s s' b T)
    then have "hs s' = hs s \<and> gs s' = gs s" by (auto simp: reclaim_claim_def split: if_splits)
    then show ?thesis using sweep_window(1-3) by (simp add: steady_frame)
  next
    case (close_finalize_ok wr s s' ca T)
    then show ?thesis by (auto simp: finalize_medium_def split: prod.splits)
  next
    case (close_finalize_fail wr s s' ca ea T)
    then show ?thesis by (auto simp: finalize_medium_def split: prod.splits)
  qed (auto dest: acq steady_admit steady_append steady_buf steady_flip steady_discard
      steady_turn steady_read steady_close_rc steady_delete steady_reap simp: steady_clear steady_release)
qed

subsection \<open>What a resolve can see\<close>

definition ready :: "time \<Rightarrow> openState \<Rightarrow> ('b, 'w) store \<Rightarrow> bool" where
  "ready now os s \<longleftrightarrow> (\<exists>g. snd (open_resolve now (s, os)) = Inr g)"

definition cursor :: "openState \<Rightarrow> ('b, 'w) store \<Rightarrow> genID" where
  "cursor os s =
     (if os_captured os then os_baseline os
      else case h_current (hs s (os_h os)) of Some c \<Rightarrow> g_id (gs s c) | None \<Rightarrow> os_baseline os)"

lemma ready_cases:
  "ready now os s \<longleftrightarrow>
     (\<exists>l. h_live (hs s (os_h os)) = Some l \<and> \<not> g_consume (gs s l))
     \<or> (\<exists>c. h_current (hs s (os_h os)) = Some c \<and> g_state (gs s c) = genFinalized
          \<and> \<not> expired (gs s c) now \<and> (os_follow os \<longrightarrow> id_after (g_id (gs s c)) (cursor os s)))"
proof -
  let ?x = "hs s (os_h os)"
  have r: "(\<exists>g. resolveRead (gs s) ?x now = Inr g) \<longleftrightarrow>
      (\<exists>l. followable_live (gs s) ?x = Some l) \<or> (\<exists>c. presentCurrent (gs s) ?x now = Some c)"
    by (auto simp: resolveRead_def split: option.splits)
  have f: "(\<exists>g. followResolve (gs s) ?x b now = Inr g) \<longleftrightarrow>
      (\<exists>l. followable_live (gs s) ?x = Some l)
      \<or> (\<exists>c. presentCurrent (gs s) ?x now = Some c \<and> id_after (g_id (gs s c)) b)" for b
    by (auto simp: followResolve_def split: option.splits)
  have "snd (open_resolve now (s, os)) =
      (if os_follow os then followResolve (gs s) ?x (cursor os s) now else resolveRead (gs s) ?x now)"
    by (simp add: open_resolve_def Let_def cursor_def split: option.splits)
  then show ?thesis
    using r f [of "cursor os s"] by (simp add: ready_def presentCurrent_Some followable_live_Some)
qed

lemma expired_later: "expired g now \<Longrightarrow> now \<le> now' \<Longrightarrow> expired g now'"
  by (auto simp: expired_def After_def)

lemma ready_earlier: "ready now' os s \<Longrightarrow> now \<le> now' \<Longrightarrow> ready now os s"
  unfolding ready_cases using expired_later by blast

text \<open>A step that leaves the channel alone makes nothing readable through the handle.\<close>

lemma steady_ready:
  assumes st: "steady s s'" and i: "inv (view s) T" and h: "os_h os < hnext s"
    and g: "gens_kept (view s) e (view s')"
    and same: "h_notify (hs s' (os_h os)) = h_notify (hs s (os_h os))" and r: "ready now os s'"
  shows "ready now os s"
proof -
  note ptr = inv_ptrD [OF invD(2) [OF i]]
  have cur: "h_current (hs s' (os_h os)) = h_current (hs s (os_h os))"
    and live: "h_live (hs s' (os_h os)) = h_live (hs s (os_h os))"
    using st h same by (simp_all add: steady_def)
  have c: "c < gnext s \<and> g_expires (gs s' c) = g_expires (gs s c) \<and> g_id (gs s' c) = g_id (gs s c)
      \<and> (g_state (gs s' c) = genFinalized \<longrightarrow> g_state (gs s c) = genFinalized)"
    if "h_current (hs s (os_h os)) = Some c" for c
  proof -
    have "c < gnext s" "g_state (gs s c) \<noteq> genLive" using ptr(1,3) [of "os_h os" c] h that by simp_all
    then show ?thesis using st g by (cases "g_state (gs s c)") (auto simp: steady_def gens_kept_def)
  qed
  have l: "g_consume (gs s' l) = g_consume (gs s l)" if "h_live (hs s (os_h os)) = Some l" for l
    using g ptr(4) [of "os_h os" l] h that by (simp add: gens_kept_def)
  have "cursor os s' = cursor os s" using cur c by (auto simp: cursor_def split: option.splits)
  then show ?thesis
    using r cur live c l unfolding ready_cases by (auto simp: expired_def)
qed

subsection \<open>The gate's contract, on the store's steps\<close>

text \<open>
  One step of anybody while the waiter \<open>os\<close> stays parked on channel \<open>ch\<close>.  These are the moves the
  gate's contract asks about, and the store's steps keep it.
\<close>

definition parked_step ::
  "('b, 'h, 'w) medium \<Rightarrow> openState \<Rightarrow> nat \<Rightarrow> ('b, 'h, 'w) config \<Rightarrow> ('b, 'h, 'w) config \<Rightarrow> bool" where
  "parked_step M os ch c c' \<longleftrightarrow> TParked os ch \<in># snd c \<and> (\<exists>e. sched M c e c') \<and> TParked os ch \<in># snd c'"

definition parked_move ::
  "('b, 'h, 'w) medium \<Rightarrow> openState \<Rightarrow> nat \<Rightarrow> ('b, 'h, 'w) config \<Rightarrow> ('b, 'h, 'w) config \<Rightarrow> bool" where
  "parked_move M os ch c c' \<longleftrightarrow>
     medium_contract M \<and> inv (view (fst c)) (snd c) \<and> parked_step M os ch c c'"

lemma parked_handle:
  assumes "inv (view s) T" and "TParked os ch \<in># T"
  shows "os_h os < hnext s"
  using inv_regD(7) [OF invD(1) [OF assms(1)] assms(2)] by simp

lemma parked_moveD:
  assumes "parked_move M os ch c c'"
  shows "steady (fst c) (fst c')" and "os_h os < hnext (fst c)"
    and "\<exists>e. gens_kept (view (fst c)) e (view (fst c'))" and "inv (view (fst c)) (snd c)"
proof -
  obtain e where m: "medium_contract M" and i: "inv (view (fst c)) (snd c)"
    and t: "TParked os ch \<in># snd c" and sc: "sched M c e c'"
    using assms by (auto simp: parked_move_def parked_step_def)
  show "steady (fst c) (fst c')" using sched_steady [OF sc i] .
  show "os_h os < hnext (fst c)" using parked_handle [OF i t] .
  show "\<exists>e. gens_kept (view (fst c)) e (view (fst c'))"
    using veff_gens_kept [OF medium_contract.sched_veff [OF m sc i]] by blast
  show "inv (view (fst c)) (snd c)" by (rule i)
qed

interpretation waiter:
  gate_contract "\<lambda>c. chan_h (os_h os) (fst c)" "\<lambda>c. ready now os (fst c)" "parked_move M os ch"
  for M :: "('b, 'h, 'w) medium" and os now ch
proof
  fix c c' :: "('b, 'h, 'w) config"
  assume m: "parked_move M os ch c c'"
  note d = parked_moveD [OF m]
  show "chan_h (os_h os) (fst c) \<le> chan_h (os_h os) (fst c')"
    using d(1,2) by (simp add: steady_def chan_h_def)
  show "ready now os (fst c)"
    if "chan_h (os_h os) (fst c') = chan_h (os_h os) (fst c)" "ready now os (fst c')"
    using steady_ready [OF d(1,4,2)] d(3) that by (auto simp: chan_h_def)
qed

lemma parked_moves:
  assumes "medium_contract M" and "inv (view (fst c)) (snd c)" and "(parked_step M os ch)\<^sup>*\<^sup>* c c'"
  shows "(parked_move M os ch)\<^sup>*\<^sup>* c c' \<and> inv (view (fst c')) (snd c')"
  using assms(3)
proof (induction rule: rtranclp_induct)
  case base then show ?case using assms(2) by simp
next
  case (step y z)
  then have "parked_move M os ch y z" using assms(1) by (simp add: parked_move_def)
  moreover obtain e where "sched M y e z" using step.hyps(2) by (auto simp: parked_step_def)
  then have "inv (view (fst z)) (snd z)"
    using medium_contract.sched_inv [OF assms(1)] step.IH by blast
  ultimately show ?case using step.IH by (meson rtranclp.rtrancl_into_rtrancl)
qed

text \<open>
  C12. No wakeup of a waiting \<open>Open\<close> is lost.  Take any reachable store in which an \<open>Open\<close> with
  waiting asked finds nothing and parks, and let anything at all happen while it stays parked.  If
  at that later moment a read of the name would find a value, at any clock from the park on, then
  the channel it waits on has been closed and the waiter can turn again: it is never left asleep
  beside a value it was waiting for.
\<close>

theorem open_no_lost_wakeup:
  assumes "medium_contract M" and "run M (newStore w blank cfg, {#}) evs (s, add_mset (TOpen os) T)"
    and "open_turn M ctx now os s = ((s1, os1), Park ch)"
    and "(parked_step M os1 ch)\<^sup>*\<^sup>* (s1, add_mset (TParked os1 ch) T) (s2, T2)"
    and "now \<le> now'" and "snd (open_resolve now' (s2, os1)) = Inr g"
  shows "chan_h (os_h os1) s2 \<noteq> ch
    \<and> sched M (s2, add_mset (TParked os1 ch) (T2 - {#TParked os1 ch#})) Tau
        (s2, add_mset (TOpen os1) (T2 - {#TParked os1 ch#}))"
proof -
  note p = open_turn_park [OF assms(3)]
  have "inv (view s1) (add_mset (TParked os1 ch) T)"
    using medium_contract.sched_inv [OF assms(1) open_park [OF assms(3)]] reachable_inv [OF assms(1,2)] by simp
  then have "(parked_move M os1 ch)\<^sup>*\<^sup>* (s1, add_mset (TParked os1 ch) T) (s2, T2)"
    using parked_moves [OF assms(1) _ assms(4)] by simp
  moreover have "\<not> ready now os1 s1"
  proof -
    have "open_resolve now (s, os1) = open_resolve now (s, os)"
      using p(4) by (auto simp: open_resolve_def Let_def split: if_splits option.splits)
    then show ?thesis using p(1,4) by (simp add: ready_def)
  qed
  moreover have "ready now os1 s2"
    using ready_earlier [of now' os1 s2 now] assms(5,6) by (auto simp: ready_def)
  ultimately have "chan_h (os_h os1) s2 \<noteq> chan_h (os_h os1) s1"
    using waiter.parked_or_woken [of M os1 ch "(s1, add_mset (TParked os1 ch) T)" "(s2, T2)" now] by simp
  then have "chan_h (os_h os1) s2 \<noteq> ch" using p(1-3) by simp
  then show ?thesis by (simp add: park_wake)
qed

definition demo_wait :: openState where
  "demo_wait = demo_os\<lparr>os_wait := True\<rparr>"

definition dw_waiting :: mstore where "dw_waiting = fst (acquire ''a'' ds_new)"
definition dw_leased :: mstore where "dw_leased = fst (acquire ''a'' dw_waiting)"
definition dw_live :: mstore where
  "dw_live = fst (admit_section demo_medium 0 ''a'' demo_meta (demo_po\<lparr>po_ConsumeOnce := False\<rparr>) 5 demo_rnd dw_leased)"

lemma demo_wait_evals:
  "snd (acquire ''a'' ds_new) = 0" "snd (acquire ''a'' dw_waiting) = 0"
  "snd (admit_section demo_medium 0 ''a'' demo_meta (demo_po\<lparr>po_ConsumeOnce := False\<rparr>) 5 demo_rnd dw_leased) = (Some 0, None)"
  "snd (open_resolve 9 (dw_live, demo_wait)) = Inr 0"
  "snd (fst (open_turn demo_medium None 3 demo_wait dw_waiting)) = demo_wait"
  by code_simp+

lemma demo_parks: "open_turn demo_medium None 3 demo_wait dw_waiting = ((dw_waiting, demo_wait), Park 0)"
proof -
  have "snd (open_turn demo_medium None 3 demo_wait dw_waiting) = Park 0" by code_simp
  then obtain s' os' where t: "open_turn demo_medium None 3 demo_wait dw_waiting = ((s', os'), Park 0)"
    by (metis prod.collapse)
  then show ?thesis using open_turn_park(1) [OF t] demo_wait_evals(5) by simp
qed

theorem open_no_lost_wakeup_witness: "chan_h 0 dw_live \<noteq> 0"
proof -
  let ?p = "TParked demo_wait 0 :: unit task"
  let ?a = "TAdmit 0 ''a'' demo_meta (demo_po\<lparr>po_ConsumeOnce := False\<rparr>)"
  have h: "os_h demo_wait = 0" by (simp add: demo_wait_def demo_os_def)
  have "open_begin ''a'' \<lparr>go_Wait = True, go_FollowNext = False, go_WaitMax = 0\<rparr> None ds_new = (dw_waiting, Inr demo_wait)"
    using demo_evals(1) demo_wait_evals(1)
    by (simp add: open_begin_def dw_waiting_def demo_wait_def demo_os_def case_prod_beta)
  then have r: "run demo_medium demo_c0 [Tau] (dw_waiting, {#TOpen demo_wait#})"
    using run_step [OF run_start start_open [where T = "{#}"]] by (simp add: ds_new_def)
  have 1: "parked_step demo_medium demo_wait 0 (dw_waiting, {#?p#}) (dw_leased, {#?p, ?a#})"
    using start_create [OF demo_evals(1) pair_eqI [OF demo_wait_evals(2)],
        where M = demo_medium and T = "{#?p#}" and m = "\<lparr>Kind = KindBytes, Filename = '''', Executable = False\<rparr>"
          and po = "demo_po\<lparr>po_ConsumeOnce := False\<rparr>"]
    by (auto simp: parked_step_def dw_leased_def demo_meta_def add_mset_commute)
  have 2: "parked_step demo_medium demo_wait 0 (dw_leased, {#?p, ?a#}) (dw_live, {#?p, TWriter (new_writer 0 0)#})"
    using admit_ok [OF pair_eqI [OF demo_wait_evals(3)], of "{#?p#}"]
    by (auto simp: parked_step_def dw_live_def add_mset_commute)
  have "(parked_step demo_medium demo_wait 0)\<^sup>*\<^sup>* (dw_waiting, {#?p#}) (dw_live, {#?p, TWriter (new_writer 0 0)#})"
    using 1 2 by (meson rtranclp.rtrancl_into_rtrancl rtranclp.rtrancl_refl)
  then show ?thesis
    using open_no_lost_wakeup [OF demo_contract r demo_parks _ _ demo_wait_evals(4)] h by simp
qed

end
