(* ===== verification/StoreSeq.thy ===== *)
theory StoreSeq imports StoreProps Streams begin

text \<open>
  The store's operations run one after another: what each admission decides, what a terminal leaves
  behind, and that what was written is what is read.
\<close>

subsection \<open>Admission\<close>

lemma admit_section_eq:
  "admit_section M h name m po now rnd s =
     (case admit M h name m po now rnd s of (s1, r, b, e) \<Rightarrow> (if b then wake_h h s1 else s1, r, e))"
  by (simp add: admit_section_def transitionResult_def)

text \<open>What an admission leaves as it was: everything but the id seed and the outside world.\<close>

definition admission_frame :: "('b, 'w) store \<Rightarrow> ('b, 'w) store \<Rightarrow> bool" where
  "admission_frame s s' \<longleftrightarrow> reg s' = reg s \<and> gs s' = gs s \<and> gnext s' = gnext s \<and> squota s' = squota s
     \<and> (\<forall>x. h_current (hs s' x) = h_current (hs s x) \<and> h_live (hs s' x) = h_live (hs s x)
          \<and> h_leases (hs s' x) = h_leases (hs s x) \<and> h_notify (hs s' x) = h_notify (hs s x))"

lemma releaseClip_reserveClip: "reserveClip q = (q', True) \<Longrightarrow> releaseClip q' = q"
  by (auto simp: reserveClip_def releaseClip_def Let_def split: if_splits)

lemma admit_refused:
  assumes "admit M h name m po now rnd s = (s', r, b, Some e)"
  shows "admission_frame s s'" and "\<not> b" and "r = None"
  using assms
  by (auto simp: admit_def admission_frame_def give_clip_def upd_h_def Let_def
      dest: reserveClip_refused releaseClip_reserveClip
      split: if_splits prod.splits bool.splits sum.splits)


subsection \<open>A write that does not complete\<close>

lemma discard_keeps:
  assumes "discard M wr s = (s', wr')"
  shows "h_current (hs s' h) = h_current (hs s h) \<and> (c \<noteq> wr_g wr \<longrightarrow> gs s' c = gs s c)
    \<and> g_state (gs s' (wr_g wr)) = g_state (gs s (wr_g wr))
    \<and> baborted (g_buf (gs s' (wr_g wr))) \<and> h_live (hs s' (wr_h wr)) = None \<and> wr_done wr'"
  using assms
  by (auto simp: discard_def discard_section_def transitionResult_def finish_def reclaim_def give_clip_def
      give_bytes_def med_remove_def release_def gate_peek_def buf_terminal_def buf_Fail_def wakeLocked_def
      wake_h_def upd_h_def upd_g_def Let_def split: prod.splits if_splits)


end
