(* ===== verification/ReadWrites.thy ===== *)
theory ReadWrites imports StoreSeq StoreDemo begin

text \<open>
  The whole life of a clip in the memory store, from its creation through its chunks and its publish
  to a reader: what was written is what is read.
\<close>

subsection \<open>What was written is what is read\<close>

text \<open>The bytes reach the store in chunks, each a \<open>Write\<close> with the clock its retry would read.\<close>

fun write_all ::
  "('b, 'h, 'w) medium \<Rightarrow> (byte list \<times> time) list \<Rightarrow> writer \<Rightarrow> ('b, 'w) store
   \<Rightarrow> ('b, 'w) store \<times> writer \<times> err option" where
  "write_all M [] wr s = (s, wr, None)"
| "write_all M ((p, now) # ps) wr s =
     (case writer_Write M wr p now s of
        (s, wr, n, Some e) \<Rightarrow> (s, wr, Some e)
      | (s, wr, n, None) \<Rightarrow> write_all M ps wr s)"

definition reg_ok :: "('b, 'w) store \<Rightarrow> bool" where
  "reg_ok s \<longleftrightarrow> (\<forall>n h. map_of (reg s) n = Some h \<longrightarrow> h < hnext s \<and> h_name (hs s h) = n)"

lemma reg_okD:
  assumes "reg_ok s" and "map_of (reg s) n = Some h"
  shows "h < hnext s" and "h_name (hs s h) = n"
  using assms by (simp_all add: reg_ok_def)

lemma reg_okI:
  assumes "\<And>n h. map_of (reg s) n = Some h \<Longrightarrow> h < hnext s \<and> h_name (hs s h) = n"
  shows "reg_ok s"
  using assms by (simp add: reg_ok_def)

lemma reg_ok_frame:
  assumes "reg_ok s" and "reg s' = reg s" "hnext s' = hnext s" "\<And>x. h_name (hs s' x) = h_name (hs s x)"
  shows "reg_ok s'"
  using assms by (simp add: reg_ok_def)

text \<open>An upload of \<open>name\<close> in progress, with the bytes \<open>p\<close> stored so far.\<close>

definition uploading ::
  "(memBacking, 'w) store \<Rightarrow> writer \<Rightarrow> string \<Rightarrow> Meta \<Rightarrow> bool \<Rightarrow> duration \<Rightarrow> byte list \<Rightarrow> bool" where
  "uploading s wr name m once ttl p \<longleftrightarrow>
     \<not> wr_done wr \<and> reg_ok s \<and> map_of (reg s) name = Some (wr_h wr)
     \<and> h_live (hs s (wr_h wr)) = Some (wr_g wr)
     \<and> (let g = gs s (wr_g wr) in g_state g = genLive \<and> g_name g = name \<and> g_meta g = m
          \<and> g_consume g = once \<and> g_ttl g = ttl \<and> g_expires g = zero_time \<and> bback (g_buf g) = p
          \<and> bsize (g_buf g) = word_of_nat (length p) \<and> \<not> terminated (g_buf g))"

lemma reg_ok_acquire:
  assumes "acquire name s = (s', h)" and "reg_ok s"
  shows "reg_ok s'" and "map_of (reg s') name = Some h" and "gs s' = gs s"
    and "map_of (reg s) n = Some h' \<Longrightarrow> map_of (reg s') n = Some h'
          \<and> h_live (hs s' h') = h_live (hs s h') \<and> h_current (hs s' h') = h_current (hs s h')"
proof -
  have all: "reg_ok s' \<and> map_of (reg s') name = Some h \<and> gs s' = gs s
    \<and> (map_of (reg s) n = Some h' \<longrightarrow> map_of (reg s') n = Some h'
         \<and> h_live (hs s' h') = h_live (hs s h') \<and> h_current (hs s' h') = h_current (hs s h'))" for n h'
  proof (cases "map_of (reg s) name")
    case None
    then have s': "s' = upd_h h (\<lambda>x. x\<lparr>h_leases := h_leases x + 1\<rparr>)
        (s\<lparr>hs := (hs s)(hnext s := newHandle name), reg := (name, hnext s) # reg s, hnext := Suc (hnext s)\<rparr>)"
      "h = hnext s" using assms(1) None by (auto simp: acquire_def)
    have w: "x < Suc (hnext s) \<and> x \<noteq> hnext s \<and> h_name (hs s x) = k" if "map_of (reg s) k = Some x" for k x
      using reg_okD [OF assms(2) that] by auto
    show ?thesis
      unfolding reg_ok_def s' using None by (auto simp: upd_h_def newHandle_def dest!: w)
  next
    case (Some h0)
    have "reg_ok s'" if "s' = upd_h h (\<lambda>x. x\<lparr>h_leases := h_leases x + 1\<rparr>) s"
      by (rule reg_ok_frame [OF assms(2)]) (simp_all add: that upd_h_def)
    then show ?thesis using Some assms(1) by (auto simp: acquire_def upd_h_def)
  qed
  show "reg_ok s'" "map_of (reg s') name = Some h" "gs s' = gs s"
    "map_of (reg s) n = Some h' \<Longrightarrow> map_of (reg s') n = Some h'
       \<and> h_live (hs s' h') = h_live (hs s h') \<and> h_current (hs s' h') = h_current (hs s h')"
    using all by blast+
qed

lemma map_of_filter_other: "n \<noteq> x \<Longrightarrow> map_of (filter (\<lambda>p. fst p \<noteq> x) r) n = map_of r n"
  by (induction r) auto

lemma map_of_filter_self: "map_of (filter (\<lambda>p. fst p \<noteq> x) r) x = None"
  by (induction r) auto

lemma map_of_filter_Some: "map_of (filter (\<lambda>p. fst p \<noteq> x) r) n = Some h \<Longrightarrow> map_of r n = Some h"
  by (cases "n = x") (simp_all add: map_of_filter_other map_of_filter_self)

lemma release_keeps:
  assumes "reg_ok s" and "map_of (reg s) (h_name (hs s h)) = Some h"
  shows "reg_ok (release h s)" and "gs (release h s) = gs s"
    and "h_live (hs (release h s) h') = h_live (hs s h')" "h_current (hs (release h s) h') = h_current (hs s h')"
    and "map_of (reg s) n = Some h' \<Longrightarrow> h_live (hs s h') \<noteq> None \<or> h_current (hs s h') \<noteq> None \<Longrightarrow>
      map_of (reg (release h s)) n = Some h'"
proof -
  show "reg_ok (release h s)"
  proof (rule reg_okI)
    fix k x assume r: "map_of (reg (release h s)) k = Some x"
    have "map_of (reg s) k = Some x"
      using r map_of_filter_Some [of "h_name (hs s h)" "reg s" k x]
      by (simp add: release_def upd_h_def Let_def split: if_splits)
    moreover have "hnext (release h s) = hnext s" "h_name (hs (release h s) x) = h_name (hs s x)"
      by (simp_all add: release_def upd_h_def Let_def)
    ultimately show "x < hnext (release h s) \<and> h_name (hs (release h s) x) = k"
      using reg_okD [OF assms(1)] by simp
  qed
  show "gs (release h s) = gs s" "h_live (hs (release h s) h') = h_live (hs s h')"
    "h_current (hs (release h s) h') = h_current (hs s h')"
    by (simp_all add: release_def upd_h_def Let_def)
  show "map_of (reg (release h s)) n = Some h'"
    if "map_of (reg s) n = Some h'" "h_live (hs s h') \<noteq> None \<or> h_current (hs s h') \<noteq> None"
  proof (cases "n = h_name (hs s h)")
    case True
    then have "h' = h" using that(1) assms(2) by simp
    then show ?thesis using that by (auto simp: release_def upd_h_def gate_peek_def Let_def)
  next
    case False
    then show ?thesis using that by (simp add: release_def upd_h_def gate_peek_def Let_def map_of_filter_other)
  qed
qed

lemma reserve_section_frame:
  "reserve_section n s = (s', b) \<Longrightarrow> reg s' = reg s \<and> hs s' = hs s \<and> gs s' = gs s \<and> hnext s' = hnext s"
  by (auto simp: reserve_section_def split: prod.splits)

lemma uploading_frame:
  assumes "uploading s wr name m once ttl p" and "reg_ok s'" and "gs s' = gs s"
    and "map_of (reg s') name = Some (wr_h wr)" "h_live (hs s' (wr_h wr)) = h_live (hs s (wr_h wr))"
  shows "uploading s' wr name m once ttl p"
  using assms by (simp add: uploading_def)

lemma uploading_reap:
  assumes u: "uploading s wr name m once ttl p" and r: "reapRemove M now c s = (s', b)"
  shows "uploading s' wr name m once ttl p"
proof -
  have ok: "reg_ok s" and nm: "map_of (reg s) name = Some (wr_h wr)" and lv: "h_live (hs s (wr_h wr)) \<noteq> None"
    using u by (simp_all add: uploading_def)
  obtain s1 h where a: "acquire (fst c) s = (s1, h)" by (cases "acquire (fst c) s")
  obtain s2 prev e where rs: "reap_section M h (snd c) now s1 = (s2, prev, e)"
    by (cases "reap_section M h (snd c) now s1") auto
  have s': "s' = release h (reclaim_opt M prev s2)"
    using r a rs by (simp add: reapRemove_def)
  note acq = reg_ok_acquire [OF a ok]
  have f: "reg s2 = reg s1 \<and> hnext s2 = hnext s1 \<and> gs s2 = gs s1
      \<and> (\<forall>x. h_name (hs s2 x) = h_name (hs s1 x) \<and> h_live (hs s2 x) = h_live (hs s1 x))"
    using rs
    by (auto simp: reap_section_def transitionResult_def retire_def wake_h_def upd_h_def Let_def
        split: option.splits if_splits prod.splits)
  define s3 where "s3 = reclaim_opt M prev s2"
  have g: "reg s3 = reg s2 \<and> hnext s3 = hnext s2 \<and> gs s3 = gs s2 \<and> hs s3 = hs s2"
    by (simp add: s3_def reclaim_opt_def reclaim_def give_clip_def give_bytes_def med_remove_def split: option.splits)
  have ok3: "reg_ok s3" using acq(1) f g by (simp add: reg_ok_def)
  have "h_name (hs s1 h) = fst c" using acq(1,2) by (simp add: reg_ok_def)
  then have h3: "map_of (reg s3) (h_name (hs s3 h)) = Some h" using acq(2) f g by simp
  have n3: "map_of (reg s3) name = Some (wr_h wr)" "h_live (hs s3 (wr_h wr)) = h_live (hs s (wr_h wr))"
    using acq(4) [OF nm] f g by simp_all
  note k = release_keeps [OF ok3 h3]
  show ?thesis
    unfolding s' s3_def [symmetric]
    using uploading_frame [OF u, of "release h s3"] k(1,2,3) k(5) [OF n3(1)] lv n3(2) acq(3) f g by simp
qed

lemma uploading_sweep:
  assumes "uploading s wr name m once ttl p"
  shows "uploading (fst (reapExpired M now s)) wr name m once ttl p"
proof -
  have "uploading (fst (foldl (\<lambda>(s, n) c. case reapRemove M now c s of (s, b) \<Rightarrow> (s, if b then Suc n else n))
      (s0, k) cs)) wr name m once ttl p"
    if "uploading s0 wr name m once ttl p" for s0 and k :: nat and cs
    using that
    by (induction cs arbitrary: s0 k) (auto dest: uploading_reap split: prod.splits)
  then show ?thesis using assms by (simp add: reapExpired_def)
qed

lemma uploading_reclaim:
  assumes "uploading s wr name m once ttl p"
  shows "uploading (fst (reclaimExpired M now s)) wr name m once ttl p"
proof -
  have "uploading (s\<lparr>lastReclaim := x\<rparr>) wr name m once ttl p" for x
    using uploading_frame [OF assms] assms by (simp add: uploading_def reg_ok_def)
  note c = this
  show ?thesis
    using assms uploading_sweep [OF c, where M = M and now = now]
    by (auto simp: reclaimExpired_def reclaim_claim_def Let_def case_prod_beta)
qed

subsection \<open>The upload, operation by operation\<close>

lemma uploading_create:
  assumes "createOnce memMedium name m po now rnd s = (s', Inr wr)" and "reg_ok s"
  shows "uploading s' wr name (Normalized m) (po_ConsumeOnce po) (resolveTTL po s) []"
    and "written wr = 0" and "ValidName name = None"
proof -
  obtain s1 h where a: "acquire name s = (s1, h)" by (cases "acquire name s")
  obtain s2 r e where ad: "admit_section memMedium h name (Normalized m) po now rnd s1 = (s2, r, e)"
    by (cases "admit_section memMedium h name (Normalized m) po now rnd s1") auto
  have v: "ValidName name = None" and e: "e = None" and eq: "s' = s2" "wr = new_writer h (the r)"
    using assms(1) a ad by (auto simp: createOnce_def Let_def split: option.splits)
  show "ValidName name = None" by (rule v)
  show "written wr = 0" by (simp add: eq new_writer_def)
  note acq = reg_ok_acquire [OF a assms(2)]
  have ttl: "resolveTTL po s1 = resolveTTL po s"
    using a by (auto simp: acquire_def resolveTTL_def upd_h_def Let_def split: option.splits)
  obtain s3 b where adm: "admit memMedium h name (Normalized m) po now rnd s1 = (s3, r, b, None)"
    and s2: "s2 = (if b then wake_h h s3 else s3)"
    using ad e by (auto simp: admit_section_eq split: prod.splits)
  have f: "reg s2 = reg s1 \<and> hnext s2 = hnext s1 \<and> (\<forall>x. h_name (hs s2 x) = h_name (hs s1 x))"
    using adm s2
    by (auto simp: admit_def wake_h_def upd_h_def give_clip_def Let_def
        split: if_splits prod.splits bool.splits sum.splits)
  have "reg_ok s2 \<and> map_of (reg s2) name = Some h"
    using reg_ok_frame [OF acq(1), of s2] f acq(2) by simp
  moreover have "r = Some (gnext s1) \<and> h_live (hs s2 h) = r \<and> g_expires (gs s2 (gnext s1)) = zero_time
      \<and> g_buf (gs s2 (gnext s1)) = NewMemory"
    using adm s2
    by (auto simp: admit_def memMedium_create_def wake_h_def upd_h_def give_clip_def Let_def
        split: if_splits prod.splits bool.splits sum.splits)
  moreover have "g_state (gs s2 (gnext s1)) = genLive \<and> g_name (gs s2 (gnext s1)) = name
      \<and> g_meta (gs s2 (gnext s1)) = Normalized m \<and> g_consume (gs s2 (gnext s1)) = po_ConsumeOnce po
      \<and> g_ttl (gs s2 (gnext s1)) = resolveTTL po s1"
    using adm s2
    by (auto simp: admit_def resolveTTL_def wake_h_def upd_h_def give_clip_def Let_def
        split: if_splits prod.splits bool.splits sum.splits)
  ultimately show "uploading s' wr name (Normalized m) (po_ConsumeOnce po) (resolveTTL po s) []"
    unfolding eq ttl [symmetric]
    by (auto simp: uploading_def new_writer_def NewMemory_def newBuffer_def terminated_def)
qed

lemma uploading_store:
  assumes "uploading s wr name m once ttl p" and "length q < 2 ^ 62"
    and "write_reserved memMedium wr q s = (s', wr', n, e)"
  shows "uploading s' wr' name m once ttl (p @ q) \<and> e = None"
proof -
  have "sint (word_of_nat (length q) :: int64) = int (length q)" using assms(2) by (intro sint64_of_nat) simp
  then show ?thesis
    using assms(1,3)
    by (auto simp: uploading_def write_reserved_def append_chunk_def buf_Append_def mem_append_def
        advance_def wakeLocked_def terminated_def upd_g_def reg_ok_def Let_def
        split: prod.splits if_splits)
qed

lemma uploading_reserve:
  assumes "uploading s wr name m once ttl p" and "reserve_section n s = (s', b)"
  shows "uploading s' wr name m once ttl p"
  using uploading_frame [OF assms(1)] reserve_section_frame [OF assms(2)] assms(1)
  by (simp add: uploading_def reg_ok_def)

lemma uploading_write:
  assumes "uploading s wr name m once ttl p" and "length q < 2 ^ 62"
    and "writer_Write memMedium wr q now s = (s', wr', n, None)"
  shows "uploading s' wr' name m once ttl (p @ q)"
proof -
  obtain s1 b1 where r1: "reserve_section (word_of_nat (length q)) s = (s1, b1)"
    by (cases "reserve_section (word_of_nat (length q)) s")
  define s2 where "s2 = fst (reclaimExpired memMedium now s1)"
  obtain s3 b3 where r3: "reserve_section (word_of_nat (length q)) s2 = (s3, b3)"
    by (cases "reserve_section (word_of_nat (length q)) s2")
  note u1 = uploading_reserve [OF assms(1) r1]
  have u3: "uploading s3 wr name m once ttl p"
    using uploading_reserve [OF uploading_reclaim [OF u1, where M = memMedium and now = now]] r3 by (simp add: s2_def)
  show ?thesis
    using assms(3) r1 r3 uploading_store [OF u1 assms(2)] uploading_store [OF u3 assms(2)]
    by (auto simp: writer_Write_def Let_def s2_def [symmetric] split: if_splits bool.splits)
qed

lemma uploading_writes:
  assumes "uploading s wr name m once ttl p" and "\<forall>(q, t) \<in> set ps. length q < 2 ^ 62"
    and "write_all memMedium ps wr s = (s', wr', None)"
  shows "uploading s' wr' name m once ttl (p @ concat (map fst ps))"
  using assms
proof (induction ps arbitrary: wr s p)
  case Nil
  then show ?case by simp
next
  case (Cons qt ps)
  obtain q t where qt: "qt = (q, t)" by (cases qt)
  obtain s1 wr1 n e where w: "writer_Write memMedium wr q t s = (s1, wr1, n, e)"
    by (cases "writer_Write memMedium wr q t s") auto
  have e: "e = None" using Cons.prems(3) w qt by (cases e) auto
  have "uploading s1 wr1 name m once ttl (p @ q)"
    using uploading_write [OF Cons.prems(1)] Cons.prems(2) w e qt by simp
  then show ?case using Cons.IH [of s1 wr1 "p @ q"] Cons.prems(2,3) w e qt by simp
qed

text \<open>What a successful \<open>Close\<close> publishes.\<close>

definition published ::
  "(memBacking, 'w) store \<Rightarrow> writer \<Rightarrow> string \<Rightarrow> Meta \<Rightarrow> bool \<Rightarrow> time \<Rightarrow> byte list \<Rightarrow> bool" where
  "published s wr name m once ex p \<longleftrightarrow>
     reg_ok s \<and> map_of (reg s) name = Some (wr_h wr) \<and> h_current (hs s (wr_h wr)) = Some (wr_g wr)
     \<and> (let g = gs s (wr_g wr) in g_state g = genFinalized \<and> g_name g = name \<and> g_meta g = m
          \<and> g_consume g = once \<and> g_expires g = ex \<and> bback (g_buf g) = p
          \<and> bsize (g_buf g) = word_of_nat (length p) \<and> bclosed (g_buf g) \<and> \<not> baborted (g_buf g))"

definition deadline :: "time \<Rightarrow> duration \<Rightarrow> time" where
  "deadline now ttl = (if ttl > 0 then now + ttl else zero_time)"

lemma close_publishes:
  assumes u: "uploading s wr name m once ttl p"
  shows "\<exists>s' wr'. writer_Close memMedium wr now s = (s', wr', None)
    \<and> published s' wr name m once (deadline now ttl) p \<and> writer_Clip wr' s' = gen_clip (gs s' (wr_g wr))"
proof -
  let ?h = "wr_h wr" and ?g = "wr_g wr"
  have ok: "reg_ok s" and nm: "map_of (reg s) name = Some ?h" and nd: "\<not> wr_done wr"
    and t: "\<not> terminated (g_buf (gs s ?g))" using u by (simp_all add: uploading_def Let_def)
  define s0 where "s0 = stamp now ?g s"
  have b0: "gs s0 ?g = gs s ?g\<lparr>g_finalized := now, g_expires := deadline now ttl\<rparr>"
    "reg s0 = reg s" "hnext s0 = hnext s" "hs s0 = hs s"
    using u by (simp_all add: s0_def stamp_def uploading_def deadline_def upd_g_def Let_def)
  define s1 where "s1 = fst (buf_terminal (buf_Sync memB) ?g s0)"
  have t0: "\<not> terminated (g_buf (gs s0 ?g))" using t b0(1) by simp
  then have y: "buf_terminal (buf_Sync memB) ?g s0 = (s1, None)"
    by (simp add: s1_def buf_terminal_def buf_Sync_def mem_sync_def)
  obtain s3 prev f e where fl: "flip_section wr s1 = (s3, (prev, f), e)"
    by (cases "flip_section wr s1") auto
  define s4 where "s4 = fst (buf_terminal (buf_Finish memB) ?g s3)"
  define s5 where "s5 = reclaim_opt memMedium prev s4"
  have z: "finalize_medium memMedium ?g s1 = (s1, True, None)"
    by (simp add: finalize_medium_def memMedium_finalize_def)
  have s': "writer_Close memMedium wr now s = (release ?h s5, wr\<lparr>framing := f, wr_done := True\<rparr>, None)"
    using nd y fl z
    by (simp add: writer_Close_def Let_def finish_def s0_def s4_def s5_def case_prod_beta)
  have b: "gs s1 ?g = gs s ?g\<lparr>g_finalized := now, g_expires := deadline now ttl\<rparr>"
    "reg s1 = reg s" "hnext s1 = hnext s" "hs s1 = hs s"
    using t0 b0 by (simp_all add: s1_def buf_terminal_def buf_Sync_def mem_sync_def upd_g_def)
  have d: "f = gen_clip (gs s3 ?g)" "gs s3 ?g = gs s1 ?g\<lparr>g_state := genFinalized\<rparr>" "reg s3 = reg s1" "hnext s3 = hnext s1"
    "h_current (hs s3 ?h) = Some ?g" "h_name (hs s3 x) = h_name (hs s1 x)" for x
    using fl
    by (auto simp: flip_section_def transitionResult_def wake_h_def upd_h_def upd_g_def Let_def)
  have f4: "gs s4 ?g = gs s3 ?g\<lparr>g_buf := (g_buf (gs s3 ?g))\<lparr>bclosed := True, bnotify := Suc (bnotify (g_buf (gs s3 ?g)))\<rparr>\<rparr>"
    "reg s4 = reg s3" "hnext s4 = hnext s3" "hs s4 = hs s3"
    by (simp_all add: s4_def buf_terminal_def buf_Finish_def mem_closeWrite_def wakeLocked_def upd_g_def Let_def)
  have f5: "gs s5 = gs s4" "reg s5 = reg s4" "hnext s5 = hnext s4" "hs s5 = hs s4"
    by (simp_all add: s5_def reclaim_opt_def reclaim_def give_clip_def give_bytes_def med_remove_def split: option.splits)
  have ok5: "reg_ok s5"
    by (rule reg_ok_frame [OF ok]) (simp_all add: f5 f4 d(3,4,6) b)
  have n5: "map_of (reg s5) name = Some ?h" using nm f5 f4 d b by simp
  then have "h_name (hs s5 ?h) = name" using reg_okD(2) [OF ok5] by simp
  then have r5: "map_of (reg s5) (h_name (hs s5 ?h)) = Some ?h" using n5 by simp
  have c5: "h_current (hs s5 ?h) = Some ?g" using f5 f4 d by simp
  note k = release_keeps [OF ok5 r5]
  show ?thesis
    unfolding s' using k(1,2,4) k(5) [OF n5] c5 u f5 f4 d b
    by (simp add: published_def uploading_def terminated_def writer_Clip_def gen_clip_def Let_def)
qed

definition plain_get :: GetOpts where
  "plain_get = \<lparr>go_Wait = False, go_FollowNext = False, go_WaitMax = 0\<rparr>"

lemma open_published:
  assumes p: "published s wr name m once ex p" and v: "ValidName name = None"
    and now: "ex = zero_time \<or> now \<le> ex"
  shows "\<exists>s' l c. store_Open memMedium name plain_get None now s = (s', Opened l c)
    \<and> lr_g l = wr_g wr \<and> bback (g_buf (gs s' (wr_g wr))) = p
    \<and> lr_rc l = RSection \<lparr>sr_h = (), sr_size = word_of_nat (length p), sr_off = 0, sr_once = False\<rparr>
    \<and> (lr_cleanup l \<noteq> None \<longleftrightarrow> once)
    \<and> Name c = name \<and> ClipMeta c = m \<and> Size c = word_of_nat (length p) \<and> Finalized c
    \<and> ExpiresAt c = ex \<and> ConsumeOnce c = once \<and> c = gen_clip (gs s (wr_g wr))"
proof -
  let ?g = "wr_g wr" and ?h = "wr_h wr"
  obtain s1 h where a: "acquire name s = (s1, h)" by (cases "acquire name s")
  have ok: "reg_ok s" and nm: "map_of (reg s) name = Some ?h" using p by (simp_all add: published_def Let_def)
  note acq = reg_ok_acquire [OF a ok]
  have h: "h = ?h" using acq(2) acq(4) [OF nm] by simp
  let ?os = "\<lparr>os_h = h, os_name = name, os_wait = False, os_follow = False, os_captured = False, os_baseline = zero_id\<rparr>"
  have g: "g_state (gs s1 ?g) = genFinalized" "\<not> expired (gs s1 ?g) now" "h_current (hs s1 h) = Some ?g"
    using p now acq(3) acq(4) [OF nm] h by (auto simp: published_def expired_def IsZero_def After_def Let_def)
  have r: "open_resolve now (s1, ?os) = ((s1, ?os), Inr ?g)"
    using g by (simp add: open_resolve_def resolveRead_def presentCurrent_def)
  have b: "open_begin name plain_get None s = (s1, Inr ?os)"
    using v a by (simp add: open_begin_def plain_get_def)
  have sec: "buf_Section memB b w = (b, w, Inr \<lparr>sr_h = (), sr_size = bsize b, sr_off = 0, sr_once = False\<rparr>)"
    for b and w :: 'a by (cases b) (simp add: buf_Section_def mem_openRead_def)
  have "\<exists>s2 res bb. commitRead memMedium None ?g name s1 = (s2, res, bb, None)
      \<and> or_rc res = Some (RSection \<lparr>sr_h = (), sr_size = word_of_nat (length p), sr_off = 0, sr_once = False\<rparr>)
      \<and> g_buf (gs s2 ?g) = g_buf (gs s1 ?g)
      \<and> (or_cleanup res \<noteq> None \<longleftrightarrow> once) \<and> Name (or_clip res) = name \<and> ClipMeta (or_clip res) = m
      \<and> Size (or_clip res) = word_of_nat (length p) \<and> Finalized (or_clip res)
      \<and> ExpiresAt (or_clip res) = ex \<and> ConsumeOnce (or_clip res) = once
      \<and> or_clip res = gen_clip (gs s ?g)"
    using p g acq(3)
    by (cases once)
      (auto simp: commitRead_def commit_open_def open_reader_def memMedium_claim_def sec gen_clip_def upd_g_def
        published_def Let_def)
  then obtain s2 res bb where cr: "commitRead memMedium None ?g name s1 = (s2, res, bb, None)"
    and res: "or_rc res = Some (RSection \<lparr>sr_h = (), sr_size = word_of_nat (length p), sr_off = 0, sr_once = False\<rparr>)"
      "g_buf (gs s2 ?g) = g_buf (gs s1 ?g)"
      "or_cleanup res \<noteq> None \<longleftrightarrow> once" "Name (or_clip res) = name" "ClipMeta (or_clip res) = m"
      "Size (or_clip res) = word_of_nat (length p)" "Finalized (or_clip res)"
      "ExpiresAt (or_clip res) = ex" "ConsumeOnce (or_clip res) = once"
      "or_clip res = gen_clip (gs s ?g)" by blast
  define s3 where "s3 = (if bb then wake_h h s2 else s2)"
  have tn: "open_turn memMedium None now ?os s1 = ((s3, ?os), Done res None)"
    using r cr by (simp add: open_turn_def await_turn_def s3_def)
  have rs: "resolved now s1 ?os = ?g" using r by (simp add: resolved_def)
  have "store_Open memMedium name plain_get None now s =
      (s3, Opened \<lparr>lr_rc = the (or_rc res), lr_g = ?g, lr_cleanup = or_cleanup res, lr_h = h, lr_once = False\<rparr> (or_clip res))"
    using b tn rs by (simp add: store_Open_def open_continue_def open_finish_def)
  moreover have "bback (g_buf (gs s3 ?g)) = p"
    using res(2) p acq(3) by (simp add: s3_def wake_h_def upd_h_def published_def Let_def)
  ultimately show ?thesis using res by simp
qed


subsection \<open>The properties on a concrete upload\<close>

definition rw_new :: "mstore \<times> (err + writer)" where
  "rw_new = createOnce memMedium ''a'' \<lparr>Kind = KindBytes, Filename = ''x'', Executable = True\<rparr> demo_po 5 demo_rnd ds_new"

definition rw_chunks :: "(byte list \<times> time) list" where
  "rw_chunks = [([7, 9], 6), ([3], 6)]"

definition rw_up :: "mstore \<times> writer \<times> err option" where
  "rw_up = write_all memMedium rw_chunks (new_writer 0 0) (fst rw_new)"



lemma rw_evals:
  "snd rw_new = Inr (new_writer 0 0)" "snd (snd rw_up) = None"
  by code_simp+




end
