(* ===== verification/GoStd.thy ===== *)
theory GoStd imports Prelude "HOL-Library.Char_ord" begin

text \<open>
  What the source uses of Go's standard library on strings: decimal integers (\<open>strconv\<close>), path
  segment escaping (\<open>net/url\<close>), header maps (\<open>net/http\<close>) and the string helpers.  A string is its
  bytes, one \<open>char\<close> each.
\<close>

subsection \<open>Decimal integers\<close>

definition is_digit :: "char \<Rightarrow> bool" where
  "is_digit c \<longleftrightarrow> 48 \<le> (of_char c :: nat) \<and> (of_char c :: nat) \<le> 57"

definition digit_char :: "nat \<Rightarrow> char" where
  "digit_char n = char_of (48 + n)"

definition digit_val :: "char \<Rightarrow> nat" where
  "digit_val c = of_char c - 48"

fun dec :: "nat \<Rightarrow> string" where
  "dec n = (if n < 10 then [digit_char n] else dec (n div 10) @ [digit_char (n mod 10)])"

declare dec.simps [simp del]

definition dec_val :: "string \<Rightarrow> nat" where
  "dec_val s = foldl (\<lambda>a c. a * 10 + digit_val c) 0 s"

definition FormatInt :: "int \<Rightarrow> string" where
  "FormatInt i = (if i < 0 then CHR ''-'' # dec (nat (- i)) else dec (nat i))"

datatype parse_error = ErrSyntax | ErrRange

text \<open>
  \<open>strconv.ParseInt\<close> in base 10 at 64 bits: a sign, then at least one digit; a value out of range
  comes back clamped with \<open>ErrRange\<close>, a malformed one as zero with \<open>ErrSyntax\<close>.
\<close>

definition strip_sign :: "string \<Rightarrow> bool \<times> string" where
  "strip_sign s =
     (case s of c # r \<Rightarrow> (if c = CHR ''-'' then (True, r) else if c = CHR ''+'' then (False, r) else (False, s))
      | [] \<Rightarrow> (False, s))"

definition ParseInt :: "string \<Rightarrow> int \<times> parse_error option" where
  "ParseInt s =
     (let (neg, r) = strip_sign s
      in if r = [] \<or> \<not> list_all is_digit r then (0, Some ErrSyntax)
         else let v = int (dec_val r)
           in if \<not> neg \<and> v \<ge> 2 ^ 63 then (2 ^ 63 - 1, Some ErrRange)
              else if neg \<and> v > 2 ^ 63 then (- (2 ^ 63), Some ErrRange)
              else (if neg then - v else v, None))"

definition FormatBool :: "bool \<Rightarrow> string" where
  "FormatBool b = (if b then ''true'' else ''false'')"

lemma of_digit_char: "n < 10 \<Longrightarrow> (of_char (digit_char n) :: nat) = 48 + n"
  by (simp add: digit_char_def)

lemma digit_char_props [simp]:
  assumes "n < 10"
  shows "is_digit (digit_char n)" and "digit_val (digit_char n) = n"
  using assms by (simp_all add: is_digit_def digit_val_def of_digit_char)

lemma dec_val_Nil [simp]: "dec_val [] = 0"
  by (simp add: dec_val_def)

lemma dec_val_snoc [simp]: "dec_val (s @ [c]) = dec_val s * 10 + digit_val c"
  by (simp add: dec_val_def)

lemma dec_ne [simp]: "dec n \<noteq> []"
  by (subst dec.simps) simp

lemma dec_digits [simp]: "list_all is_digit (dec n)"
proof (induction n rule: dec.induct)
  case (1 n)
  then show ?case by (subst dec.simps) simp
qed

lemma dec_val_dec [simp]: "dec_val (dec n) = n"
proof (induction n rule: dec.induct)
  case (1 n)
  show ?case
  proof (cases "n < 10")
    case True
    then show ?thesis using dec_val_snoc [of "[]" "digit_char n"] by (subst dec.simps) simp
  next
    case False
    then show ?thesis using 1 by (subst dec.simps) simp
  qed
qed

lemma digit_not_sign: "is_digit c \<Longrightarrow> c \<noteq> CHR ''-'' \<and> c \<noteq> CHR ''+''"
  by (auto simp: is_digit_def)

lemma dec_hd: "is_digit (hd (dec n))"
  using dec_digits [of n] by (cases "dec n") simp_all

lemma ParseInt_FormatInt:
  assumes "- (2 ^ 63) \<le> i" and "i < 2 ^ 63"
  shows "ParseInt (FormatInt i) = (i, None)"
proof (cases "i < 0")
  case True
  then show ?thesis using assms by (simp add: ParseInt_def FormatInt_def strip_sign_def Let_def)
next
  case False
  obtain c r where d: "dec (nat i) = c # r" by (cases "dec (nat i)") auto
  have "is_digit c" using dec_hd [of "nat i"] d by simp
  then have "strip_sign (dec (nat i)) = (False, dec (nat i))"
    using digit_not_sign by (simp add: strip_sign_def d)
  then show ?thesis using False assms by (simp add: ParseInt_def FormatInt_def Let_def)
qed

subsection \<open>Path segments\<close>

text \<open>\<open>url.PathEscape\<close> and \<open>url.PathUnescape\<close>: a reserved byte becomes \<open>%\<close> and two hex digits.\<close>

definition segment_byte :: "char \<Rightarrow> bool" where
  "segment_byte c \<longleftrightarrow>
     (let n = of_char c :: nat
      in 97 \<le> n \<and> n \<le> 122 \<or> 65 \<le> n \<and> n \<le> 90 \<or> 48 \<le> n \<and> n \<le> 57)
     \<or> c \<in> set ''-_.~$&+:=@''"

definition upperhex :: string where
  "upperhex = ''0123456789ABCDEF''"

definition escape_byte :: "char \<Rightarrow> string" where
  "escape_byte c =
     (if segment_byte c then [c]
      else [CHR ''%'', upperhex ! (of_char c div 16), upperhex ! (of_char c mod 16)])"

definition PathEscape :: "string \<Rightarrow> string" where
  "PathEscape s = concat (map escape_byte s)"

definition unhex :: "char \<Rightarrow> nat option" where
  "unhex c =
     (let n = of_char c :: nat in
      if 48 \<le> n \<and> n \<le> 57 then Some (n - 48)
      else if 97 \<le> n \<and> n \<le> 102 then Some (n - 87)
      else if 65 \<le> n \<and> n \<le> 70 then Some (n - 55)
      else None)"

fun PathUnescape :: "string \<Rightarrow> string option" where
  "PathUnescape [] = Some []"
| "PathUnescape (c # s) =
     (if c = CHR ''%'' then
        (case s of
           a # b # r \<Rightarrow>
             (case (unhex a, unhex b) of
                (Some x, Some y) \<Rightarrow> map_option ((#) (char_of (x * 16 + y))) (PathUnescape r)
              | _ \<Rightarrow> None)
         | _ \<Rightarrow> None)
      else map_option ((#) c) (PathUnescape s))"

lemma unhex_upperhex: "n < 16 \<Longrightarrow> unhex (upperhex ! n) = Some n"
proof -
  have "\<forall>n \<in> {0..<16}. unhex (upperhex ! n) = Some n" by code_simp
  then show "n < 16 \<Longrightarrow> unhex (upperhex ! n) = Some n" by simp
qed

lemma of_char_less_256: "(of_char (c :: char) :: nat) < 256"
proof -
  have "(of_char c :: nat) = of_char c mod 256" by simp
  also have "\<dots> < 256" by (rule mod_less_divisor) simp
  finally show ?thesis .
qed

lemma percent_not_segment: "\<not> segment_byte (CHR ''%'')"
  by (simp add: segment_byte_def)

lemma PathUnescape_escape_byte:
  "PathUnescape (escape_byte c @ s) = map_option ((#) c) (PathUnescape s)"
proof (cases "segment_byte c")
  case True
  then have "c \<noteq> CHR ''%''" using percent_not_segment by auto
  then show ?thesis using True by (simp add: escape_byte_def)
next
  case False
  have "of_char c div 16 * 16 + of_char c mod 16 = (of_char c :: nat)" by simp
  then have "char_of (of_char c div 16 * 16 + of_char c mod 16 :: nat) = c"
    by (simp only: char_of_char)
  moreover have "(of_char c :: nat) div 16 < 16" "(of_char c :: nat) mod 16 < 16"
    using of_char_less_256 [of c] by (simp_all add: less_mult_imp_div_less)
  ultimately show ?thesis using False by (simp add: escape_byte_def unhex_upperhex)
qed

lemma PathUnescape_Escape [simp]: "PathUnescape (PathEscape s) = Some s"
  by (induction s) (simp_all add: PathEscape_def PathUnescape_escape_byte)

lemma PathEscape_ne: "PathEscape s = [] \<longleftrightarrow> s = []"
  by (cases s) (auto simp: PathEscape_def escape_byte_def)

text \<open>An escaped name is one path segment: no separator, query or fragment survives in it.\<close>

lemma escape_byte_safe: "set (escape_byte c) \<inter> set ''/?#'' = {}"
proof -
  have "\<forall>n \<in> {0..<16}. upperhex ! n \<notin> set ''/?#''" by code_simp
  then have h: "(n :: nat) < 16 \<Longrightarrow> upperhex ! n \<notin> set ''/?#''" for n by simp
  have d: "(of_char c :: nat) div 16 < 16" "(of_char c :: nat) mod 16 < 16"
    using of_char_less_256 [of c] by (simp_all add: less_mult_imp_div_less)
  have "segment_byte c \<Longrightarrow> c \<notin> set ''/?#''" by (auto simp: segment_byte_def)
  then show ?thesis using h [OF d(1)] h [OF d(2)] by (auto simp: escape_byte_def)
qed

lemma PathEscape_safe: "set (PathEscape s) \<inter> set ''/?#'' = {}"
  using escape_byte_safe by (fastforce simp: PathEscape_def)

subsection \<open>Header maps\<close>

text \<open>
  \<open>http.Header\<close> keyed as \<open>net/textproto\<close> keys it: the canonical spelling has a capital at the start
  and after each hyphen.  \<open>Get\<close> of an absent header is the empty string.
\<close>

fun canon_from :: "bool \<Rightarrow> string \<Rightarrow> string" where
  "canon_from up [] = []"
| "canon_from up (c # s) =
     (let n = of_char c :: nat;
          d = (if up \<and> 97 \<le> n \<and> n \<le> 122 then char_of (n - 32)
               else if \<not> up \<and> 65 \<le> n \<and> n \<le> 90 then char_of (n + 32) else c)
      in d # canon_from (c = CHR ''-'') s)"

definition canonical_key :: "string \<Rightarrow> string" where
  "canonical_key k = canon_from True k"

type_synonym header = "(string \<times> string) list"

definition hget :: "header \<Rightarrow> string \<Rightarrow> string" where
  "hget h k = (case map_of h (canonical_key k) of Some v \<Rightarrow> v | None \<Rightarrow> '''')"

definition hset :: "string \<Rightarrow> string \<Rightarrow> header \<Rightarrow> header" where
  "hset k v h = (canonical_key k, v) # filter (\<lambda>p. fst p \<noteq> canonical_key k) h"

definition hset_when :: "bool \<Rightarrow> string \<Rightarrow> string \<Rightarrow> header \<Rightarrow> header" where
  "hset_when b k v h = (if b then hset k v h else h)"

lemma hget_empty [simp]: "hget [] k = ''''"
  by (simp add: hget_def)

lemma hget_hset:
  "hget (hset k v h) k' = (if canonical_key k' = canonical_key k then v else hget h k')"
proof -
  have "map_of (filter (\<lambda>p. fst p \<noteq> k) h) k' = (if k' = k then None else map_of h k')" for k k' :: string
    by (induction h) auto
  then show ?thesis by (simp add: hget_def hset_def)
qed

lemma hget_hset_when:
  "hget (hset_when b k v h) k' = (if b \<and> canonical_key k' = canonical_key k then v else hget h k')"
  by (simp add: hset_when_def hget_hset)

end
