(* ===== verification/Wire.thy ===== *)
theory Wire imports Clip GoStd begin

text \<open>
  The protocol contract (\<open>wire/wire.go\<close>) and the three places an error identity crosses it: the
  server's forward map and classifiers (\<open>api/errors.go\<close>, \<open>api/handlers.go\<close>), the client's reverse map
  (\<open>client/errors.go\<close>) and the process exit code (\<open>cli/exit.go\<close>).
\<close>

subsection \<open>The vocabulary\<close>

definition V1 :: string where "V1 = ''/v1''"
definition PathClips :: string where "PathClips = V1 @ ''/clips''"
definition PathHealth :: string where "PathHealth = ''/health''"

definition HeaderKind :: string where "HeaderKind = ''Buff-Kind''"
definition HeaderFilename :: string where "HeaderFilename = ''Buff-Filename''"
definition HeaderExecutable :: string where "HeaderExecutable = ''Buff-Executable''"
definition HeaderTTL :: string where "HeaderTTL = ''Buff-TTL''"
definition HeaderKeep :: string where "HeaderKeep = ''Buff-Keep''"
definition HeaderConsume :: string where "HeaderConsume = ''Buff-Consume''"
definition HeaderGeneration :: string where "HeaderGeneration = ''Buff-Generation''"
definition HeaderFinalized :: string where "HeaderFinalized = ''Buff-Finalized''"
definition HeaderSize :: string where "HeaderSize = ''Buff-Size''"
definition HeaderExpires :: string where "HeaderExpires = ''Buff-Expires''"
definition HeaderStatus :: string where "HeaderStatus = ''Buff-Status''"
definition HeaderError :: string where "HeaderError = ''Buff-Error''"
definition HeaderIfMatch :: string where "HeaderIfMatch = ''If-Match''"
definition HeaderWait :: string where "HeaderWait = ''Buff-Wait''"
definition HeaderFollowNext :: string where "HeaderFollowNext = ''Buff-Follow-Next''"

lemmas header_names = HeaderKind_def HeaderFilename_def HeaderExecutable_def HeaderTTL_def
  HeaderKeep_def HeaderConsume_def HeaderGeneration_def HeaderFinalized_def HeaderSize_def
  HeaderExpires_def HeaderStatus_def HeaderError_def HeaderIfMatch_def HeaderWait_def
  HeaderFollowNext_def

definition Headers :: "string list" where
  "Headers = [HeaderKind, HeaderFilename, HeaderExecutable, HeaderTTL, HeaderKeep, HeaderConsume,
     HeaderGeneration, HeaderFinalized, HeaderSize, HeaderExpires, HeaderStatus, HeaderError,
     HeaderIfMatch, HeaderWait, HeaderFollowNext]"

definition FlagOn :: string where "FlagOn = ''1''"
definition BoolTrue :: string where "BoolTrue = ''true''"
definition StatusComplete :: string where "StatusComplete = ''complete''"

definition FeatureFollow :: string where "FeatureFollow = ''follow''"
definition FeatureConsumeOnce :: string where "FeatureConsumeOnce = ''consume-once''"
definition FeatureWait :: string where "FeatureWait = ''wait''"
definition FeatureConditionalWrite :: string where "FeatureConditionalWrite = ''conditional-write''"
definition FeatureFollowNext :: string where "FeatureFollowNext = ''follow-next''"

definition Features :: "string list" where
  "Features = [FeatureFollow, FeatureConsumeOnce, FeatureWait, FeatureConditionalWrite, FeatureFollowNext]"

record ErrInfo =
  Sentinel :: string
  Status :: int

definition row_NotFound :: ErrInfo where "row_NotFound = \<lparr>Sentinel = ''not_found'', Status = 404\<rparr>"
definition row_Consumed :: ErrInfo where "row_Consumed = \<lparr>Sentinel = ''consumed'', Status = 410\<rparr>"
definition row_Busy :: ErrInfo where "row_Busy = \<lparr>Sentinel = ''busy'', Status = 409\<rparr>"
definition row_Closed :: ErrInfo where "row_Closed = \<lparr>Sentinel = ''closed'', Status = 409\<rparr>"
definition row_Precondition :: ErrInfo where
  "row_Precondition = \<lparr>Sentinel = ''precondition_failed'', Status = 412\<rparr>"
definition row_TooLarge :: ErrInfo where "row_TooLarge = \<lparr>Sentinel = ''too_large'', Status = 413\<rparr>"
definition row_NoSpace :: ErrInfo where "row_NoSpace = \<lparr>Sentinel = ''no_space'', Status = 507\<rparr>"
definition row_NameBad :: ErrInfo where "row_NameBad = \<lparr>Sentinel = ''name_invalid'', Status = 400\<rparr>"
definition row_BadReq :: ErrInfo where "row_BadReq = \<lparr>Sentinel = ''bad_request'', Status = 400\<rparr>"
definition row_Internal :: ErrInfo where "row_Internal = \<lparr>Sentinel = ''internal'', Status = 500\<rparr>"
definition row_Unavailable :: ErrInfo where
  "row_Unavailable = \<lparr>Sentinel = ''unavailable'', Status = 503\<rparr>"

lemmas row_defs = row_NotFound_def row_Consumed_def row_Busy_def row_Closed_def row_Precondition_def
  row_TooLarge_def row_NoSpace_def row_NameBad_def row_BadReq_def row_Internal_def row_Unavailable_def

definition Rows :: "ErrInfo list" where
  "Rows = [row_NotFound, row_Consumed, row_Busy, row_Closed, row_Precondition, row_TooLarge,
     row_NoSpace, row_NameBad, row_BadReq, row_Internal, row_Unavailable]"

text \<open>No two headers meet in a header map, and each error row has its own sentinel.\<close>

lemma Headers_distinct: "distinct (map canonical_key Headers)"
  by (simp add: Headers_def header_names canonical_key_def Let_def)

lemma Rows_distinct: "distinct (map Sentinel Rows)"
  by (simp add: Rows_def row_defs)

subsection \<open>The server's side\<close>

definition errMap :: "(sentinel \<times> ErrInfo) list" where
  "errMap = [(ErrNotFound, row_NotFound), (ErrConsumed, row_Consumed), (ErrBusy, row_Busy),
     (ErrClosed, row_Closed), (ErrPreconditionFailed, row_Precondition), (ErrTooLarge, row_TooLarge),
     (ErrNoSpace, row_NoSpace), (ErrNameInvalid, row_NameBad), (ErrFilenameInvalid, row_BadReq),
     (BadRequest, row_BadReq)]"

fun map_rows :: "(sentinel \<times> ErrInfo) list \<Rightarrow> err \<Rightarrow> ErrInfo" where
  "map_rows [] e = row_Internal"
| "map_rows (m # ms) e = (if is_err e (fst m) then snd m else map_rows ms e)"

definition mapErr :: "err \<Rightarrow> ErrInfo" where
  "mapErr e = map_rows errMap e"

text \<open>\<open>cause\<close> is \<open>context.Cause\<close> of the request's context, nothing while it is not canceled.\<close>

definition stoppingCut :: "err option \<Rightarrow> bool" where
  "stoppingCut cause = (case cause of None \<Rightarrow> False | Some c \<Rightarrow> is_err c ServerStopping)"

definition isCancel :: "err \<Rightarrow> bool" where
  "isCancel e \<longleftrightarrow> is_err e CtxCanceled \<or> is_err e CtxDeadlineExceeded"

definition no_row :: ErrInfo where "no_row = \<lparr>Sentinel = '''', Status = 0\<rparr>"

definition classifyGet :: "err option \<Rightarrow> err \<Rightarrow> ErrInfo \<times> err option \<times> bool" where
  "classifyGet cause e =
     (if \<not> isCancel e then (mapErr e, Some e, False)
      else if stoppingCut cause then (row_Unavailable, None, False)
      else (no_row, None, True))"

text \<open>
  The error \<open>io.CopyBuffer\<close> hands over is the very value one side returned; \<open>err == body.readErr\<close>
  compares that identity, which the constructor records.
\<close>

datatype copy_fault = FromRead err | FromWrite err

fun fault_err :: "copy_fault \<Rightarrow> err" where
  "fault_err (FromRead e) = e"
| "fault_err (FromWrite e) = e"

definition classifyPut :: "err option \<Rightarrow> copy_fault \<Rightarrow> err option \<Rightarrow> ErrInfo \<times> err option" where
  "classifyPut cause f readErr =
     (if readErr \<noteq> None \<and> f = FromRead (the readErr)
      then (if stoppingCut cause then (row_Unavailable, None) else (row_BadReq, None))
      else (mapErr (fault_err f), Some (fault_err f)))"

subsection \<open>The client's side\<close>

definition errRows :: "(ErrInfo \<times> sentinel) list" where
  "errRows = [(row_NotFound, ErrNotFound), (row_Consumed, ErrConsumed), (row_Busy, ErrBusy),
     (row_Closed, ErrClosed), (row_Precondition, ErrPreconditionFailed), (row_TooLarge, ErrTooLarge),
     (row_NoSpace, ErrNoSpace), (row_NameBad, ErrNameInvalid)]"

fun row_for :: "(ErrInfo \<times> sentinel) list \<Rightarrow> string \<Rightarrow> sentinel option" where
  "row_for [] v = None"
| "row_for (r # rs) v = (if Sentinel (fst r) = v then Some (snd r) else row_for rs v)"

definition responseError :: "int \<Rightarrow> header \<Rightarrow> err" where
  "responseError code h =
     (let v = hget h HeaderError
      in case row_for errRows v of
           Some s \<Rightarrow> Leaf s
         | None \<Rightarrow> if code = 503 then Leaf ErrUnavailable else Leaf (HTTPError code v))"

definition exitCode :: "err option \<Rightarrow> nat" where
  "exitCode e =
     (case e of
        None \<Rightarrow> 0
      | Some e \<Rightarrow>
          (if is_err e ErrNotFound then 3
           else if is_err e ErrConsumed then 4
           else if is_err e ErrTooLarge \<or> is_err e ErrNoSpace then 5
           else if is_err e ErrBusy \<or> is_err e ErrClosed \<or> is_err e ErrPreconditionFailed
                 \<or> is_err e ArDestExists \<or> is_err e ArExists \<or> is_err e OsErrExist then 6
           else if is_err e ErrAborted then 7
           else if is_err e ErrUnreachable then 8
           else if is_err e ErrUnavailable then 9
           else 1))"

text \<open>\<open>text\<close> is \<open>err.Error()\<close>, the rendering Go's \<open>error\<close> interface gives.\<close>

definition diagnostic :: "(err \<Rightarrow> string) \<Rightarrow> err \<Rightarrow> string" where
  "diagnostic txt e = (if is_err e CtxCanceled then ''buff: canceled'' else txt e)"

subsection \<open>Facts\<close>

text \<open>The sentinels that survive the wire with their identity, in the order they are looked for.\<close>

definition wire_domain :: "sentinel list" where
  "wire_domain = map snd errRows"

lemma row_for_domain:
  "row_for errRows ''bad_request'' = None" "row_for errRows ''internal'' = None"
  "row_for errRows ''unavailable'' = None" "row_for errRows '''' = None"
  by (simp_all add: errRows_def row_defs)

lemma find_domain:
  "List.find (is_err e) wire_domain =
     (if is_err e ErrNotFound then Some ErrNotFound
      else if is_err e ErrConsumed then Some ErrConsumed
      else if is_err e ErrBusy then Some ErrBusy
      else if is_err e ErrClosed then Some ErrClosed
      else if is_err e ErrPreconditionFailed then Some ErrPreconditionFailed
      else if is_err e ErrTooLarge then Some ErrTooLarge
      else if is_err e ErrNoSpace then Some ErrNoSpace
      else if is_err e ErrNameInvalid then Some ErrNameInvalid else None)"
  by (simp add: wire_domain_def errRows_def)

lemma mapErr_in_Rows: "mapErr e \<in> set Rows"
  by (simp add: mapErr_def errMap_def Rows_def)

text \<open>What the client makes of each row.\<close>

definition row_error :: "ErrInfo \<Rightarrow> err" where
  "row_error r = responseError (Status r) (hset HeaderError (Sentinel r) [])"

lemma row_error_simps:
  "row_error row_NotFound = Leaf ErrNotFound" "row_error row_Consumed = Leaf ErrConsumed"
  "row_error row_Busy = Leaf ErrBusy" "row_error row_Closed = Leaf ErrClosed"
  "row_error row_Precondition = Leaf ErrPreconditionFailed" "row_error row_TooLarge = Leaf ErrTooLarge"
  "row_error row_NoSpace = Leaf ErrNoSpace" "row_error row_NameBad = Leaf ErrNameInvalid"
  "row_error row_BadReq = Leaf (HTTPError 400 ''bad_request'')"
  "row_error row_Internal = Leaf (HTTPError 500 ''internal'')"
  "row_error row_Unavailable = Leaf ErrUnavailable"
  by (simp_all add: row_error_def responseError_def errRows_def row_defs hget_hset Let_def)

lemma row_error_mapErr:
  "row_error (mapErr e) =
     (if is_err e ErrNotFound then Leaf ErrNotFound
      else if is_err e ErrConsumed then Leaf ErrConsumed
      else if is_err e ErrBusy then Leaf ErrBusy
      else if is_err e ErrClosed then Leaf ErrClosed
      else if is_err e ErrPreconditionFailed then Leaf ErrPreconditionFailed
      else if is_err e ErrTooLarge then Leaf ErrTooLarge
      else if is_err e ErrNoSpace then Leaf ErrNoSpace
      else if is_err e ErrNameInvalid then Leaf ErrNameInvalid
      else if is_err e ErrFilenameInvalid then Leaf (HTTPError 400 ''bad_request'')
      else if is_err e BadRequest then Leaf (HTTPError 400 ''bad_request'')
      else Leaf (HTTPError 500 ''internal''))"
  by (simp only: mapErr_def errMap_def map_rows.simps fst_conv snd_conv if_distrib [of row_error]
        row_error_simps)

lemma response_of_row: "responseError (Status r) (hset HeaderError (Sentinel r) h) = row_error r"
  by (simp add: row_error_def responseError_def hget_hset Let_def)

lemma if_or: "(if p \<or> q then a else b) = (if p then a else if q then a else b)"
  by simp

text \<open>
  C27. An error keeps its identity across the wire.  Whatever error a handler refuses a request with,
  wrapped however deeply, the client that reads the status and the \<open>Buff-Error\<close> header gets back the
  first of the eight domain sentinels the error carries; an error that carries none of them comes
  back as a generic HTTP error, 400 for a malformed request or filename and 500 for any other fault.
\<close>

theorem error_identity_survives:
  "responseError (Status (mapErr e)) (hset HeaderError (Sentinel (mapErr e)) h) =
     (case List.find (is_err e) wire_domain of
        Some s \<Rightarrow> Leaf s
      | None \<Rightarrow> if is_err e ErrFilenameInvalid \<or> is_err e BadRequest
                then Leaf (HTTPError 400 ''bad_request'') else Leaf (HTTPError 500 ''internal''))"
  unfolding response_of_row row_error_mapErr find_domain if_or
  by (simp only: if_distrib [of "case_option _ _"] option.case)

text \<open>
  The exit code of a refused command tells the class of the refusal, whatever path the error took
  over the wire: the code the client computes from the response is the code of the first domain
  sentinel the server's error carried.  A read cut short by a stopping server comes back as the
  retryable 9, and a canceled read whose client is gone gets no response at all.
\<close>

theorem exit_code_of_refusal:
  "exitCode (Some (responseError (Status (mapErr e)) (hset HeaderError (Sentinel (mapErr e)) h))) =
     (case List.find (is_err e) wire_domain of Some s \<Rightarrow> exitCode (Some (Leaf s)) | None \<Rightarrow> 1)
   \<and> classifyGet cause e =
       (if isCancel e then (if stoppingCut cause then (row_Unavailable, None, False) else (no_row, None, True))
        else (mapErr e, Some e, False))
   \<and> exitCode (Some (responseError (Status row_Unavailable)
        (hset HeaderError (Sentinel row_Unavailable) h))) = 9
   \<and> map (\<lambda>s. exitCode (Some (Leaf s))) wire_domain = [3, 4, 6, 6, 6, 5, 5, 1]"
proof (intro conjI)
  have x: "exitCode (Some (if b then x else y)) = (if b then exitCode (Some x) else exitCode (Some y))"
    for b x y by simp
  have y: "exitCode (Some (Leaf (HTTPError a c))) = 1" for a c by (simp add: exitCode_def)
  show "exitCode (Some (responseError (Status (mapErr e)) (hset HeaderError (Sentinel (mapErr e)) h))) =
     (case List.find (is_err e) wire_domain of Some s \<Rightarrow> exitCode (Some (Leaf s)) | None \<Rightarrow> 1)"
    unfolding response_of_row row_error_mapErr find_domain
    by (simp only: if_distrib [of "case_option _ _"] option.case x y if_cancel)
  show "exitCode (Some (responseError (Status row_Unavailable)
      (hset HeaderError (Sentinel row_Unavailable) h))) = 9"
    by (simp add: response_of_row row_error_simps exitCode_def)
  show "map (\<lambda>s. exitCode (Some (Leaf s))) wire_domain = [3, 4, 6, 6, 6, 5, 5, 1]"
    by (simp add: wire_domain_def errRows_def exitCode_def)
qed (simp add: classifyGet_def)

end
