(* ===== verification/GoTime.thy ===== *)
theory GoTime imports GoStd "HOL-Library.Monad_Syntax" begin

text \<open>
  What the source uses of Go's \<open>time\<close> package: instants rendered and parsed as RFC 3339, over the
  proleptic Gregorian calendar, and durations rendered and parsed in Go's grammar.
\<close>

subsection \<open>The calendar\<close>

definition leap :: "int \<Rightarrow> bool" where
  "leap y \<longleftrightarrow> y mod 4 = 0 \<and> (y mod 100 \<noteq> 0 \<or> y mod 400 = 0)"

text \<open>Days from 1 January of year 0 to 1 January of year \<open>y\<close>.\<close>

definition days_before :: "int \<Rightarrow> int" where
  "days_before y = 365 * y + (y + 3) div 4 - (y + 99) div 100 + (y + 399) div 400"

definition month_days :: "int \<Rightarrow> int list" where
  "month_days y = [31, if leap y then 29 else 28, 31, 30, 31, 30, 31, 31, 30, 31, 30, 31]"

definition daysIn :: "int \<Rightarrow> int \<Rightarrow> int" where
  "daysIn m y = month_days y ! nat (m - 1)"

lemma days_before_Suc: "days_before (y + 1) = days_before y + (if leap y then 366 else 365)"
proof -
  have step: "(y + 1 + (k - 1)) div k = (y + (k - 1)) div k + (if y mod k = 0 then 1 else 0)"
    if "1 < k" for k :: int
  proof -
    have e: "y = k * (y div k) + y mod k" by simp
    have "(y + 1 + (k - 1)) div k = y div k + 1" using that div_add_self2 [of k y] by simp
    moreover have "(y + (k - 1)) div k = y div k + (y mod k + (k - 1)) div k"
    proof -
      have "y + (k - 1) = (y mod k + (k - 1)) + (y div k) * k" using e by (simp add: mult.commute)
      then show ?thesis using that by (simp only: div_mult_self1 [of k])
    qed
    moreover have "(y mod k + (k - 1)) div k = (if y mod k = 0 then 0 else 1)"
    proof (cases "y mod k = 0")
      case True then show ?thesis using that by simp
    next
      case False
      have "0 \<le> y mod k" "y mod k < k" using that by simp_all
      then have "0 < y mod k" "y mod k < k" using False by linarith+
      then show ?thesis using that False
        by (intro int_div_pos_eq [where r = "y mod k - 1"])
          (use \<open>0 < y mod k\<close> \<open>y mod k < k\<close> in auto)
    qed
    ultimately show ?thesis by simp
  qed
  have a: "(y + 1 + 3) div 4 = (y + 3) div 4 + (if y mod 4 = 0 then 1 else 0)" using step [of 4] by simp
  have b: "(y + 1 + 99) div 100 = (y + 99) div 100 + (if y mod 100 = 0 then 1 else 0)"
    using step [of 100] by simp
  have c: "(y + 1 + 399) div 400 = (y + 399) div 400 + (if y mod 400 = 0 then 1 else 0)"
    using step [of 400] by simp
  have d: "y mod 100 = 0" if "y mod 400 = 0" using that by presburger
  have f: "y mod 4 = 0" if "y mod 100 = 0" using that by presburger
  show ?thesis
    unfolding days_before_def leap_def a b c
    by (cases "y mod 400 = 0"; cases "y mod 100 = 0"; cases "y mod 4 = 0") (use d f in auto)
qed

lemma month_days_sum: "sum_list (month_days y) = (if leap y then 366 else 365)"
  by (simp add: month_days_def)

function find_year :: "int \<Rightarrow> int \<Rightarrow> int" where
  "find_year y d = (if d < days_before (y + 1) then y else find_year (y + 1) d)"
  by auto
termination
proof (relation "measure (\<lambda>(y, d). nat (d - days_before y))")
  fix y d :: int
  assume "\<not> d < days_before (y + 1)"
  then show "((y + 1, d), (y, d)) \<in> measure (\<lambda>(y, d). nat (d - days_before y))"
    by (simp add: days_before_Suc split: if_splits)
qed simp

declare find_year.simps [simp del]

fun split_month :: "int \<Rightarrow> int list \<Rightarrow> int \<Rightarrow> int \<times> int" where
  "split_month m [] d = (m, d + 1)"
| "split_month m [n] d = (m, d + 1)"
| "split_month m (n # k # ns) d = (if d < n then (m, d + 1) else split_month (m + 1) (k # ns) (d - n))"

text \<open>The year, month and day of a day number.\<close>

definition civil :: "int \<Rightarrow> int \<times> int \<times> int" where
  "civil d = (let y = find_year (if 0 \<le> d then d div 366 else d div 365 - 1) d
              in (y, split_month 1 (month_days y) (d - days_before y)))"

definition date_days :: "int \<Rightarrow> int \<Rightarrow> int \<Rightarrow> int" where
  "date_days y m dd = days_before y + sum_list (take (nat (m - 1)) (month_days y)) + dd - 1"

lemma find_year_range:
  assumes "days_before y \<le> d"
  shows "days_before (find_year y d) \<le> d \<and> d < days_before (find_year y d + 1)"
  using assms
proof (induction y d rule: find_year.induct)
  case (1 y d)
  show ?case
  proof (cases "d < days_before (y + 1)")
    case True
    then show ?thesis using 1(2) by (simp add: find_year.simps [of y d])
  next
    case False
    then have "find_year y d = find_year (y + 1) d" by (simp add: find_year.simps [of y d])
    then show ?thesis using 1(1) [OF False] False by simp
  qed
qed

lemma year_start_le: "days_before (if 0 \<le> d then d div 366 else d div 365 - 1) \<le> d"
proof (cases "0 \<le> d")
  case True
  have "days_before y \<le> 366 * y" if "0 \<le> y" for y
  proof -
    have "days_before (int n) \<le> 366 * int n" for n
    proof (induction n)
      case (Suc n)
      then show ?case using days_before_Suc [of "int n"] by (simp add: add.commute split: if_splits)
    qed (simp add: days_before_def)
    from this [of "nat y"] show ?thesis using that by simp
  qed
  from this [of "d div 366"] True show ?thesis
    by (simp add: pos_imp_zdiv_nonneg_iff)
next
  case False
  have "days_before y \<le> 365 * (y + 1)" if "y \<le> 0" for y
  proof -
    have "days_before (- int n) \<le> 365 * (- int n) + 365" for n
    proof (induction n)
      case (Suc n)
      have "days_before (- int n) = days_before (- int (Suc n)) + (if leap (- int (Suc n)) then 366 else 365)"
        using days_before_Suc [of "- int (Suc n)"] by simp
      then show ?case using Suc by (simp split: if_splits)
    qed (simp add: days_before_def)
    from this [of "nat (- y)"] show ?thesis using that by simp
  qed
  from this [of "d div 365 - 1"] False have "days_before (d div 365 - 1) \<le> 365 * (d div 365)"
    by (simp add: algebra_simps)
  also have "\<dots> \<le> d"
  proof -
    have "d = 365 * (d div 365) + d mod 365" by simp
    moreover have "0 \<le> d mod 365" by simp
    ultimately show ?thesis by linarith
  qed
  finally show ?thesis using False by simp
qed

lemma split_month_sound:
  assumes "0 \<le> d" and "d < sum_list ns" and "ns \<noteq> []" and "list_all (\<lambda>n. 0 < n) ns"
    and "split_month m ns d = (m', dd)"
  shows "m \<le> m' \<and> m' < m + int (length ns) \<and> 1 \<le> dd \<and> dd \<le> ns ! nat (m' - m)
         \<and> sum_list (take (nat (m' - m)) ns) + dd - 1 = d"
  using assms
proof (induction m ns d arbitrary: m' dd rule: split_month.induct)
  case (3 m n k ns d)
  show ?case
  proof (cases "d < n")
    case True
    then show ?thesis using 3(2,6) by auto
  next
    case False
    have s: "split_month (m + 1) (k # ns) (d - n) = (m', dd)" using 3(6) False by simp
    have ih: "m + 1 \<le> m' \<and> m' < m + 1 + int (length (k # ns)) \<and> 1 \<le> dd
        \<and> dd \<le> (k # ns) ! nat (m' - (m + 1)) \<and> sum_list (take (nat (m' - (m + 1))) (k # ns)) + dd - 1 = d - n"
      using 3(1) [OF False _ _ _ _ s] 3(2,3,5) False by simp
    then have e: "nat (m' - m) = Suc (nat (m' - (m + 1)))" by (simp add: nat_eq_iff)
    show ?thesis using ih unfolding e by simp
  qed
qed auto

lemma civil_sound:
  assumes "civil d = (y, m, dd)"
  shows "date_days y m dd = d \<and> 1 \<le> m \<and> m \<le> 12 \<and> 1 \<le> dd \<and> dd \<le> daysIn m y"
proof -
  have y: "days_before y \<le> d" "d < days_before (y + 1)"
    using assms find_year_range [OF year_start_le, of d] by (auto simp: civil_def Let_def)
  have s: "split_month 1 (month_days y) (d - days_before y) = (m, dd)"
    using assms by (auto simp: civil_def Let_def)
  have "d - days_before y < sum_list (month_days y)"
    using y(2) by (simp add: month_days_sum days_before_Suc)
  moreover have "month_days y \<noteq> []" "list_all (\<lambda>n. 0 < n) (month_days y)" "length (month_days y) = 12"
    by (simp_all add: month_days_def)
  ultimately show ?thesis
    using split_month_sound [OF _ _ _ _ s] y(1) by (auto simp: date_days_def daysIn_def)
qed

subsection \<open>RFC 3339\<close>

text \<open>Zero padding to a width, which a longer number overruns.\<close>

fun fixed :: "nat \<Rightarrow> nat \<Rightarrow> string" where
  "fixed 0 n = []"
| "fixed (Suc w) n = fixed w (n div 10) @ [digit_char (n mod 10)]"

definition pad :: "nat \<Rightarrow> int \<Rightarrow> string" where
  "pad w i = (if i < 0 then [CHR ''-''] else [])
     @ (let n = nat \<bar>i\<bar> in if n < 10 ^ w then fixed w n else dec n)"

definition nanos :: int where "nanos = 1000000000"

text \<open>\<open>t.UTC().Format(time.RFC3339)\<close>.\<close>

definition Format_RFC3339 :: "time \<Rightarrow> string" where
  "Format_RFC3339 t =
     (let s = t div nanos; d = s div 86400; r = s mod 86400
      in case civil (d + days_before 1970) of
           (y, m, dd) \<Rightarrow> pad 4 y @ ''-'' @ pad 2 m @ ''-'' @ pad 2 dd @ ''T'' @ pad 2 (r div 3600)
             @ '':'' @ pad 2 (r div 60 mod 60) @ '':'' @ pad 2 (r mod 60) @ ''Z'')"

text \<open>The scanners of \<open>time.Parse\<close>: literals, numbers of two digits, the year of four.\<close>

definition skip :: "char \<Rightarrow> string \<Rightarrow> string option" where
  "skip c s = (case s of d # r \<Rightarrow> if d = c then Some r else None | [] \<Rightarrow> None)"

definition getnum :: "bool \<Rightarrow> string \<Rightarrow> (int \<times> string) option" where
  "getnum fix s =
     (case s of
        [] \<Rightarrow> None
      | a # r \<Rightarrow>
          (if \<not> is_digit a then None
           else case r of
             b # q \<Rightarrow> if is_digit b then Some (int (digit_val a * 10 + digit_val b), q)
                     else if fix then None else Some (int (digit_val a), r)
           | [] \<Rightarrow> if fix then None else Some (int (digit_val a), r)))"

definition getyear :: "string \<Rightarrow> (int \<times> string) option" where
  "getyear s =
     (if length s < 4 \<or> \<not> list_all is_digit (take 4 s) then None
      else Some (int (dec_val (take 4 s)), drop 4 s))"

text \<open>An optional fraction of the seconds, whatever the layout says; nine digits count.\<close>

definition getfrac :: "string \<Rightarrow> int \<times> string" where
  "getfrac s =
     (case s of
        c # r \<Rightarrow>
          (if (c = CHR ''.'' \<or> c = CHR '','') \<and> r \<noteq> [] \<and> is_digit (hd r)
           then let ds = takeWhile is_digit r; nine = take 9 ds
             in (int (dec_val nine * 10 ^ (9 - length nine)), dropWhile is_digit r)
           else (0, s))
      | [] \<Rightarrow> (0, s))"

text \<open>The zone: \<open>Z\<close>, or a signed offset in seconds.\<close>

definition getzone :: "string \<Rightarrow> (int \<times> string) option" where
  "getzone s =
     (case s of
        [] \<Rightarrow> None
      | c # r \<Rightarrow>
          (if c = CHR ''Z'' then Some (0, r)
           else if length s < 6 \<or> s ! 3 \<noteq> CHR '':'' then None
           else case (getnum True (take 2 (drop 1 s)), getnum True (take 2 (drop 4 s))) of
             (Some (h, _), Some (m, _)) \<Rightarrow>
               (if h > 24 \<or> m > 60 then None
                else if c = CHR ''+'' then Some ((h * 60 + m) * 60, drop 6 s)
                else if c = CHR ''-'' then Some (- ((h * 60 + m) * 60), drop 6 s)
                else None)
           | _ \<Rightarrow> None))"

definition Parse_RFC3339 :: "string \<Rightarrow> time option" where
  "Parse_RFC3339 s = do {
     (y, s) \<leftarrow> getyear s; s \<leftarrow> skip (CHR ''-'') s;
     (m, s) \<leftarrow> getnum True s; _ \<leftarrow> (if m \<le> 0 \<or> 12 < m then None else Some ());
     s \<leftarrow> skip (CHR ''-'') s; (d, s) \<leftarrow> getnum True s; s \<leftarrow> skip (CHR ''T'') s;
     (h, s) \<leftarrow> getnum False s; _ \<leftarrow> (if 24 \<le> h then None else Some ());
     s \<leftarrow> skip (CHR '':'') s; (n, s) \<leftarrow> getnum True s; _ \<leftarrow> (if 60 \<le> n then None else Some ());
     s \<leftarrow> skip (CHR '':'') s; (c, s) \<leftarrow> getnum True s; _ \<leftarrow> (if 60 \<le> c then None else Some ());
     (ns, s) \<leftarrow> Some (getfrac s); (z, s) \<leftarrow> getzone s;
     if s \<noteq> [] \<or> d < 1 \<or> daysIn m y < d then None
     else Some (((date_days y m d - days_before 1970) * 86400 + h * 3600 + n * 60 + c - z) * nanos + ns)
   }"

lemma length_fixed [simp]: "length (fixed w n) = w"
  by (induction w n rule: fixed.induct) simp_all

lemma fixed_digits [simp]: "list_all is_digit (fixed w n)"
  by (induction w n rule: fixed.induct) simp_all

lemma dec_val_fixed: "n < 10 ^ w \<Longrightarrow> dec_val (fixed w n) = n"
proof (induction w n rule: fixed.induct)
  case (2 w n)
  have "n div 10 < 10 ^ w" using 2(2) by (simp add: less_mult_imp_div_less)
  then show ?case using 2(1) by simp
qed simp

lemma pad_fixed: "0 \<le> i \<Longrightarrow> i < 10 ^ w \<Longrightarrow> pad w i = fixed w (nat i)"
  by (simp add: pad_def Let_def nat_less_iff)

lemma getyear_pad:
  assumes "0 \<le> y" and "y < 10000"
  shows "getyear (pad 4 y @ r) = Some (y, r)"
proof -
  have p: "pad 4 y = fixed 4 (nat y)" using assms by (simp add: pad_fixed)
  have l: "length (fixed 4 (nat y)) = 4" by simp
  show ?thesis using assms by (simp add: getyear_def p dec_val_fixed nat_less_iff)
qed

lemma getnum_pad:
  assumes "0 \<le> i" and "i < 100"
  shows "getnum fx (pad 2 i @ r) = Some (i, r)"
proof -
  have n: "nat i div 10 < 10" "nat i mod 10 < 10" using assms by (simp_all add: nat_less_iff)
  have "pad 2 i = [digit_char (nat i div 10), digit_char (nat i mod 10)]"
    using assms n(1) by (simp add: pad_fixed numeral_2_eq_2)
  then show ?thesis using n assms by (simp add: getnum_def)
qed

lemma skip_Cons [simp]: "skip c (c # r) = Some r"
  by (simp add: skip_def)

lemma getfrac_Z [simp]: "getfrac (CHR ''Z'' # r) = (0, CHR ''Z'' # r)"
  by (simp add: getfrac_def)

lemma getzone_Z [simp]: "getzone (CHR ''Z'' # r) = Some (0, r)"
  by (simp add: getzone_def)

lemma daysIn_le: "1 \<le> m \<Longrightarrow> m \<le> 12 \<Longrightarrow> daysIn m y \<le> 31"
proof -
  assume "1 \<le> m" "m \<le> 12"
  then have "nat (m - 1) < length (month_days y)" by (simp add: month_days_def)
  then have "daysIn m y \<in> set (month_days y)" unfolding daysIn_def by (rule nth_mem)
  then show ?thesis by (auto simp: month_days_def split: if_splits)
qed

text \<open>The years RFC 3339 can spell.\<close>

definition rfc_range :: "time \<Rightarrow> bool" where
  "rfc_range t \<longleftrightarrow>
     (let y = fst (civil (t div nanos div 86400 + days_before 1970)) in 0 \<le> y \<and> y \<le> 9999)"

lemma Parse_parts:
  assumes "0 \<le> y" "y < 10000" "1 \<le> m" "m \<le> 12" "1 \<le> d" "d \<le> daysIn m y" "d \<le> 31"
    and "0 \<le> h" "h < 24" "0 \<le> n" "n < 60" "0 \<le> c" "c < 60"
  shows "Parse_RFC3339 (pad 4 y @ ''-'' @ pad 2 m @ ''-'' @ pad 2 d @ ''T'' @ pad 2 h
             @ '':'' @ pad 2 n @ '':'' @ pad 2 c @ ''Z'')
         = Some (((date_days y m d - days_before 1970) * 86400 + h * 3600 + n * 60 + c) * nanos)"
  using assms by (simp add: Parse_RFC3339_def getyear_pad getnum_pad)

text \<open>A rendered instant parses back to itself, cut to the second.\<close>

lemma Parse_Format:
  assumes "rfc_range t"
  shows "Parse_RFC3339 (Format_RFC3339 t) = Some (t div nanos * nanos)"
proof -
  let ?s = "t div nanos"
  let ?r = "?s mod 86400"
  obtain y m d where c: "civil (?s div 86400 + days_before 1970) = (y, m, d)"
    using prod_cases3 by blast
  have y: "0 \<le> y" "y < 10000" using assms c by (simp_all add: rfc_range_def)
  have md: "date_days y m d = ?s div 86400 + days_before 1970" "1 \<le> m" "m \<le> 12" "1 \<le> d" "d \<le> daysIn m y"
    using civil_sound [OF c] by simp_all
  have d: "d \<le> 31" using md daysIn_le [of m y] by simp
  have r: "0 \<le> ?r" "?r < 86400" by simp_all
  have h: "0 \<le> ?r div 3600" "?r div 3600 < 24" using r by (auto simp: pos_imp_zdiv_nonneg_iff)
  have n: "0 \<le> ?r div 60 mod 60" "?r div 60 mod 60 < 60" by simp_all
  have e: "0 \<le> ?r mod 60" "?r mod 60 < 60" by simp_all
  have sum: "?s div 86400 * 86400 + ?r div 3600 * 3600 + ?r div 60 mod 60 * 60 + ?r mod 60 = ?s"
  proof -
    have split: "a = a div b * b + a mod b" for a b :: int by simp
    have "?r div 3600 = ?r div 60 div 60" by (simp add: zdiv_zmult2_eq [of 60 ?r 60, symmetric])
    then show ?thesis
      using split [of ?s 86400] split [of ?r 60] split [of "?r div 60" 60] by linarith
  qed
  have "Parse_RFC3339 (Format_RFC3339 t) =
      Some (((date_days y m d - days_before 1970) * 86400 + ?r div 3600 * 3600
        + ?r div 60 mod 60 * 60 + ?r mod 60) * nanos)"
    unfolding Format_RFC3339_def Let_def c prod.case
    by (rule Parse_parts [OF y md(2-5) d h n e])
  moreover have "date_days y m d - days_before 1970 = ?s div 86400" using md(1) by linarith
  ultimately show ?thesis by (simp only: sum)
qed

end
