(* ===== verification/GoDuration.thy ===== *)
theory GoDuration imports GoTime Complex_Main begin

text \<open>
  Durations in Go's grammar: \<open>time.Duration.String\<close> and \<open>time.ParseDuration\<close>, with the \<open>float64\<close>
  arithmetic the parser uses on fractions.
\<close>

subsection \<open>Binary floating point\<close>

text \<open>The nearest \<open>float64\<close> of a rational, ties to even; values past the largest finite one are kept.\<close>

fun bitlen :: "nat \<Rightarrow> nat" where
  "bitlen n = (if n = 0 then 0 else Suc (bitlen (n div 2)))"

declare bitlen.simps [simp del]

definition round_even :: "rat \<Rightarrow> int" where
  "round_even x = (let q = \<lfloor>x\<rfloor>; r = x - of_int q
                   in if r < 1 / 2 \<or> r = 1 / 2 \<and> even q then q else q + 1)"

definition f64_exp :: "rat \<Rightarrow> int" where
  "f64_exp x = (case quotient_of x of
     (a, b) \<Rightarrow> let e = int (bitlen (nat a)) - int (bitlen (nat b))
              in max (- 1074) ((if 2 powi e \<le> x then e else e - 1) - 52))"

definition f64 :: "rat \<Rightarrow> rat" where
  "f64 q = (if q = 0 then 0
            else sgn q * of_int (round_even (\<bar>q\<bar> / 2 powi f64_exp \<bar>q\<bar>)) * 2 powi f64_exp \<bar>q\<bar>)"

lemma bitlen_bounds: "0 < n \<Longrightarrow> 2 ^ (bitlen n - 1) \<le> n \<and> n < 2 ^ bitlen n \<and> 0 < bitlen n"
proof (induction n rule: bitlen.induct)
  case (1 n)
  show ?case
  proof (cases "n div 2 = 0")
    case True
    then have "n = 1" using 1(2) by auto
    then show ?thesis by (simp add: bitlen.simps)
  next
    case False
    let ?k = "bitlen (n div 2)"
    have ih: "2 ^ (?k - 1) \<le> n div 2 \<and> n div 2 < 2 ^ ?k \<and> 0 < ?k" using 1 False by simp
    have b: "bitlen n = Suc ?k" using 1(2) by (simp add: bitlen.simps)
    obtain j where j: "?k = Suc j" using ih by (cases ?k) auto
    show ?thesis using ih unfolding b j by auto
  qed
qed

lemma round_even_int [simp]: "round_even (of_int i) = i"
  by (simp add: round_even_def)

lemma f64_int:
  assumes "n < 2 ^ 53"
  shows "f64 (of_nat n) = of_nat n"
proof (cases "n = 0")
  case False
  let ?x = "of_nat n :: rat"
  have b: "2 ^ (bitlen n - 1) \<le> n" "n < 2 ^ bitlen n" "0 < bitlen n"
    using bitlen_bounds [of n] False by simp_all
  have "bitlen n - 1 < 53"
  proof -
    have "(2 :: nat) ^ (bitlen n - 1) < 2 ^ 53" using b(1) assms by (rule le_less_trans)
    then show ?thesis by (simp only: power_strict_increasing_iff)
  qed
  have one: "bitlen 1 = 1" by (simp add: bitlen.simps)
  have le: "2 powi (int (bitlen n) - 1) \<le> ?x"
  proof -
    have "int (bitlen n) - 1 = int (bitlen n - 1)" using b(3) by simp
    then have "(2 :: rat) powi (int (bitlen n) - 1) = of_nat (2 ^ (bitlen n - 1))"
      by (simp only: power_int_of_nat of_nat_power) simp
    then show ?thesis using b(1) by (simp only: of_nat_le_iff)
  qed
  have "?x = Fract (int n) 1" using of_int_rat [of "int n"] by simp
  then have "quotient_of ?x = (int n, 1)" by (simp add: quotient_of_Fract Rat.normalize_def)
  then have e: "f64_exp ?x = - int (53 - bitlen n)"
    using le one b(3) \<open>bitlen n - 1 < 53\<close> by (simp add: f64_exp_def Let_def)
  have "?x / 2 powi f64_exp ?x = of_int (int n * 2 ^ (53 - bitlen n))"
    unfolding e by (simp add: power_int_minus divide_inverse)
  then have "round_even (?x / 2 powi f64_exp ?x) = int n * 2 ^ (53 - bitlen n)"
    by (simp only: round_even_int)
  then show ?thesis using False unfolding f64_def by (simp add: e power_int_minus)
qed (simp add: f64_def)

subsection \<open>Rendering\<close>

definition micro :: string where "micro = [char_of (194 :: nat), char_of (181 :: nat), CHR ''s'']"
definition micro_greek :: string where "micro_greek = [char_of (206 :: nat), char_of (188 :: nat), CHR ''s'']"

text \<open>The fraction \<open>v / 10^p\<close> without its trailing zeros, the point with it.\<close>

definition trim_zeros :: "string \<Rightarrow> string" where
  "trim_zeros s = rev (dropWhile (\<lambda>c. c = CHR ''0'') (rev s))"

definition fmtFrac :: "nat \<Rightarrow> nat \<Rightarrow> string \<times> nat" where
  "fmtFrac v p = (let ds = trim_zeros (fixed p (v mod 10 ^ p))
                  in (if ds = [] then [] else CHR ''.'' # ds, v div 10 ^ p))"

definition small_unit :: "nat \<Rightarrow> nat \<Rightarrow> string \<Rightarrow> string" where
  "small_unit u p unit = (case fmtFrac u p of (fr, v) \<Rightarrow> dec v @ fr @ unit)"

definition span_string :: "nat \<Rightarrow> string" where
  "span_string u =
     (if u = 0 then ''0s''
      else if u < 1000 then small_unit u 0 ''ns''
      else if u < 1000000 then small_unit u 3 micro
      else if u < 1000000000 then small_unit u 6 ''ms''
      else case fmtFrac u 9 of
        (fr, v) \<Rightarrow>
          (if 0 < v div 60
           then (if 0 < v div 60 div 60 then dec (v div 60 div 60) @ ''h'' else '''') @ dec (v div 60 mod 60) @ ''m''
           else '''') @ dec (v mod 60) @ fr @ ''s'')"

definition Duration_String :: "duration \<Rightarrow> string" where
  "Duration_String d = (if d < 0 then CHR ''-'' # span_string (nat (- d)) else span_string (nat d))"

subsection \<open>Parsing\<close>

definition unitMap :: "string \<Rightarrow> nat option" where
  "unitMap u = map_of [(''ns'', 1), (''us'', 1000), (micro, 1000), (micro_greek, 1000),
     (''ms'', 1000000), (''s'', 1000000000), (''m'', 60000000000), (''h'', 3600000000000)] u"

definition num_char :: "char \<Rightarrow> bool" where
  "num_char c \<longleftrightarrow> c = CHR ''.'' \<or> is_digit c"

text \<open>\<open>leadingInt\<close> refuses a number past \<open>2^63\<close>; \<open>leadingFraction\<close> drops digits past its precision.\<close>

definition leadingInt :: "string \<Rightarrow> (nat \<times> string) option" where
  "leadingInt s = (let v = dec_val (takeWhile is_digit s)
                   in if v > 2 ^ 63 then None else Some (v, dropWhile is_digit s))"

fun leadingFraction :: "nat \<Rightarrow> rat \<Rightarrow> bool \<Rightarrow> string \<Rightarrow> nat \<times> rat \<times> string" where
  "leadingFraction x scale over [] = (x, scale, [])"
| "leadingFraction x scale over (c # s) =
     (if \<not> is_digit c then (x, scale, c # s)
      else if over \<or> x > (2 ^ 63 - 1) div 10 then leadingFraction x scale True s
      else let y = x * 10 + digit_val c
        in if y > 2 ^ 63 then leadingFraction x scale True s
           else leadingFraction y (f64 (scale * 10)) False s)"

text \<open>One number: its integer part, its fraction with the scale, the rest, and whether it has digits.\<close>

definition scan_number :: "string \<Rightarrow> (nat \<times> nat \<times> rat \<times> string) option" where
  "scan_number s =
     (if s = [] \<or> \<not> num_char (hd s) then None
      else case leadingInt s of
        None \<Rightarrow> None
      | Some (v, s1) \<Rightarrow>
          (case s1 of
             c # q \<Rightarrow>
               (if c = CHR ''.'' then
                  (case leadingFraction 0 1 False q of
                     (f, scale, s2) \<Rightarrow>
                       if length s1 = length s \<and> length s2 = length q then None
                       else Some (v, f, scale, s2))
                else if length s1 = length s then None else Some (v, 0, 1, s1))
           | [] \<Rightarrow> if length s1 = length s then None else Some (v, 0, 1, s1)))"

text \<open>\<open>float64(f) * (float64(unit) / scale)\<close>, truncated.\<close>

definition scale_frac :: "nat \<Rightarrow> rat \<Rightarrow> nat \<Rightarrow> nat" where
  "scale_frac f scale unit = nat \<lfloor>f64 (f64 (of_nat f) * f64 (of_nat unit / scale))\<rfloor>"

definition term_value :: "nat \<Rightarrow> nat \<Rightarrow> rat \<Rightarrow> nat \<Rightarrow> nat option" where
  "term_value v f scale unit =
     (if v > 2 ^ 63 div unit then None
      else let w = v * unit + (if f > 0 then scale_frac f scale unit else 0)
        in if w > 2 ^ 63 then None else Some w)"

lemma leadingFraction_len: "leadingFraction x sc ov s = (f, sc', r) \<Longrightarrow> length r \<le> length s"
  by (induction x sc ov s arbitrary: f sc' r rule: leadingFraction.induct)
     (auto simp: Let_def split: if_splits intro: le_SucI)

lemma scan_number_len: "scan_number s = Some (v, f, sc, r) \<Longrightarrow> length r < length s"
proof -
  assume a: "scan_number s = Some (v, f, sc, r)"
  define s1 where "s1 = dropWhile is_digit s"
  have l: "length s1 \<le> length s" unfolding s1_def by (rule length_dropWhile_le)
  have li: "leadingInt s = None \<or> leadingInt s = Some (dec_val (takeWhile is_digit s), s1)"
    by (simp add: leadingInt_def Let_def s1_def)
  show ?thesis
  proof (cases s1)
    case Nil
    then show ?thesis using a li by (auto simp: scan_number_def split: if_splits)
  next
    case (Cons c q)
    obtain f' sc' s2 where x: "leadingFraction 0 1 False q = (f', sc', s2)" by (cases rule: prod_cases3)
    have "length s2 \<le> length q" by (rule leadingFraction_len [OF x])
    then show ?thesis using a li l unfolding Cons by (auto simp: scan_number_def x split: if_splits)
  qed
qed

function (sequential) parse_terms :: "nat \<Rightarrow> string \<Rightarrow> nat option" where
  "parse_terms d [] = Some d"
| "parse_terms d s =
     (case scan_number s of
        None \<Rightarrow> None
      | Some (v, f, scale, r) \<Rightarrow>
          (case unitMap (takeWhile (\<lambda>c. \<not> num_char c) r) of
             None \<Rightarrow> None
           | Some unit \<Rightarrow>
               (case term_value v f scale unit of
                  None \<Rightarrow> None
                | Some w \<Rightarrow>
                    (let d' = (d + w) mod 2 ^ 64
                     in if d' > 2 ^ 63 then None
                        else parse_terms d' (dropWhile (\<lambda>c. \<not> num_char c) r)))))"
  by pat_completeness auto
termination
proof (relation "measure (\<lambda>(d, s). length s)")
  fix d c s x y v z f w scale r unit t d'
  assume "scan_number (c # s) = Some x" "(v, y) = x" "(f, z) = y" "(scale, r) = z"
  then have "length r < length (c # s)" using scan_number_len by metis
  then show "((d' :: nat, dropWhile (\<lambda>c. \<not> num_char c) r), d, c # s) \<in> measure (\<lambda>(d, s). length s)"
    using length_dropWhile_le [of "\<lambda>c. \<not> num_char c" r] by simp
qed simp

definition ParseDuration :: "string \<Rightarrow> duration option" where
  "ParseDuration s =
     (case strip_sign s of
        (neg, t) \<Rightarrow>
          (if t = ''0'' then Some 0
           else if t = [] then None
           else case parse_terms 0 t of
             None \<Rightarrow> None
           | Some d \<Rightarrow> if neg then Some (- int d) else if d > 2 ^ 63 - 1 then None else Some (int d)))"

subsection \<open>Round trip\<close>

lemma dec_val_append: "dec_val (a @ b) = dec_val a * 10 ^ length b + dec_val b"
proof (induction b rule: rev_induct)
  case (snoc c b)
  then show ?case by (simp flip: append_assoc)
qed simp

lemma dec_val_zeros [simp]: "dec_val (replicate k (CHR ''0'')) = 0"
proof (induction k)
  case (Suc k)
  then show ?case using dec_val_snoc [of "replicate k (CHR ''0'')" "CHR ''0''"]
    by (simp add: digit_val_def flip: replicate_append_same)
qed simp

lemma trim_zeros_append: "s = trim_zeros s @ replicate (length s - length (trim_zeros s)) (CHR ''0'')"
proof -
  let ?P = "\<lambda>c. c = CHR ''0''"
  have "s = rev (dropWhile ?P (rev s)) @ rev (takeWhile ?P (rev s))"
    by (metis rev_append rev_rev_ident takeWhile_dropWhile_id)
  moreover have "rev (takeWhile ?P (rev s)) = replicate (length (takeWhile ?P (rev s))) (CHR ''0'')"
    by (rule replicate_eqI) (auto dest: set_takeWhileD)
  ultimately show ?thesis
    by (metis add_diff_cancel_left' length_append length_replicate trim_zeros_def)
qed

text \<open>\<open>fr\<close> spells the fraction \<open>f / 10^p\<close>.\<close>

definition frac_ok :: "string \<Rightarrow> nat \<Rightarrow> nat \<Rightarrow> bool" where
  "frac_ok fr p f \<longleftrightarrow> fr = [] \<and> f = 0
     \<or> (\<exists>ds. fr = CHR ''.'' # ds \<and> ds \<noteq> [] \<and> list_all is_digit ds \<and> length ds \<le> p
            \<and> f = dec_val ds * 10 ^ (p - length ds))"

lemma fmtFrac_ok:
  assumes "fmtFrac u p = (fr, v)"
  shows "v = u div 10 ^ p \<and> frac_ok fr p (u mod 10 ^ p)"
proof -
  let ?f = "u mod 10 ^ p"
  define ds where "ds = trim_zeros (fixed p ?f)"
  have e: "fixed p ?f = ds @ replicate (p - length ds) (CHR ''0'')"
    unfolding ds_def using trim_zeros_append [of "fixed p ?f"] by simp
  have l: "length ds \<le> p" using arg_cong [OF e, of length] by simp
  have d: "list_all is_digit ds"
    using fixed_digits [of p ?f] unfolding e by simp
  have "?f = dec_val (fixed p ?f)" by (simp add: dec_val_fixed)
  also have "\<dots> = dec_val ds * 10 ^ (p - length ds)" unfolding e by (simp add: dec_val_append)
  finally have f: "?f = dec_val ds * 10 ^ (p - length ds)" .
  have z: "fr = (if ds = [] then [] else CHR ''.'' # ds)" "v = u div 10 ^ p"
    using assms unfolding fmtFrac_def Let_def ds_def by simp_all
  show ?thesis
  proof (cases "ds = []")
    case True
    then show ?thesis using z f by (simp add: frac_ok_def)
  next
    case False
    then show ?thesis using z f l d unfolding frac_ok_def by auto
  qed
qed

definition no_digit_first :: "string \<Rightarrow> bool" where
  "no_digit_first r \<longleftrightarrow> r = [] \<or> \<not> is_digit (hd r)"

lemma digit_val_less: "is_digit c \<Longrightarrow> digit_val c < 10"
  by (auto simp: is_digit_def digit_val_def)

lemma takeWhile_digits:
  assumes "list_all is_digit ds" and "no_digit_first r"
  shows "takeWhile is_digit (ds @ r) = ds \<and> dropWhile is_digit (ds @ r) = r"
  using assms by (cases r) (auto simp: list_all_iff no_digit_first_def takeWhile_append dropWhile_append)

lemma f64_pow10: "k \<le> 15 \<Longrightarrow> f64 (10 ^ k) = 10 ^ k"
proof -
  assume "k \<le> 15"
  then have "(10 :: nat) ^ k \<le> 10 ^ 15" by (intro power_increasing) simp_all
  then have "(10 :: nat) ^ k < 2 ^ 53" by simp
  from f64_int [OF this] show ?thesis by simp
qed

lemma leadingFraction_digits:
  assumes "list_all is_digit ds" and "no_digit_first r" and "j + length ds \<le> 9" and "x < 10 ^ j"
  shows "leadingFraction x (10 ^ j) False (ds @ r) = (x * 10 ^ length ds + dec_val ds, 10 ^ (j + length ds), r)"
  using assms
proof (induction ds arbitrary: x j)
  case Nil
  then show ?case by (cases r) (auto simp: no_digit_first_def)
next
  case (Cons c ds)
  have c: "digit_val c < 10" using Cons(2) by (simp add: digit_val_less)
  have y: "x * 10 + digit_val c < 10 ^ Suc j" using Cons(5) c by simp
  have "(10 :: nat) ^ Suc j \<le> 10 ^ 9" using Cons(4) by (intro power_increasing) simp_all
  then have b: "x * 10 + digit_val c \<le> 2 ^ 63" "x \<le> (2 ^ 63 - 1) div 10" using y by simp_all
  have s: "f64 (10 ^ j * 10) = 10 ^ Suc j" using f64_pow10 [of "Suc j"] Cons(4) by (simp add: mult.commute)
  have "leadingFraction x (10 ^ j) False ((c # ds) @ r) =
      leadingFraction (x * 10 + digit_val c) (10 ^ Suc j) False (ds @ r)"
    using Cons(2) b s by (simp add: Let_def not_less del: power_Suc)
  also have "\<dots> = ((x * 10 + digit_val c) * 10 ^ length ds + dec_val ds, 10 ^ (Suc j + length ds), r)"
    by (rule Cons(1)) (use Cons y in auto)
  finally show ?case using dec_val_append [of "[c]" ds] dec_val_snoc [of "[]" c]
    by (simp add: algebra_simps)
qed

lemma scale_frac_exact:
  assumes "f < 10 ^ k" and "k \<le> p" and "p \<le> 9"
  shows "scale_frac f (10 ^ k) (10 ^ p) = f * 10 ^ (p - k)"
proof -
  have bound: "(10 :: nat) ^ n \<le> 10 ^ 9" if "n \<le> 9" for n using that by (intro power_increasing) simp_all
  have f: "f < 2 ^ 53" using assms bound [of k] by simp
  have "f * 10 ^ (p - k) < 10 ^ k * 10 ^ (p - k)" using assms(1) by (intro mult_strict_right_mono) simp_all
  also have "\<dots> = 10 ^ p" using assms(2) by (simp flip: power_add)
  finally have g: "f * 10 ^ (p - k) < 2 ^ 53" using bound [of p] assms(3) by simp
  have "(of_nat (10 ^ p) :: rat) / 10 ^ k = 10 ^ (p - k)" using assms(2) by (simp add: power_diff)
  then have "f64 (f64 (of_nat f) * f64 (of_nat (10 ^ p) / 10 ^ k)) = f64 (of_nat (f * 10 ^ (p - k)))"
    using f64_pow10 [of "p - k"] assms(3) by (simp add: f64_int [OF f])
  also have "\<dots> = of_nat (f * 10 ^ (p - k))" by (rule f64_int [OF g])
  finally show ?thesis unfolding scale_frac_def by (simp only: floor_of_nat nat_int)
qed

lemma scan_number_dec:
  assumes "frac_ok fr p f" and "p \<le> 9" and "no_digit_first r" and "r = [] \<or> hd r \<noteq> CHR ''.''"
    and "v \<le> 2 ^ 63"
  shows "\<exists>g k. scan_number (dec v @ fr @ r) = Some (v, g, 10 ^ k, r)
           \<and> (g = 0 \<and> f = 0 \<or> g < 10 ^ k \<and> k \<le> p \<and> f = g * 10 ^ (p - k))"
proof -
  obtain c t where c: "dec v = c # t" "is_digit c" using dec_hd [of v] by (cases "dec v") auto
  have n0: "num_char (hd (dec v @ fr @ r))" using c by (simp add: num_char_def)
  show ?thesis
  proof (cases "fr = []")
    case True
    then have f: "f = 0" using assms(1) by (simp add: frac_ok_def)
    have "takeWhile is_digit (dec v @ r) = dec v \<and> dropWhile is_digit (dec v @ r) = r"
      by (rule takeWhile_digits) (simp_all add: assms)
    then have "leadingInt (dec v @ r) = Some (v, r)" using assms(5) by (simp add: leadingInt_def)
    then have "scan_number (dec v @ fr @ r) = Some (v, 0, 1, r)"
      using True n0 assms(4) by (cases r) (auto simp: scan_number_def)
    then have "scan_number (dec v @ fr @ r) = Some (v, 0, 10 ^ 0, r)" by simp
    then show ?thesis using f by blast
  next
    case False
    then obtain ds where ds: "fr = CHR ''.'' # ds" "ds \<noteq> []" "list_all is_digit ds" "length ds \<le> p"
        "f = dec_val ds * 10 ^ (p - length ds)"
      using assms(1) by (auto simp: frac_ok_def)
    have "takeWhile is_digit (dec v @ fr @ r) = dec v \<and> dropWhile is_digit (dec v @ fr @ r) = fr @ r"
      by (rule takeWhile_digits) (simp_all add: no_digit_first_def ds(1) is_digit_def)
    moreover have "leadingFraction 0 1 False (ds @ r) = (dec_val ds, 10 ^ length ds, r)"
      using leadingFraction_digits [of ds r 0 0] ds assms(2,3) by simp
    moreover have "length r \<noteq> length (ds @ r)" using ds(2) by simp
    ultimately have s: "scan_number (dec v @ fr @ r) = Some (v, dec_val ds, 10 ^ length ds, r)"
      using n0 assms(5) by (auto simp: scan_number_def leadingInt_def ds(1))
    have "dec_val ds < 10 ^ length ds"
      using ds(3)
    proof (induction ds rule: rev_induct)
      case (snoc x xs)
      have "digit_val x < 10" using snoc(2) by (simp add: digit_val_less)
      moreover have "dec_val xs < 10 ^ length xs" using snoc by simp
      ultimately show ?case by simp
    qed simp
    then show ?thesis using s ds(4,5) by blast
  qed
qed

lemma term_value_frac:
  assumes "g = 0 \<and> f = 0 \<or> g < 10 ^ k \<and> k \<le> p \<and> f = g * 10 ^ (p - k)" and "p \<le> 9"
    and "f = 0 \<or> U = 10 ^ p" and "0 < U" and "v * U + f \<le> 2 ^ 63"
  shows "term_value v g (10 ^ k) U = Some (v * U + f)"
proof -
  have v: "v \<le> 2 ^ 63 div U" using assms(4,5) by (simp add: less_eq_div_iff_mult_less_eq)
  have "(if g > 0 then scale_frac g (10 ^ k) U else 0) = f"
  proof (cases "g = 0")
    case True
    then show ?thesis using assms(1) by auto
  next
    case False
    then have "U = 10 ^ p" using assms(1,3) by auto
    then show ?thesis using False assms(1) scale_frac_exact [of g k p] assms(2) by auto
  qed
  then show ?thesis using v assms(5) by (simp add: term_value_def Let_def)
qed

text \<open>One term of a rendered span is parsed to its value.\<close>

lemma parse_terms_term:
  assumes "frac_ok fr p f" and "p \<le> 9" and "f = 0 \<or> U = 10 ^ p" and "0 < U"
    and "u \<noteq> []" and "list_all (\<lambda>c. \<not> num_char c) u" and "unitMap u = Some U"
    and "rest = [] \<or> num_char (hd rest)" and "d + (v * U + f) \<le> 2 ^ 63"
  shows "parse_terms d (dec v @ fr @ u @ rest) = parse_terms (d + (v * U + f)) rest"
proof -
  have nf: "no_digit_first (u @ rest)" "hd (u @ rest) \<noteq> CHR ''.''"
    using assms(5,6) by (cases u; simp add: no_digit_first_def num_char_def)+
  have vb: "v \<le> 2 ^ 63"
  proof -
    have "v \<le> v * U" using assms(4) by simp
    then show ?thesis using assms(9) by linarith
  qed
  obtain g k where s: "scan_number (dec v @ fr @ u @ rest) = Some (v, g, 10 ^ k, u @ rest)"
      and g: "g = 0 \<and> f = 0 \<or> g < 10 ^ k \<and> k \<le> p \<and> f = g * 10 ^ (p - k)"
    using scan_number_dec [OF assms(1,2) nf(1) disjI2 [OF nf(2)] vb] by blast
  have t: "term_value v g (10 ^ k) U = Some (v * U + f)"
    by (rule term_value_frac [OF g assms(2,3,4)]) (use assms(9) in simp)
  have u: "takeWhile (\<lambda>c. \<not> num_char c) (u @ rest) = u" "dropWhile (\<lambda>c. \<not> num_char c) (u @ rest) = rest"
    using assms(6,8) by (cases rest; auto simp: list_all_iff)+
  obtain c r where c: "dec v @ fr @ u @ rest = c # r" using dec_ne by (cases "dec v @ fr @ u @ rest") auto
  have m: "(d + (v * U + f)) mod 2 ^ 64 = d + (v * U + f)" using assms(9) by simp
  show ?thesis
    using s u t m assms(7,9) unfolding c by (simp add: Let_def not_less)
qed

lemma unit_facts:
  "unitMap ''h'' = Some 3600000000000" "unitMap ''m'' = Some 60000000000"
  "unitMap ''s'' = Some 1000000000" "unitMap ''ms'' = Some 1000000" "unitMap micro = Some 1000"
  "unitMap ''ns'' = Some 1"
  by (simp_all add: unitMap_def micro_def micro_greek_def)

lemma micro_ok: "micro \<noteq> []" "list_all (\<lambda>c. \<not> num_char c) micro"
  by (simp add: micro_def) code_simp

lemma num_char_dec: "dec v @ r \<noteq> [] \<and> num_char (hd (dec v @ r))"
  using dec_hd [of v] by (cases "dec v") (auto simp: num_char_def)

lemma frac_ok_none [simp]: "frac_ok [] p 0"
  by (simp add: frac_ok_def)

lemma parse_small_unit:
  assumes "unitMap unit = Some (10 ^ p)" and "p \<le> 9" and "unit \<noteq> []"
    and "list_all (\<lambda>c. \<not> num_char c) unit" and "u \<le> 2 ^ 63"
  shows "parse_terms 0 (small_unit u p unit) = Some u"
proof -
  obtain fr v where f: "fmtFrac u p = (fr, v)" by fastforce
  have k: "v = u div 10 ^ p" "frac_ok fr p (u mod 10 ^ p)" using fmtFrac_ok [OF f] by simp_all
  have "v * 10 ^ p + u mod 10 ^ p = u" unfolding k(1) by (rule div_mult_mod_eq)
  then show ?thesis
    using parse_terms_term [OF k(2) assms(2) _ _ assms(3,4,1), of "[]" 0 v] assms(5)
    by (simp add: small_unit_def f)
qed

lemma parse_span_string:
  assumes "0 < u" and "u \<le> 2 ^ 63"
  shows "parse_terms 0 (span_string u) = Some u"
proof -
  note unit_facts [simp] micro_ok [simp]
  consider "u < 1000" | "\<not> u < 1000" "u < 1000000" | "\<not> u < 1000000" "u < 1000000000"
    | "1000000000 \<le> u" by linarith
  then show ?thesis
  proof cases
    case 1
    then show ?thesis using assms parse_small_unit [of "''ns''" 0 u]
      by (simp add: span_string_def num_char_def is_digit_def)
  next
    case 2
    then show ?thesis using assms parse_small_unit [of micro 3 u] by (simp add: span_string_def)
  next
    case 3
    then show ?thesis using assms parse_small_unit [of "''ms''" 6 u]
      by (simp add: span_string_def num_char_def is_digit_def)
  next
    case 4
    obtain fr v where f: "fmtFrac u 9 = (fr, v)" by fastforce
    have k: "v = u div 10 ^ 9" "frac_ok fr 9 (u mod 10 ^ 9)" using fmtFrac_ok [OF f] by simp_all
    have vu: "v * 10 ^ 9 + u mod 10 ^ 9 = u" unfolding k(1) by simp
    let ?sec = "dec (v mod 60) @ fr @ ''s''"
    have sec: "parse_terms d ?sec = Some (d + (v mod 60 * 10 ^ 9 + u mod 10 ^ 9))"
      if "d + (v mod 60 * 10 ^ 9 + u mod 10 ^ 9) \<le> 2 ^ 63" for d
      using parse_terms_term [OF k(2), of "10 ^ 9" "''s''" "[]" d "v mod 60"] that
      by (simp add: num_char_def is_digit_def)
    have min: "parse_terms d (dec (v div 60 mod 60) @ ''m'' @ ?sec)
        = parse_terms (d + v div 60 mod 60 * 60000000000) ?sec"
      if "d + v div 60 mod 60 * 60000000000 \<le> 2 ^ 63" for d
      using parse_terms_term [of "[]" 0 0 60000000000 "''m''" ?sec d "v div 60 mod 60"] that
        num_char_dec [of "v mod 60" "fr @ ''s''"] by (simp add: num_char_def is_digit_def)
    have hour: "parse_terms d (dec (v div 60 div 60) @ ''h'' @ dec (v div 60 mod 60) @ ''m'' @ ?sec)
        = parse_terms (d + v div 60 div 60 * 3600000000000) (dec (v div 60 mod 60) @ ''m'' @ ?sec)"
      if "d + v div 60 div 60 * 3600000000000 \<le> 2 ^ 63" for d
      using parse_terms_term [of "[]" 0 0 3600000000000 "''h''" "dec (v div 60 mod 60) @ ''m'' @ ?sec" d
          "v div 60 div 60"] that
        num_char_dec [of "v div 60 mod 60" "''m'' @ ?sec"] by (simp add: num_char_def is_digit_def)
    have parts: "v div 60 div 60 * 3600000000000 + v div 60 mod 60 * 60000000000
        + (v mod 60 * 10 ^ 9 + u mod 10 ^ 9) = u"
    proof -
      have "v = v div 60 div 60 * 3600 + v div 60 mod 60 * 60 + v mod 60"
        using div_mult_mod_eq [of v 60] div_mult_mod_eq [of "v div 60" 60] by linarith
      then have "v div 60 div 60 * 3600000000000 + v div 60 mod 60 * 60000000000 + v mod 60 * 10 ^ 9
          = v * 10 ^ 9" by (simp add: algebra_simps)
      then show ?thesis using vu by linarith
    qed
    have zero: "v div 60 mod 60 = 0 \<and> v div 60 div 60 = 0" if "v div 60 = 0" using that by simp
    show ?thesis
    proof (cases "v div 60 = 0")
      case True
      then show ?thesis using 4 sec [of 0] parts zero assms by (simp add: span_string_def f)
    next
      case False
      show ?thesis
      proof (cases "v div 60 div 60 = 0")
        case True
        then show ?thesis using 4 False min [of 0] sec parts assms by (simp add: span_string_def f)
      next
        case h: False
        then show ?thesis using 4 False hour [of 0] min sec parts assms by (simp add: span_string_def f)
      qed
    qed
  qed
qed

lemma span_string_first: "u = 0 \<or> (\<exists>c r. span_string u = c # r \<and> is_digit c \<and> r \<noteq> [])"
proof -
  have "\<exists>c r. dec v @ x = c # r \<and> is_digit c \<and> r \<noteq> []" if "x \<noteq> []" for v x
    using dec_hd [of v] that by (cases "dec v") auto
  then show ?thesis
    unfolding span_string_def small_unit_def
    by (auto simp: micro_def split: prod.split)
qed

text \<open>Every span an \<open>int64\<close> can hold is parsed back from its rendering.\<close>

lemma ParseDuration_String:
  assumes "- (2 ^ 63) \<le> d" and "d < 2 ^ 63"
  shows "ParseDuration (Duration_String d) = Some d"
proof (cases "d = 0")
  case True
  have "scan_number ''0s'' = Some (0, 0, 1, ''s'')"
    using scan_number_dec
    by (simp add: scan_number_def leadingInt_def num_char_def is_digit_def dec_val_def digit_val_def)
  then show ?thesis using True
    by (simp add: Duration_String_def span_string_def ParseDuration_def strip_sign_def num_char_def
        is_digit_def unitMap_def micro_def micro_greek_def term_value_def)
next
  case False
  define u where "u = nat \<bar>d\<bar>"
  have u: "0 < u" "u \<le> 2 ^ 63" using False assms by (simp_all add: u_def)
  obtain c r where c: "span_string u = c # r" "is_digit c" "r \<noteq> []"
    using span_string_first [of u] u by auto
  have p: "parse_terms 0 (c # r) = Some u" using parse_span_string [OF u] c by simp
  have s: "strip_sign (Duration_String d) = (d < 0, c # r)"
    using c digit_not_sign [OF c(2)] by (auto simp: Duration_String_def strip_sign_def u_def)
  show ?thesis
    unfolding ParseDuration_def s using p c(3) False assms by (auto simp: u_def)
qed

end
