(* ===== verification/Headers.thy ===== *)
theory Headers imports Wire GoDuration Store begin

text \<open>
  Where requests, responses and listings cross between Go values and header text: the server's parse
  (\<open>api/request.go\<close>) and render (\<open>api/framing.go\<close>, \<open>api/dto.go\<close>), the client's encode and parse
  (\<open>client/meta.go\<close>, \<open>client/list.go\<close>).  A request or response is its header map here.
\<close>

subsection \<open>The server reads a request\<close>

definition boolHeader :: "header \<Rightarrow> string \<Rightarrow> err + bool" where
  "boolHeader h name =
     (let v = hget h name
      in if v = '''' then Inr False else if v = FlagOn then Inr True else Inl (Leaf BadRequest))"

definition parse_kind :: "header \<Rightarrow> err + Kind" where
  "parse_kind h =
     (let v = hget h HeaderKind
      in if v = '''' then Inr KindBytes
         else if Kind_Valid v then Inr v else Inl (Leaf BadRequest))"

definition parse_filename :: "header \<Rightarrow> err + string" where
  "parse_filename h =
     (let v = hget h HeaderFilename
      in if v = '''' then Inr ''''
         else case PathUnescape v of
           None \<Rightarrow> Inl (Leaf BadRequest)
         | Some d \<Rightarrow> (case ValidFilename d of Some e \<Rightarrow> Inl e | None \<Rightarrow> Inr d))"

definition parse_ttl :: "header \<Rightarrow> err + duration" where
  "parse_ttl h =
     (let v = hget h HeaderTTL
      in if v = '''' then Inr 0
         else case ParseDuration v of
           None \<Rightarrow> Inl (Leaf BadRequest)
         | Some d \<Rightarrow> if d < 0 then Inl (Leaf BadRequest) else Inr d)"

definition parsePut :: "header \<Rightarrow> err + Meta \<times> PutOpts" where
  "parsePut h =
     (case parse_kind h of Inl e \<Rightarrow> Inl e | Inr k \<Rightarrow>
     (case parse_filename h of Inl e \<Rightarrow> Inl e | Inr f \<Rightarrow>
     (case parse_ttl h of Inl e \<Rightarrow> Inl e | Inr ttl \<Rightarrow>
     (case boolHeader h HeaderKeep of Inl e \<Rightarrow> Inl e | Inr keep \<Rightarrow>
     (case boolHeader h HeaderConsume of Inl e \<Rightarrow> Inl e | Inr once \<Rightarrow>
     (let token = hget h HeaderIfMatch
      in case boolHeader h HeaderExecutable of Inl e \<Rightarrow> Inl e | Inr exec \<Rightarrow>
        Inr (\<lparr>Kind = k, Filename = f, Executable = exec\<rparr>,
             \<lparr>po_TTL = ttl, po_Keep = keep, po_ConsumeOnce = once, po_IfMatch = token\<rparr>)))))))"

definition parseGet :: "header \<Rightarrow> err + GetOpts" where
  "parseGet h =
     (case boolHeader h HeaderWait of Inl e \<Rightarrow> Inl e | Inr wait \<Rightarrow>
     (case boolHeader h HeaderFollowNext of Inl e \<Rightarrow> Inl e | Inr nxt \<Rightarrow>
        Inr \<lparr>go_Wait = wait, go_FollowNext = nxt, go_WaitMax = 0\<rparr>))"

subsection \<open>The client writes a request\<close>

text \<open>The client's own option types (\<open>client.PutOpts\<close>, \<open>client.GetOpts\<close>).\<close>

record ClientPutOpts =
  cp_TTL :: duration
  cp_Keep :: bool
  cp_ConsumeOnce :: bool
  cp_IfMatch :: string

record ClientGetOpts =
  cg_Wait :: bool
  cg_FollowNext :: bool

definition encodeHeaders :: "Meta \<Rightarrow> ClientPutOpts \<Rightarrow> header" where
  "encodeHeaders m po =
     hset_when (cp_IfMatch po \<noteq> '''') HeaderIfMatch (cp_IfMatch po)
     (hset_when (cp_ConsumeOnce po) HeaderConsume FlagOn
     (hset_when (cp_Keep po) HeaderKeep FlagOn
     (hset_when (cp_TTL po > 0) HeaderTTL (Duration_String (cp_TTL po))
     (hset_when (Executable m) HeaderExecutable FlagOn
     (hset_when (Filename m \<noteq> '''') HeaderFilename (PathEscape (Filename m))
     (hset HeaderKind (Kind m) []))))))"

definition getHeaders :: "ClientGetOpts \<Rightarrow> header" where
  "getHeaders go =
     hset_when (cg_FollowNext go) HeaderFollowNext FlagOn (hset_when (cg_Wait go) HeaderWait FlagOn [])"

subsection \<open>The server describes a clip\<close>

definition itoa :: "int64 \<Rightarrow> string" where
  "itoa n = FormatInt (sint n)"

definition setClipMeta :: "header \<Rightarrow> Clip \<Rightarrow> header" where
  "setClipMeta h c =
     (let h = hset HeaderGeneration (Generation c) h;
          h = hset HeaderKind (Kind (ClipMeta c)) h;
          h = hset HeaderFinalized (FormatBool (Finalized c)) h;
          h = hset HeaderConsume (FormatBool (ConsumeOnce c)) h;
          h = hset_when (Filename (ClipMeta c) \<noteq> '''') HeaderFilename (PathEscape (Filename (ClipMeta c))) h;
          h = hset_when (Executable (ClipMeta c)) HeaderExecutable BoolTrue h
      in if Finalized c
         then hset_when (\<not> IsZero (ExpiresAt c)) HeaderExpires (Format_RFC3339 (ExpiresAt c))
                (hset HeaderSize (itoa (Size c)) h)
         else h)"

definition writeHeaders :: "header \<Rightarrow> Clip \<Rightarrow> header" where
  "writeHeaders h c =
     setClipMeta (hset ''X-Content-Type-Options'' ''nosniff''
       (hset ''Content-Type'' ''application/octet-stream'' h)) c"

record wireClip =
  wc_name :: string
  wc_generation :: string
  wc_kind :: string
  wc_filename :: string
  wc_executable :: bool
  wc_size :: int64
  wc_created_at :: string
  wc_finalized_at :: string
  wc_expires_at :: string
  wc_consume_once :: bool

definition toWire :: "Clip \<Rightarrow> wireClip" where
  "toWire c =
     (let wc = \<lparr>wc_name = Name c, wc_generation = Generation c, wc_kind = Kind (ClipMeta c),
           wc_filename = Filename (ClipMeta c), wc_executable = Executable (ClipMeta c),
           wc_size = Size c, wc_created_at = Format_RFC3339 (CreatedAt c),
           wc_finalized_at = Format_RFC3339 (FinalizedAt c), wc_expires_at = '''',
           wc_consume_once = ConsumeOnce c\<rparr>
      in if \<not> IsZero (ExpiresAt c) then wc\<lparr>wc_expires_at := Format_RFC3339 (ExpiresAt c)\<rparr> else wc)"

subsection \<open>The client reads it back\<close>

definition atoi64 :: "string \<Rightarrow> int64" where
  "atoi64 s = word_of_int (fst (ParseInt s))"

definition parseTime :: "string \<Rightarrow> time" where
  "parseTime s =
     (if s = '''' then zero_time
      else case Parse_RFC3339 s of None \<Rightarrow> zero_time | Some t \<Rightarrow> t)"

definition parseClip :: "string \<Rightarrow> header \<Rightarrow> Clip" where
  "parseClip name h =
     (let c = zero_clip\<lparr>Name := name, Generation := hget h HeaderGeneration,
            ClipMeta := \<lparr>Kind = hget h HeaderKind, Filename = '''',
              Executable = (hget h HeaderExecutable = BoolTrue)\<rparr>,
            Finalized := (hget h HeaderFinalized = BoolTrue),
            ConsumeOnce := (hget h HeaderConsume = BoolTrue)\<rparr>;
          v = hget h HeaderFilename;
          c = (if v \<noteq> '''' then
                 (case PathUnescape v of Some d \<Rightarrow> c\<lparr>ClipMeta := (ClipMeta c)\<lparr>Filename := d\<rparr>\<rparr> | None \<Rightarrow> c)
               else c);
          c = c\<lparr>ClipMeta := Normalized (ClipMeta c)\<rparr>
      in if Finalized c then
           (let c = c\<lparr>Size := atoi64 (hget h HeaderSize)\<rparr>;
                t = parseTime (hget h HeaderExpires)
            in if \<not> IsZero t then c\<lparr>ExpiresAt := t\<rparr> else c)
         else c)"

definition toClip :: "wireClip \<Rightarrow> Clip" where
  "toClip lc = \<lparr>Name = wc_name lc, Generation = wc_generation lc,
     ClipMeta = Normalized \<lparr>Kind = wc_kind lc, Filename = wc_filename lc, Executable = wc_executable lc\<rparr>,
     Size = wc_size lc, CreatedAt = parseTime (wc_created_at lc),
     FinalizedAt = parseTime (wc_finalized_at lc), ExpiresAt = parseTime (wc_expires_at lc),
     ConsumeOnce = wc_consume_once lc, Finalized = True\<rparr>"

subsection \<open>Facts\<close>

lemma canonical_headers:
  "canonical_key HeaderKind = ''Buff-Kind'' \<and> canonical_key HeaderFilename = ''Buff-Filename''
   \<and> canonical_key HeaderExecutable = ''Buff-Executable'' \<and> canonical_key HeaderTTL = ''Buff-Ttl''
   \<and> canonical_key HeaderKeep = ''Buff-Keep'' \<and> canonical_key HeaderConsume = ''Buff-Consume''
   \<and> canonical_key HeaderGeneration = ''Buff-Generation''
   \<and> canonical_key HeaderFinalized = ''Buff-Finalized'' \<and> canonical_key HeaderSize = ''Buff-Size''
   \<and> canonical_key HeaderExpires = ''Buff-Expires'' \<and> canonical_key HeaderStatus = ''Buff-Status''
   \<and> canonical_key HeaderError = ''Buff-Error'' \<and> canonical_key HeaderIfMatch = ''If-Match''
   \<and> canonical_key HeaderWait = ''Buff-Wait'' \<and> canonical_key HeaderFollowNext = ''Buff-Follow-Next''
   \<and> canonical_key ''Content-Type'' = ''Content-Type''
   \<and> canonical_key ''Content-Length'' = ''Content-Length'' \<and> canonical_key ''Trailer'' = ''Trailer''
   \<and> canonical_key ''X-Content-Type-Options'' = ''X-Content-Type-Options''"
  by code_simp

lemmas header_get = hget_hset hget_hset_when canonical_headers

lemma ParseInt_itoa [simp]: "ParseInt (itoa n) = (sint n, None)"
  using sint64_bounds [of n] by (simp add: itoa_def ParseInt_FormatInt)

lemma atoi64_itoa [simp]: "atoi64 (itoa n) = n"
  by (simp add: atoi64_def)

lemma Format_ne [simp]: "Format_RFC3339 t \<noteq> []"
  by (simp add: Format_RFC3339_def Let_def split: prod.split)

lemma parseTime_Format: "rfc_range t \<Longrightarrow> parseTime (Format_RFC3339 t) = t div nanos * nanos"
  by (simp add: parseTime_def Parse_Format)

lemma FormatBool_True [simp]: "FormatBool b = BoolTrue \<longleftrightarrow> b"
  by (simp add: FormatBool_def BoolTrue_def)

lemma Duration_String_ne [simp]: "Duration_String d \<noteq> []"
  by (auto simp: Duration_String_def span_string_def small_unit_def split: prod.split)

lemma flag_ne [simp]: "FlagOn \<noteq> ''''" "BoolTrue \<noteq> ''''"
  by (simp_all add: FlagOn_def BoolTrue_def)

lemma boolHeader_hset_when:
  "hget h name = (if b then FlagOn else '''') \<Longrightarrow> boolHeader h name = Inr b"
  by (simp add: boolHeader_def split: if_splits)

lemma parseGet_getHeaders:
  "parseGet (getHeaders go)
   = Inr \<lparr>go_Wait = cg_Wait go, go_FollowNext = cg_FollowNext go, go_WaitMax = 0\<rparr>"
  by (simp add: parseGet_def getHeaders_def boolHeader_def header_get)

text \<open>The options the client meant, as the server's store reads them.\<close>

definition server_opts :: "ClientPutOpts \<Rightarrow> PutOpts" where
  "server_opts po = \<lparr>po_TTL = (if cp_TTL po > 0 then cp_TTL po else 0), po_Keep = cp_Keep po,
     po_ConsumeOnce = cp_ConsumeOnce po, po_IfMatch = cp_IfMatch po\<rparr>"

lemma parsePut_encode:
  assumes "Kind_Valid (Kind m)" and "Filename m \<noteq> '''' \<longrightarrow> ValidFilename (Filename m) = None"
    and "cp_TTL po < 2 ^ 63"
  shows "parsePut (encodeHeaders m po) = Inr (m, server_opts po)"
proof -
  let ?h = "encodeHeaders m po"
  have k: "Kind m \<noteq> ''''" using assms(1)
    by (auto simp: Kind_Valid_def KindBytes_def KindFile_def KindArchive_def)
  have "parse_kind ?h = Inr (Kind m)"
    using assms(1) k by (simp add: parse_kind_def encodeHeaders_def header_get)
  moreover have "parse_filename ?h = Inr (Filename m)"
    using assms(2) by (simp add: parse_filename_def encodeHeaders_def header_get PathEscape_ne)
  moreover have "parse_ttl ?h = Inr (if cp_TTL po > 0 then cp_TTL po else 0)"
    using assms(3) ParseDuration_String [of "cp_TTL po"]
    by (simp add: parse_ttl_def encodeHeaders_def header_get)
  moreover have "boolHeader ?h HeaderKeep = Inr (cp_Keep po)"
      "boolHeader ?h HeaderConsume = Inr (cp_ConsumeOnce po)"
      "boolHeader ?h HeaderExecutable = Inr (Executable m)" "hget ?h HeaderIfMatch = cp_IfMatch po"
    by (auto intro!: boolHeader_hset_when simp: encodeHeaders_def header_get)
  ultimately show ?thesis by (simp add: parsePut_def server_opts_def)
qed

text \<open>What the client knows of a clip after a response: times it is not told are zero.\<close>

definition seen_clip :: "string \<Rightarrow> Clip \<Rightarrow> Clip" where
  "seen_clip name c = \<lparr>Name = name, Generation = Generation c, ClipMeta = Normalized (ClipMeta c),
     Size = (if Finalized c then Size c else 0), CreatedAt = zero_time, FinalizedAt = zero_time,
     ExpiresAt = (if Finalized c \<and> \<not> IsZero (ExpiresAt c) then ExpiresAt c div nanos * nanos else zero_time),
     ConsumeOnce = ConsumeOnce c, Finalized = Finalized c\<rparr>"



text \<open>The headers a clip is described by are not set yet.\<close>

definition clip_headers :: "string list" where
  "clip_headers = [HeaderGeneration, HeaderKind, HeaderFinalized, HeaderConsume, HeaderFilename,
     HeaderExecutable, HeaderSize, HeaderExpires]"

lemma parseClip_setClipMeta:
  assumes "\<forall>k \<in> set clip_headers. hget h k = ''''" and "rfc_range (ExpiresAt c)"
  shows "parseClip name (setClipMeta h c) = seen_clip name c"
proof -
  have e: "hget h HeaderFilename = ''''" "hget h HeaderExecutable = ''''" "hget h HeaderSize = ''''"
      "hget h HeaderExpires = ''''"
    using assms(1) by (simp_all add: clip_headers_def)
  let ?h = "setClipMeta h c"
  let ?fin = "Finalized c"
  have get: "hget ?h HeaderGeneration = Generation c" "hget ?h HeaderKind = Kind (ClipMeta c)"
      "hget ?h HeaderExecutable = (if Executable (ClipMeta c) then BoolTrue else '''')"
      "hget ?h HeaderFinalized = FormatBool ?fin" "hget ?h HeaderConsume = FormatBool (ConsumeOnce c)"
      "hget ?h HeaderFilename = PathEscape (Filename (ClipMeta c))"
      "?fin \<Longrightarrow> hget ?h HeaderSize = itoa (Size c)"
      "?fin \<Longrightarrow> hget ?h HeaderExpires = (if IsZero (ExpiresAt c) then '''' else Format_RFC3339 (ExpiresAt c))"
    by (simp_all add: setClipMeta_def header_get e Let_def PathEscape_def)
  have isflag: "(if b then BoolTrue else '''') = BoolTrue \<longleftrightarrow> b" for b
    using flag_ne(2) by (auto simp del: flag_ne)
  have n: "\<lparr>Kind = Kind (ClipMeta c), Filename = Filename (ClipMeta c), Executable = Executable (ClipMeta c)\<rparr>
      = ClipMeta c" by simp
  have n0: "\<lparr>Kind = Kind (ClipMeta c), Filename = [], Executable = Executable (ClipMeta c)\<rparr> = ClipMeta c"
    if "Filename (ClipMeta c) = []"
    using that by (intro Meta.equality) simp_all
  have exp: "parseTime (if IsZero (ExpiresAt c) then '''' else Format_RFC3339 (ExpiresAt c))
      = (if IsZero (ExpiresAt c) then zero_time else ExpiresAt c div nanos * nanos)"
    using assms(2) by (simp add: parseTime_Format) (simp add: parseTime_def)
  show ?thesis
  proof (cases ?fin)
    case True
    show ?thesis
      unfolding parseClip_def Let_def get(1-6) get(7,8) [OF True] exp isflag FormatBool_True
      by (auto simp: True Let_def seen_clip_def zero_clip_def n n0 IsZero_def PathEscape_ne)
  next
    case False
    show ?thesis
      unfolding parseClip_def Let_def get(1-6) isflag FormatBool_True
      by (auto simp: False Let_def seen_clip_def zero_clip_def n n0 PathEscape_ne)
  qed
qed

lemma toClip_toWire:
  assumes "rfc_range (CreatedAt c)" and "rfc_range (FinalizedAt c)" and "rfc_range (ExpiresAt c)"
  shows "toClip (toWire c) = c\<lparr>ClipMeta := Normalized (ClipMeta c),
     CreatedAt := CreatedAt c div nanos * nanos, FinalizedAt := FinalizedAt c div nanos * nanos,
     ExpiresAt := ExpiresAt c div nanos * nanos, Finalized := True\<rparr>"
proof -
  have z: "zero_time div nanos * nanos = zero_time" by (simp add: zero_time_def nanos_def)
  have n: "\<lparr>Kind = Kind (ClipMeta c), Filename = Filename (ClipMeta c), Executable = Executable (ClipMeta c)\<rparr>
      = ClipMeta c" by simp
  show ?thesis
    by (rule Clip.equality)
      (use assms in \<open>simp_all add: toClip_def toWire_def Let_def parseTime_Format n IsZero_def z\<close>,
       simp_all add: parseTime_def)
qed

lemma rfc_range_zero [simp]: "rfc_range zero_time"
  by code_simp

lemma ValidFilename_error: "ValidFilename d = Some e \<Longrightarrow> e = Leaf ErrFilenameInvalid"
  by (auto simp: ValidFilename_def split: if_splits)

lemma bad_request_rows: "mapErr (Leaf BadRequest) = row_BadReq \<and> mapErr (Leaf ErrFilenameInvalid) = row_BadReq"
  by (simp add: mapErr_def errMap_def)

subsection \<open>What crosses the wire\<close>

text \<open>
  C25. A request the client encodes is the request the server reads.  For every metadata with a legal
  kind and filename and every choice of options, the server's strict parse of the headers the client
  sends accepts them and yields the same metadata and the same options: the time to live to the
  nanosecond, the flags, the conditional token, an unset time to live as the server's default.
\<close>

theorem put_request_roundtrip:
  assumes "Kind_Valid (Kind m)" and "Filename m = '''' \<or> ValidFilename (Filename m) = None"
    and "cp_TTL po < 2 ^ 63"
  shows "parsePut (encodeHeaders m po) = Inr (m, server_opts po)
         \<and> parseGet (getHeaders go)
           = Inr \<lparr>go_Wait = cg_Wait go, go_FollowNext = cg_FollowNext go, go_WaitMax = 0\<rparr>"
  using assms parsePut_encode parseGet_getHeaders by blast

definition sample_meta :: Meta where
  "sample_meta = \<lparr>Kind = KindFile, Filename = ''a b%.txt'', Executable = True\<rparr>"

definition sample_put :: ClientPutOpts where
  "sample_put = \<lparr>cp_TTL = 90500000000, cp_Keep = False, cp_ConsumeOnce = True, cp_IfMatch = ''*''\<rparr>"

lemma put_request_roundtrip_witness:
  "parsePut (encodeHeaders sample_meta sample_put) = Inr (sample_meta, server_opts sample_put)"
proof -
  have "ValidFilename (Filename sample_meta) = None" by code_simp
  then show ?thesis
    using put_request_roundtrip [of sample_meta sample_put "\<lparr>cg_Wait = True, cg_FollowNext = False\<rparr>"]
    by (simp add: sample_meta_def sample_put_def Kind_Valid_def)
qed


text \<open>
  C26. The client sees the clip the server describes.  From the headers of a GET, a HEAD or a PUT it
  reads back the generation, the normalized metadata, the flags and, for a finalized clip, the exact
  size and the expiry to the second; a listing entry reads back as the clip itself with its instants
  cut to the second.
\<close>

theorem clip_description_roundtrip:
  assumes "rfc_range (CreatedAt c)" and "rfc_range (FinalizedAt c)" and "rfc_range (ExpiresAt c)"
  shows "parseClip name (writeHeaders [] c) = seen_clip name c
       \<and> parseClip name (setClipMeta [] c) = seen_clip name c
       \<and> toClip (toWire c) = c\<lparr>ClipMeta := Normalized (ClipMeta c),
           CreatedAt := CreatedAt c div nanos * nanos, FinalizedAt := FinalizedAt c div nanos * nanos,
           ExpiresAt := ExpiresAt c div nanos * nanos, Finalized := True\<rparr>"
proof -
  have "\<forall>k \<in> set clip_headers. hget (hset ''X-Content-Type-Options'' ''nosniff''
      (hset ''Content-Type'' ''application/octet-stream'' [])) k = ''''"
    by (simp add: clip_headers_def header_get)
  then show ?thesis
    using parseClip_setClipMeta assms toClip_toWire by (simp add: writeHeaders_def)
qed

definition sample_clip :: Clip where
  "sample_clip = \<lparr>Name = ''notes'', Generation = ''0a1b'', ClipMeta = sample_meta, Size = 70000,
     CreatedAt = 1700000000123456789, FinalizedAt = 1700000001123456789,
     ExpiresAt = 1700003601123456789, ConsumeOnce = True, Finalized = True\<rparr>"

lemma clip_description_roundtrip_witness:
  "parseClip ''notes'' (writeHeaders [] sample_clip) = seen_clip ''notes'' sample_clip
   \<and> ExpiresAt (toClip (toWire sample_clip)) = 1700003601000000000"
proof -
  have "rfc_range (CreatedAt sample_clip)" "rfc_range (FinalizedAt sample_clip)"
      "rfc_range (ExpiresAt sample_clip)"
    by code_simp+
  from clip_description_roundtrip [OF this, of "''notes''"] show ?thesis
    by (simp add: sample_clip_def nanos_def)
qed

end
