(* ===== verification/Framing.thy ===== *)
theory Framing imports Headers Streams begin

text \<open>
  How a clip's bytes travel and how their completeness is proved: the server's \<open>stream\<close>
  (\<open>api/framing.go\<close>) with the writer that flushes (\<open>api/deadline.go\<close>), and the client's \<open>body\<close>
  (\<open>client/get.go\<close>).  What \<open>net/http\<close> carries between them is a parameter.
\<close>

subsection \<open>The server's response\<close>

text \<open>
  What a handler left on the connection.  \<open>Streaming\<close> is a handler still in its copy loop; \<open>Aborted\<close>
  is the panic with \<open>http.ErrAbortHandler\<close>, which closes the connection with no terminating chunk.
\<close>

datatype ending = Streaming | Finished | Aborted

record response =
  w_status :: int
  w_header :: header
  w_body :: "byte list"
  w_trailer :: header
  w_end :: ending

definition no_response :: response where
  "no_response = \<lparr>w_status = 0, w_header = [], w_body = [], w_trailer = [], w_end = Streaming\<rparr>"

datatype copy_end = Running | Copied | Failed err

text \<open>
  The outcome of one write to the connection: the bytes it took, its error, and the error of the
  flush that follows it on a live stream.  Past the end of the list every write succeeds in full.
\<close>

type_synonym conn_write = "nat \<times> err option \<times> err option"

definition conn_Write :: "bool \<Rightarrow> byte list \<Rightarrow> conn_write list \<Rightarrow> byte list \<times> nat \<times> err option \<times> conn_write list" where
  "conn_Write flush p outs =
     (case outs of
        [] \<Rightarrow> (p, length p, None, [])
      | (k, we, fe) # outs' \<Rightarrow>
          (take k p, min k (length p), (if we = None \<and> flush then fe else we), outs'))"

text \<open>
  \<open>io.CopyBuffer\<close> from the clip's reader: each entry of the trace is one \<open>Read\<close>, the bytes it
  returned and its error; a trace that has run out is a reader still waiting.
\<close>

definition short_write :: err where "short_write = Wrapf ''short write'' []"

fun copy_out ::
  "bool \<Rightarrow> (byte list \<times> err option) list \<Rightarrow> conn_write list \<Rightarrow> byte list \<times> copy_end" where
  "copy_out flush [] outs = ([], Running)"
| "copy_out flush ((p, re) # rs) outs =
     (let (sent, n, we, outs') = (if p = [] then ([], 0, None, outs) else conn_Write flush p outs)
      in case we of
           Some e \<Rightarrow> (sent, Failed e)
         | None \<Rightarrow>
             (if n \<noteq> length p then (sent, Failed short_write)
              else case re of
                Some e \<Rightarrow> (sent, if e = Leaf IoEOF then Copied else Failed e)
              | None \<Rightarrow> (case copy_out flush rs outs' of (rest, e) \<Rightarrow> (sent @ rest, e))))"

definition stream_out ::
  "Clip \<Rightarrow> (byte list \<times> err option) list \<Rightarrow> conn_write list \<Rightarrow> err option \<Rightarrow> response \<Rightarrow> response" where
  "stream_out c trace outs hello r =
     (let live = \<not> Finalized c;
          h = (if Finalized c then hset ''Content-Length'' (itoa (Size c)) (w_header r)
               else hset ''Trailer'' HeaderStatus (w_header r));
          r = r\<lparr>w_header := h, w_status := 200\<rparr>
      in if live \<and> hello \<noteq> None then r\<lparr>w_end := Aborted\<rparr>
         else case copy_out live trace outs of
           (bs, Running) \<Rightarrow> r\<lparr>w_body := bs, w_end := Streaming\<rparr>
         | (bs, Failed e) \<Rightarrow> r\<lparr>w_body := bs, w_end := Aborted\<rparr>
         | (bs, Copied) \<Rightarrow>
             r\<lparr>w_body := bs, w_end := Finished,
               w_trailer := (if live then hset HeaderStatus StatusComplete [] else [])\<rparr>)"

subsection \<open>The client's body\<close>

text \<open>The parts of \<open>http.Response\<close> the completion rule reads; \<open>ContentLength\<close> is -1 when unknown.\<close>

record http_response =
  ContentLength :: int
  Trailer :: header

record body =
  b_name :: string
  b_count :: int64

definition newBody :: "string \<Rightarrow> body" where
  "newBody name = \<lparr>b_name = name, b_count = 0\<rparr>"

definition complete :: "http_response \<Rightarrow> body \<Rightarrow> bool" where
  "complete resp b =
     (if ContentLength resp \<ge> 0 then sint (b_count b) = ContentLength resp
      else hget (Trailer resp) HeaderStatus = StatusComplete)"

definition torn :: "body \<Rightarrow> err option \<Rightarrow> err" where
  "torn b cause =
     (case cause of
        Some e \<Rightarrow> Wrapf (''incomplete read of '' @ b_name b) [e, Leaf ErrAborted]
      | None \<Rightarrow> Wrapf (''incomplete read of '' @ b_name b @ '' (no completion signal)'') [Leaf ErrAborted])"

text \<open>One \<open>Read\<close>, given what the transport's body returned.\<close>

definition body_Read ::
  "http_response \<Rightarrow> byte list \<times> err option \<Rightarrow> body \<Rightarrow> body \<times> byte list \<times> err option" where
  "body_Read resp got b =
     (case got of
        (p, e) \<Rightarrow>
          (let b = b\<lparr>b_count := b_count b + word_of_nat (length p)\<rparr>
           in case e of
                None \<Rightarrow> (b, p, None)
              | Some e \<Rightarrow>
                  (if e = Leaf IoEOF then
                     (if complete resp b then (b, p, Some (Leaf IoEOF)) else (b, p, Some (torn b None)))
                   else (b, p, Some (torn b (Some e))))))"

text \<open>A caller's copy loop over the body: what it collected and how it ended.\<close>

fun read_body ::
  "http_response \<Rightarrow> (byte list \<times> err option) list \<Rightarrow> body \<Rightarrow> byte list \<times> err option" where
  "read_body resp [] b = ([], None)"
| "read_body resp (g # rs) b =
     (case body_Read resp g b of
        (b, p, Some e) \<Rightarrow> (p, Some e)
      | (b, p, None) \<Rightarrow> (case read_body resp rs b of (q, e) \<Rightarrow> (p @ q, e)))"

subsection \<open>Facts\<close>

definition trace_bytes :: "(byte list \<times> err option) list \<Rightarrow> byte list" where
  "trace_bytes tr = concat (map fst tr)"

lemma trace_bytes_simps [simp]:
  "trace_bytes [] = []" "trace_bytes (x # tr) = fst x @ trace_bytes tr"
  by (simp_all add: trace_bytes_def)

text \<open>A clean copy read its source to the clean end and put every byte on the connection.\<close>

definition ends_clean :: "(byte list \<times> err option) list \<Rightarrow> byte list \<Rightarrow> bool" where
  "ends_clean tr d \<longleftrightarrow> (\<exists>us p vs. tr = us @ (p, Some (Leaf IoEOF)) # vs \<and> (\<forall>u \<in> set us. snd u = None)
      \<and> d = trace_bytes us @ p)"

lemma ends_clean_Cons:
  "ends_clean ((p, re) # tr) d \<longleftrightarrow>
     (re = Some (Leaf IoEOF) \<and> d = p) \<or> (re = None \<and> (\<exists>d'. ends_clean tr d' \<and> d = p @ d'))"
proof
  assume "ends_clean ((p, re) # tr) d"
  then obtain us q vs where u: "(p, re) # tr = us @ (q, Some (Leaf IoEOF)) # vs"
      "\<forall>u \<in> set us. snd u = None" "d = trace_bytes us @ q"
    by (auto simp: ends_clean_def)
  show "(re = Some (Leaf IoEOF) \<and> d = p) \<or> (re = None \<and> (\<exists>d'. ends_clean tr d' \<and> d = p @ d'))"
  proof (cases us)
    case Nil
    then show ?thesis using u by simp
  next
    case (Cons a us')
    then have "ends_clean tr (trace_bytes us' @ q)" using u unfolding ends_clean_def by auto
    then show ?thesis using Cons u by auto
  qed
next
  assume a: "(re = Some (Leaf IoEOF) \<and> d = p) \<or> (re = None \<and> (\<exists>d'. ends_clean tr d' \<and> d = p @ d'))"
  then show "ends_clean ((p, re) # tr) d"
  proof
    assume "re = Some (Leaf IoEOF) \<and> d = p"
    then have "(p, re) # tr = [] @ (p, Some (Leaf IoEOF)) # tr" "d = trace_bytes [] @ p" by simp_all
    then show ?thesis unfolding ends_clean_def by fastforce
  next
    assume "re = None \<and> (\<exists>d'. ends_clean tr d' \<and> d = p @ d')"
    then obtain us q vs where "re = None" "tr = us @ (q, Some (Leaf IoEOF)) # vs"
        "\<forall>u \<in> set us. snd u = None" "d = p @ trace_bytes us @ q"
      by (auto simp: ends_clean_def)
    then have "(p, re) # tr = ((p, None) # us) @ (q, Some (Leaf IoEOF)) # vs"
        "\<forall>u \<in> set ((p, None) # us). snd u = None" "d = trace_bytes ((p, None) # us) @ q" by simp_all
    then show ?thesis unfolding ends_clean_def by blast
  qed
qed

lemma copy_out_copied:
  "copy_out fl tr outs = (bs, Copied) \<Longrightarrow> ends_clean tr bs"
proof (induction fl tr outs arbitrary: bs rule: copy_out.induct)
  case (2 fl p re rs outs)
  obtain sent n we outs' where w:
    "(if p = [] then ([], 0, None, outs) else conn_Write fl p outs) = (sent, n, we, outs')"
    by (cases rule: prod_cases4)
  have full: "sent = p" if "n = length p"
    using w that by (cases outs) (auto simp: conn_Write_def split: if_splits prod.splits)
  have c: "we = None" "n = length p"
    using 2(2) w by (auto split: option.splits if_splits)
  show ?case
  proof (cases re)
    case None
    obtain rest e where m: "copy_out fl rs outs' = (rest, e)" by fastforce
    have "e = Copied" "bs = p @ rest" using 2(2) w c None m full by auto
    then have "ends_clean rs rest" using 2(1) [OF w [symmetric] refl refl refl c(1)] None c(2) m by simp
    then show ?thesis using None \<open>bs = p @ rest\<close> by (auto simp: ends_clean_Cons)
  next
    case (Some e)
    then show ?thesis using 2(2) w c full by (auto simp: ends_clean_Cons split: if_splits)
  qed
qed simp

text \<open>Whatever happened, the connection carries a prefix of what was read.\<close>

lemma copy_out_prefix:
  "copy_out fl tr outs = (bs, e) \<Longrightarrow> bs = take (length bs) (trace_bytes tr)"
proof (induction fl tr outs arbitrary: bs e rule: copy_out.induct)
  case (2 fl p re rs outs)
  obtain sent n we outs' where w:
    "(if p = [] then ([], 0, None, outs) else conn_Write fl p outs) = (sent, n, we, outs')"
    by (cases rule: prod_cases4)
  have pre: "sent = take (length sent) p" and full: "n = length p \<Longrightarrow> sent = p"
    using w by (cases outs; auto simp: conn_Write_def min_def split: if_splits prod.splits)+
  obtain rest f where m: "copy_out fl rs outs' = (rest, f)" by fastforce
  have ih: "rest = take (length rest) (trace_bytes rs)" if "we = None" "n = length p" "re = None"
    using 2(1) [OF w [symmetric] refl refl refl that(1) _ that(3) m] that by simp
  have len: "length sent \<le> length p" using arg_cong [OF pre, of length] by simp
  have "bs = sent \<or> (we = None \<and> n = length p \<and> re = None \<and> bs = sent @ rest)"
    using 2(2) w m by (auto split: option.splits if_splits)
  then show ?case
  proof
    assume "bs = sent"
    then show ?thesis using pre len by simp
  next
    assume a: "we = None \<and> n = length p \<and> re = None \<and> bs = sent @ rest"
    then have "sent = p" "rest = take (length rest) (trace_bytes rs)" using full ih by blast+
    then show ?thesis using a by simp
  qed
qed simp

lemma read_body_bytes:
  "read_body resp g b = (d, e) \<Longrightarrow> d = take (length d) (trace_bytes g)"
proof (induction resp g b arbitrary: d e rule: read_body.induct)
  case (2 resp g rs b)
  obtain b' p x where r: "body_Read resp g b = (b', p, x)" by (cases rule: prod_cases3)
  have p: "p = fst g" using r by (auto simp: body_Read_def Let_def split: prod.splits option.splits if_splits)
  show ?case
  proof (cases x)
    case None
    obtain q f where q: "read_body resp rs b' = (q, f)" by fastforce
    have "q = take (length q) (trace_bytes rs)" using 2(1) [OF r [symmetric] refl None q] .
    then show ?thesis using 2(2) r None q p by auto
  next
    case (Some y)
    then show ?thesis using 2(2) r p by simp
  qed
qed simp

text \<open>A clean end is a confirmed one: the transport's end was clean and the completion signal there.\<close>

lemma read_body_eof:
  "read_body resp g b = (d, Some (Leaf IoEOF)) \<Longrightarrow>
     ends_clean g d \<and> complete resp \<lparr>b_name = b_name b, b_count = b_count b + word_of_nat (length d)\<rparr>"
proof (induction resp g b arbitrary: d rule: read_body.induct)
  case (2 resp g rs b)
  obtain p e where g: "g = (p, e)" by fastforce
  have t: "torn b' z \<noteq> Leaf IoEOF" for b' z by (simp add: torn_def split: option.split)
  let ?b = "b\<lparr>b_count := b_count b + word_of_nat (length p)\<rparr>"
  show ?case
  proof (cases e)
    case None
    then have r: "body_Read resp g b = (?b, p, None)" by (simp add: body_Read_def g Let_def)
    obtain q f where q: "read_body resp rs ?b = (q, f)" by fastforce
    have f: "f = Some (Leaf IoEOF)" "d = p @ q" using 2(2) r q by auto
    have "ends_clean rs q \<and> complete resp \<lparr>b_name = b_name ?b, b_count = b_count ?b + word_of_nat (length q)\<rparr>"
      using 2(1) [OF r [symmetric] refl refl] q f(1) by simp
    then show ?thesis using None f(2) unfolding g by (auto simp: ends_clean_Cons add.assoc)
  next
    case (Some x)
    have n: "b\<lparr>b_count := z\<rparr> = \<lparr>b_name = b_name b, b_count = z\<rparr>" for z by simp
    show ?thesis using 2(2) Some t
      by (auto simp: body_Read_def g Let_def ends_clean_Cons complete_def split: if_splits)
  qed
qed simp

lemma read_body_errors:
  "read_body resp g b = (d, Some e) \<Longrightarrow> e = Leaf IoEOF \<or> is_err e ErrAborted"
proof (induction resp g b arbitrary: d rule: read_body.induct)
  case (2 resp g rs b)
  obtain b' p x where r: "body_Read resp g b = (b', p, x)" by (cases rule: prod_cases3)
  show ?case
  proof (cases x)
    case None
    obtain q f where "read_body resp rs b' = (q, f)" by fastforce
    then show ?thesis using 2(1) [OF r [symmetric] refl None] 2(2) r None by auto
  next
    case (Some y)
    then show ?thesis using 2(2) r
      by (auto simp: body_Read_def Let_def torn_def split: prod.splits option.splits if_splits)
  qed
qed simp

subsection \<open>End to end\<close>

text \<open>
  What \<open>net/http\<close> documents about carrying a response: the client reads a prefix of the body the
  handler wrote; the declared length is the handler's \<open>Content-Length\<close>, or unknown; and a trailer the
  handler announced arrives only behind the terminating chunk, that is after the handler returned,
  with the body read whole.  How reads are cut, where a connection breaks and with which errors is
  left open.
\<close>

definition declared_length :: "response \<Rightarrow> int" where
  "declared_length r = (let v = hget (w_header r) ''Content-Length'' in if v = '''' then -1 else fst (ParseInt v))"

definition http_carries :: "response \<Rightarrow> http_response \<Rightarrow> (byte list \<times> err option) list \<Rightarrow> bool" where
  "http_carries r resp g \<longleftrightarrow>
     trace_bytes g = take (length (trace_bytes g)) (w_body r)
     \<and> ContentLength resp = declared_length r
     \<and> (hget (Trailer resp) HeaderStatus = ''''
        \<or> w_end r = Finished \<and> hget (Trailer resp) HeaderStatus = hget (w_trailer r) HeaderStatus
          \<and> (\<forall>d. ends_clean g d \<longrightarrow> d = w_body r))"

text \<open>A response headed by a clip's description, with nothing sent yet.\<close>

definition clip_response :: "Clip \<Rightarrow> response" where
  "clip_response c = no_response\<lparr>w_header := writeHeaders [] c\<rparr>"

lemma writeHeaders_length: "hget (writeHeaders [] c) ''Content-Length'' = ''''"
  by (simp add: writeHeaders_def setClipMeta_def header_get Let_def)

lemma ends_clean_bytes: "ends_clean g d \<Longrightarrow> d = take (length d) (trace_bytes g)"
  by (auto simp: ends_clean_def trace_bytes_def)

lemma stream_out_cases:
  assumes "r = stream_out c tr outs hello (clip_response c)"
  shows "w_body r = take (length (w_body r)) (trace_bytes tr)"
    and "w_end r = Finished \<Longrightarrow> ends_clean tr (w_body r)"
    and "declared_length r = (if Finalized c then sint (Size c) else -1)"
    and "\<not> Finalized c \<Longrightarrow> hget (w_trailer r) HeaderStatus = (if w_end r = Finished then StatusComplete else '''')"
proof -
  obtain bs e where o: "copy_out (\<not> Finalized c) tr outs = (bs, e)" by fastforce
  note d = stream_out_def clip_response_def no_response_def declared_length_def
  show "w_body r = take (length (w_body r)) (trace_bytes tr)"
    using copy_out_prefix [OF o] unfolding assms by (cases e) (simp_all add: d o Let_def)
  show "w_end r = Finished \<Longrightarrow> ends_clean tr (w_body r)"
    using copy_out_copied [of "\<not> Finalized c" tr outs bs] o unfolding assms
    by (cases e) (auto simp: d Let_def split: if_splits)
  have h: "w_header r = (if Finalized c then hset ''Content-Length'' (itoa (Size c)) (writeHeaders [] c)
      else hset ''Trailer'' HeaderStatus (writeHeaders [] c))"
    unfolding assms by (auto simp: d Let_def split: prod.split copy_end.split)
  have "itoa n \<noteq> ''''" for n by (simp add: itoa_def FormatInt_def)
  then show "declared_length r = (if Finalized c then sint (Size c) else -1)"
    unfolding declared_length_def h by (simp add: header_get writeHeaders_length)
  show "\<not> Finalized c \<Longrightarrow> hget (w_trailer r) HeaderStatus = (if w_end r = Finished then StatusComplete else '''')"
    unfolding assms by (auto simp: d header_get Let_def split: prod.split copy_end.split)
qed

lemma StatusComplete_ne [simp]: "StatusComplete \<noteq> ''''"
  by (simp add: StatusComplete_def)

lemma clean_end_common:
  assumes "http_carries r resp g" and "read_body resp g (newBody name) = (d, Some (Leaf IoEOF))"
  shows "ends_clean g d" and "complete resp \<lparr>b_name = name, b_count = word_of_nat (length d)\<rparr>"
    and "d = take (length d) (w_body r)" and "ContentLength resp = declared_length r"
proof -
  show e: "ends_clean g d" and "complete resp \<lparr>b_name = name, b_count = word_of_nat (length d)\<rparr>"
    using read_body_eof [OF assms(2)] by (simp_all add: newBody_def)
  have "\<exists>k. d = take k (trace_bytes g)" using ends_clean_bytes [OF e] by blast
  moreover have "\<exists>k. trace_bytes g = take k (w_body r)" using assms(1) unfolding http_carries_def by blast
  ultimately have "\<exists>k. d = take k (w_body r)" by (metis take_take)
  then show "d = take (length d) (w_body r)" by (metis take_length_self)
  show "ContentLength resp = declared_length r" using assms(1) by (simp add: http_carries_def)
qed

lemma clean_end_finalized:
  assumes "r = stream_out c tr outs hello (clip_response c)" and "http_carries r resp g"
    and "read_body resp g (newBody name) = (d, Some (Leaf IoEOF))" and "Finalized c"
    and "sint (Size c) = int (length data)" and "\<exists>k. trace_bytes tr = take k data"
  shows "d = data"
proof -
  note s = stream_out_cases [OF assms(1)]
  note e = clean_end_common [OF assms(2,3)]
  have "\<exists>j. d = take j data" using e(3) s(1) assms(6) by (metis take_take)
  then have dd: "d = take (length d) data" by (metis take_length_self)
  then have len: "length d \<le> length data" by (metis length_take min.cobounded1)
  have "ContentLength resp = int (length data)" using e(4) s(3) assms(4,5) by simp
  moreover have "int (length data) < 2 ^ 63" using assms(5) sint64_bounds(2) [of "Size c"] by simp
  then have "sint (word_of_nat (length d) :: int64) = int (length d)"
    using len by (intro sint64_of_nat nat_lt_63) simp
  ultimately have "length d = length data" using e(2) by (simp add: complete_def)
  then show ?thesis using dd by simp
qed

lemma clean_end_live:
  assumes "r = stream_out c tr outs hello (clip_response c)" and "http_carries r resp g"
    and "read_body resp g (newBody name) = (d, Some (Leaf IoEOF))" and "\<not> Finalized c"
  shows "d = w_body r \<and> ends_clean tr (w_body r)"
proof -
  note s = stream_out_cases [OF assms(1)]
  note e = clean_end_common [OF assms(2,3)]
  have "hget (Trailer resp) HeaderStatus = StatusComplete"
    using e(2,4) s(3) assms(4) by (simp add: complete_def)
  then have "w_end r = Finished" "d = w_body r" using assms(2) e(1) unfolding http_carries_def by auto
  then show ?thesis using s(2) by simp
qed

text \<open>The trace a copy loop draws from a reader: one entry per \<open>Read\<close>, up to its first error.\<close>

fun read_trace ::
  "nat \<Rightarrow> ('s \<Rightarrow> 'w \<Rightarrow> 's \<times> 'w \<times> byte list \<times> err option) \<Rightarrow> 's \<Rightarrow> 'w \<Rightarrow> (byte list \<times> err option) list" where
  "read_trace 0 rd s w = []"
| "read_trace (Suc n) rd s w =
     (case rd s w of (s', w', bs, e) \<Rightarrow>
        (bs, e) # (if e = None then read_trace n rd s' w' else []))"

context readable_log
begin

lemma section_trace_prefix:
  assumes "wf (bback b) w" and "readable (sr_h s) (bback b) w" and "0 \<le> sint (sr_off s)"
    and "sint (sr_off s) \<le> sint (sr_size s)"
  shows "\<exists>k. trace_bytes (read_trace n (section_Read B b len) s w)
             = take k (drop (nat (sint (sr_off s))) (contents (bback b) w))"
  using assms
proof (induction n arbitrary: s w)
  case 0
  have "trace_bytes (read_trace 0 (section_Read B b len) s w)
      = take 0 (drop (nat (sint (sr_off s))) (contents (bback b) w))" by simp
  then show ?case by blast
next
  case (Suc n)
  show ?case
  proof (cases "sint (sr_off s) \<ge> sint (sr_size s)")
    case True
    then have "trace_bytes (read_trace (Suc n) (section_Read B b len) s w)
      = take 0 (drop (nat (sint (sr_off s))) (contents (bback b) w))" by (simp add: section_Read_def)
    then show ?thesis by blast
  next
    case False
    obtain w' bs e where r: "readRegion B (sr_h s) (bback b) len (sr_off s) (sr_size s) w = (w', bs, e)"
      by (cases "readRegion B (sr_h s) (bback b) len (sr_off s) (sr_size s) w") auto
    have lt: "sint (sr_off s) < sint (sr_size s)" using False by simp
    note rr = readRegion_slice [OF Suc.prems(1-3) lt r]
    define s' where "s' = s\<lparr>sr_off := sr_off s + word_of_nat (length bs)\<rparr>"
    have rd: "section_Read B b len s w = (s', w', bs, e)"
      using False r by (simp add: section_Read_def s'_def)
    let ?o = "nat (sint (sr_off s))" and ?c = "contents (bback b) w"
    have bs: "bs = take (length bs) (drop ?o ?c)" using rr(4) by simp
    show ?thesis
    proof (cases e)
      case (Some x)
      then have "trace_bytes (read_trace (Suc n) (section_Read B b len) s w) = bs" using rd by simp
      then show ?thesis using bs by metis
    next
      case None
      have small: "int (length bs) < 2 ^ 63"
        using rr(5) Suc.prems(3) sint64_bounds [of "sr_size s"] by linarith
      have off: "sint (sr_off s') = sint (sr_off s) + int (length bs)"
      proof -
        have "sint (word_of_nat (length bs) :: int64) = int (length bs)"
          using small by (intro sint64_of_nat nat_lt_63)
        moreover have "sint (sr_off s) + int (length bs) < 2 ^ 63"
          using rr(5) sint64_bounds [of "sr_size s"] by linarith
        ultimately show ?thesis using Suc.prems(3) by (simp add: s'_def sint64_add)
      qed
      have o': "nat (sint (sr_off s')) = ?o + length bs" using off Suc.prems(3) by (simp add: nat_add_distrib)
      have "\<exists>k. trace_bytes (read_trace n (section_Read B b len) s' w')
          = take k (drop (nat (sint (sr_off s'))) (contents (bback b) w'))"
      proof (rule Suc.IH)
        show "wf (bback b) w'" by (rule rr(1))
        show "readable (sr_h s') (bback b) w'" using rr(3) Suc.prems(2) by (simp add: s'_def)
        show "0 \<le> sint (sr_off s')" using off Suc.prems(3) by simp
        show "sint (sr_off s') \<le> sint (sr_size s')" using off rr(5) by (simp add: s'_def)
      qed
      then obtain k where k: "trace_bytes (read_trace n (section_Read B b len) s' w')
          = take k (drop (length bs) (drop ?o ?c))"
        unfolding o' rr(2) by (metis add.commute drop_drop)
      have "trace_bytes (read_trace (Suc n) (section_Read B b len) s w)
          = take (length bs) (drop ?o ?c) @ take k (drop (length bs) (drop ?o ?c))"
        using rd None k bs by simp
      also have "\<dots> = take (length bs + k) (drop ?o ?c)" by (simp only: take_add)
      finally show ?thesis by blast
    qed
  qed
qed

end

text \<open>
  C24. A download of a finalized clip that looks complete is complete.  The handler streams a section
  of the clip's log under an exact \<open>Content-Length\<close>; whatever reads of the backing fail, however the
  connection's writes fail or are cut short, and however the transport slices or loses the tail, a
  client that copies the body to a clean end of stream holds exactly the clip's bytes, and every
  other end is an error with the identity \<open>ErrAborted\<close>.
\<close>

theorem finalized_download_whole:
  assumes "readable_log B contents readable valid" and "valid (bback b) w"
    and "readable (sr_h s) (bback b) w" and "sr_off s = 0"
    and "sint (sr_size s) = int (length (contents (bback b) w))"
    and "Finalized c" and "Size c = sr_size s"
    and "r = stream_out c (read_trace n (section_Read B b len) s w) outs hello (clip_response c)"
    and "http_carries r resp g" and "read_body resp g (newBody name) = (d, Some e)"
  shows "(e = Leaf IoEOF \<longrightarrow> d = contents (bback b) w) \<and> (e \<noteq> Leaf IoEOF \<longrightarrow> is_err e ErrAborted)"
proof (intro conjI impI)
  have "\<exists>k. trace_bytes (read_trace n (section_Read B b len) s w) = take k (contents (bback b) w)"
    using readable_log.section_trace_prefix [OF assms(1-3), of n len] assms(4,5) by simp
  then show "d = contents (bback b) w" if "e = Leaf IoEOF"
    using clean_end_finalized [OF assms(8,9) _ assms(6)] assms(5,7,10) that by simp
  show "is_err e ErrAborted" if "e \<noteq> Leaf IoEOF"
    using read_body_errors [OF assms(10)] that by blast
qed

text \<open>The trace a \<open>GET\<close> of a live clip draws from its follower.\<close>

definition follower_trace :: "('b, 'h, 'w) stream \<Rightarrow> (byte list \<times> err option) list \<Rightarrow> bool" where
  "follower_trace s tr \<longleftrightarrow> trace_bytes tr = st_got s
     \<and> (\<forall>d. ends_clean tr d \<longrightarrow> d = st_got s \<and> st_end s = Some (Leaf IoEOF))"

text \<open>
  C23. A truncated upload never reaches a follower looking complete.  Take any interleaving of the
  writer with a reader that follows it, over any backing that keeps its contract, and any faults of the
  connection: a client that reads the streamed response to a clean end holds exactly the bytes of a
  log that was finished cleanly; once the upload is aborted no client sees a clean end; and whatever
  it did see is a prefix of the log, with every other end the identity \<open>ErrAborted\<close>.
\<close>

theorem live_download_whole:
  assumes "byte_log B contents readable valid" and "healthy_log contents valid b w"
    and "attach B b w = Some s0" and "stream_reach B s0 s" and "follower_trace s tr"
    and "\<not> Finalized c" and "r = stream_out c tr outs hello (clip_response c)"
    and "http_carries r resp g" and "read_body resp g (newBody name) = (d, e)"
  shows "d = take (length d) (contents (bback (st_b s)) (st_w s))
    \<and> (e = Some (Leaf IoEOF) \<longrightarrow> bclosed (st_b s) \<and> \<not> baborted (st_b s)
         \<and> d = contents (bback (st_b s)) (st_w s))
    \<and> (baborted (st_b s) \<longrightarrow> e \<noteq> Some (Leaf IoEOF))
    \<and> (\<forall>x. e = Some x \<longrightarrow> x = Leaf IoEOF \<or> is_err x ErrAborted)"
proof -
  let ?c = "contents (bback (st_b s)) (st_w s)"
  note fi = byte_log.reach_integrity [OF assms(1-4)]
  note so = stream_out_cases [OF assms(7)]
  have got: "trace_bytes tr = st_got s" and fin: "ends_clean tr x \<Longrightarrow> x = st_got s \<and> st_end s = Some (Leaf IoEOF)" for x
    using assms(5) by (auto simp: follower_trace_def)
  have pre: "st_got s = take (length (st_got s)) ?c" using fi by blast
  have "\<exists>k. d = take k (trace_bytes g)" using read_body_bytes [OF assms(9)] by blast
  moreover have "\<exists>k. trace_bytes g = take k (w_body r)" using assms(8) unfolding http_carries_def by blast
  moreover have "\<exists>k. w_body r = take k (st_got s)" using so(1) got by metis
  ultimately have "\<exists>k. d = take k ?c" using pre by (metis take_take)
  then have dp: "d = take (length d) ?c" by (metis take_length_self)
  have clean: "bclosed (st_b s) \<and> \<not> baborted (st_b s) \<and> d = ?c" if e: "e = Some (Leaf IoEOF)"
  proof -
    have rb: "read_body resp g (newBody name) = (d, Some (Leaf IoEOF))" using assms(9) e by simp
    have "d = w_body r" "ends_clean tr (w_body r)"
      using clean_end_live [OF assms(7,8) rb assms(6)] by simp_all
    then have "d = st_got s" "st_end s = Some (Leaf IoEOF)" using fin by simp_all
    then show ?thesis using fi by simp
  qed
  show ?thesis using dp clean read_body_errors assms(9) fi by blast
qed

subsection \<open>The properties on concrete transfers\<close>

definition tiny_clip :: "bool \<Rightarrow> Clip" where
  "tiny_clip fin = zero_clip\<lparr>Name := ''n'', Size := 3, Finalized := fin\<rparr>"

definition tiny_trace :: "(byte list \<times> err option) list" where
  "tiny_trace = read_trace 3 (section_Read memB (newSealedBuffer [5, 6, 7] 3) 2) demo_section ()"

definition tiny_reply :: response where
  "tiny_reply = stream_out (tiny_clip True) tiny_trace [] None (clip_response (tiny_clip True))"

definition tiny_reads :: "(byte list \<times> err option) list" where
  "tiny_reads = [([5], None), ([6, 7], Some (Leaf IoEOF))]"

definition tiny_http :: http_response where
  "tiny_http = \<lparr>ContentLength = 3, Trailer = []\<rparr>"

lemma tiny_evals:
  "tiny_trace = [([5, 6], None), ([7], None), ([], Some (Leaf IoEOF))]"
  "w_body tiny_reply = [5, 6, 7] \<and> declared_length tiny_reply = 3"
  "read_body tiny_http tiny_reads (newBody ''n'') = ([5, 6, 7], Some (Leaf IoEOF))"
  by code_simp+

lemma tiny_carries: "http_carries tiny_reply tiny_http tiny_reads"
  using tiny_evals(2) by (simp add: http_carries_def tiny_http_def tiny_reads_def)

theorem finalized_download_whole_witness:
  "fst (read_body tiny_http tiny_reads (newBody ''n'')) = [5, 6, 7] \<and> [5, 6, 7 :: byte] = bback (newSealedBuffer [5, 6, 7] 3)"
  using finalized_download_whole [OF memlog.readable_log_axioms, where b = "newSealedBuffer [5, 6, 7] 3"
      and w = "()" and s = demo_section and c = "tiny_clip True" and r = tiny_reply and n = 3 and len = 2
      and outs = "[]" and hello = None and resp = tiny_http and g = tiny_reads and name = "''n''"
      and d = "[5, 6, 7]" and e = "Leaf IoEOF"]
    tiny_carries tiny_evals(3)
  by (simp add: newSealedBuffer_def demo_section_def tiny_clip_def tiny_reply_def tiny_trace_def)

definition live_trace :: "(byte list \<times> err option) list" where
  "live_trace = [([7, 9], None), ([], Some (Leaf IoEOF))]"

definition live_reply :: response where
  "live_reply = stream_out (tiny_clip False) live_trace [] None (clip_response (tiny_clip False))"

definition live_http :: http_response where
  "live_http = \<lparr>ContentLength = -1, Trailer = hset HeaderStatus StatusComplete []\<rparr>"

lemma live_evals:
  "w_body live_reply = [7, 9] \<and> w_end live_reply = Finished \<and> declared_length live_reply = -1
     \<and> hget (w_trailer live_reply) HeaderStatus = StatusComplete"
  "read_body live_http live_trace (newBody ''n'') = ([7, 9], Some (Leaf IoEOF))"
  "hget (Trailer live_http) HeaderStatus = StatusComplete"
  by code_simp+

lemma live_ends: "ends_clean live_trace d \<longleftrightarrow> d = [7, 9]"
  by (auto simp: live_trace_def ends_clean_Cons)

lemma live_carries: "http_carries live_reply live_http live_trace"
  using live_evals live_ends by (simp add: http_carries_def live_http_def) (simp add: live_trace_def)

theorem live_download_whole_witness:
  "fst (read_body live_http live_trace (newBody ''n'')) = bback (st_b demo_end)
   \<and> bclosed (st_b demo_end) \<and> \<not> baborted (st_b demo_end)"
proof -
  have t: "follower_trace demo_end live_trace"
    using live_ends by (simp add: follower_trace_def demo_end_def) (simp add: live_trace_def)
  have "\<not> Finalized (tiny_clip False)" by (simp add: tiny_clip_def)
  from live_download_whole [OF memlog.byte_log_axioms demo_healthy demo_attach demo_reach_end t this
      live_reply_def live_carries live_evals(2)] show ?thesis
    unfolding live_evals(2) by (simp only: fst_conv) blast
qed

end
