(* ===== verification/Deadline.thy ===== *)
theory Deadline imports Framing begin

text \<open>
  The stall bounds of a transfer (\<open>api/deadline.go\<close>), the recorder and backstop around every handler
  (\<open>api/recover.go\<close>), and the server's options (\<open>api/api.go\<close>).
\<close>

subsection \<open>Idle deadlines\<close>

definition aLongTimeAgo :: time where "aLongTimeAgo = second"

definition shouldReset :: "time \<Rightarrow> time \<Rightarrow> duration \<Rightarrow> bool" where
  "shouldReset prev now idle \<longleftrightarrow> IsZero prev \<or> now - prev > idle div 2"

definition upload_deadline :: "time \<Rightarrow> duration \<Rightarrow> time" where
  "upload_deadline now mx = (if mx \<le> 0 then zero_time else now + mx)"

text \<open>
  The reader's state, with the read deadline it last set on the connection.  The clock is read once
  to decide and once later, in the maximum-only case, to mark the arming.
\<close>

record idleResetReader =
  rd_idle :: duration
  rd_max :: time
  rd_last :: time
  rd_err :: "err option"
  rd_deadline :: "time option"

definition newReader :: "duration \<Rightarrow> time \<Rightarrow> idleResetReader" where
  "newReader idle mx = \<lparr>rd_idle = idle, rd_max = mx, rd_last = zero_time, rd_err = None, rd_deadline = None\<rparr>"

definition arm :: "time \<Rightarrow> idleResetReader \<Rightarrow> idleResetReader" where
  "arm now d =
     (if rd_idle d > 0 then
        (if \<not> shouldReset (rd_last d) now (rd_idle d) then d
         else let dl = now + rd_idle d;
                  dl = (if \<not> IsZero (rd_max d) \<and> After dl (rd_max d) then rd_max d else dl)
           in d\<lparr>rd_deadline := Some dl, rd_last := now\<rparr>)
      else if \<not> IsZero (rd_max d) \<and> IsZero (rd_last d)
      then d\<lparr>rd_deadline := Some (rd_max d), rd_last := now\<rparr>
      else d)"

text \<open>One \<open>Read\<close>, given what the connection returned.\<close>

definition idle_Read ::
  "time \<Rightarrow> byte list \<times> err option \<Rightarrow> idleResetReader \<Rightarrow> idleResetReader \<times> byte list \<times> err option" where
  "idle_Read now got d =
     (let d = arm now d
      in case got of (p, e) \<Rightarrow>
           ((if e \<noteq> None \<and> e \<noteq> Some (Leaf IoEOF) then d\<lparr>rd_err := e\<rparr> else d), p, e))"

record idleResetWriter =
  wt_idle :: duration
  wt_flush :: bool
  wt_last :: time
  wt_deadline :: "time option"

definition idle_Write ::
  "time \<Rightarrow> byte list \<Rightarrow> conn_write list \<Rightarrow> idleResetWriter
   \<Rightarrow> idleResetWriter \<times> byte list \<times> nat \<times> err option \<times> conn_write list" where
  "idle_Write now p outs d =
     (let d = (if wt_idle d > 0 \<and> shouldReset (wt_last d) now (wt_idle d)
               then d\<lparr>wt_deadline := Some (now + wt_idle d), wt_last := now\<rparr> else d)
      in (d, conn_Write (wt_flush d) p outs))"

text \<open>\<open>cancelGuard\<close>: the lock makes each method one step.\<close>

record cancelGuard =
  disarmed :: bool

definition fire :: "cancelGuard \<Rightarrow> time option \<Rightarrow> time option" where
  "fire g dl = (if \<not> disarmed g then Some aLongTimeAgo else dl)"

definition disarm :: "cancelGuard \<Rightarrow> cancelGuard" where
  "disarm g = g\<lparr>disarmed := True\<rparr>"

text \<open>
  \<open>abortOnCancel\<close>: the watcher waits for the cancellation or the stop, whichever its select takes;
  the handler's deferred stop disarms.  A run of the two is a list of these events.
\<close>

datatype watch_event = Ctx_done | Stop

definition watch :: "watch_event \<Rightarrow> cancelGuard \<times> time option \<Rightarrow> cancelGuard \<times> time option" where
  "watch ev st = (case ev of Ctx_done \<Rightarrow> (fst st, fire (fst st) (snd st)) | Stop \<Rightarrow> (disarm (fst st), snd st))"

definition abortOnCancel :: "watch_event list \<Rightarrow> time option \<Rightarrow> cancelGuard \<times> time option" where
  "abortOnCancel evs dl = fold watch evs (\<lparr>disarmed = False\<rparr>, dl)"

subsection \<open>The recorder and the backstop\<close>

record statusRecorder =
  sr_status :: int
  sr_n :: int64
  sr_wrote :: bool
  sr_aborted :: bool
  sr_header :: header

definition newRecorder :: statusRecorder where
  "newRecorder = \<lparr>sr_status = 200, sr_n = 0, sr_wrote = False, sr_aborted = False, sr_header = []\<rparr>"

definition statusClientClosed :: int where "statusClientClosed = 499"

definition rec_WriteHeader :: "int \<Rightarrow> statusRecorder \<Rightarrow> statusRecorder" where
  "rec_WriteHeader code s = s\<lparr>sr_status := code, sr_wrote := True\<rparr>"

definition rec_Write :: "nat \<Rightarrow> statusRecorder \<Rightarrow> statusRecorder" where
  "rec_Write n s = s\<lparr>sr_wrote := True, sr_n := sr_n s + word_of_nat n\<rparr>"

definition rec_size :: "statusRecorder \<Rightarrow> int64" where
  "rec_size s =
     (if \<not> sr_aborted s \<and> hget (sr_header s) HeaderSize \<noteq> '''' \<and> snd (ParseInt (hget (sr_header s) HeaderSize)) = None
      then word_of_int (fst (ParseInt (hget (sr_header s) HeaderSize))) else sr_n s)"

text \<open>How a handler left: it returned, it raised \<open>http.ErrAbortHandler\<close>, or it panicked otherwise.\<close>

datatype handler_exit = Returned_ok | Abort_panic | Other_panic

text \<open>
  What the connection sees of the backstop: a normal end, a reset, or the 500 it writes itself; the
  recorder as the access log reads it; and whether the cause was logged.
\<close>

datatype conn_fate = Ended | Reset

definition recoverer :: "handler_exit \<Rightarrow> statusRecorder \<Rightarrow> statusRecorder \<times> conn_fate \<times> bool" where
  "recoverer ex s =
     (case ex of
        Returned_ok \<Rightarrow> (s, Ended, False)
      | Abort_panic \<Rightarrow>
          (let s = s\<lparr>sr_aborted := True\<rparr>
           in (if \<not> sr_wrote s then s\<lparr>sr_status := statusClientClosed\<rparr> else s, Reset, False))
      | Other_panic \<Rightarrow>
          (if sr_wrote s then (s\<lparr>sr_aborted := True\<rparr>, Reset, True)
           else (rec_WriteHeader (Status row_Internal)
                   (s\<lparr>sr_header := hset ''Content-Type'' ''text/plain; charset=utf-8''
                       (hset HeaderError (Sentinel row_Internal) (sr_header s))\<rparr>), Ended, True)))"

definition firstNonEmpty :: "string \<Rightarrow> string \<Rightarrow> string" where
  "firstNonEmpty a b = (if a \<noteq> '''' then a else b)"

text \<open>The access line: method, name, status, size, kind and whether the stream was torn.\<close>

record access_line =
  al_method :: string
  al_name :: string
  al_status :: int
  al_size :: int64
  al_kind :: string
  al_aborted :: bool
  al_dur :: duration

definition logAccess :: "string \<Rightarrow> string \<Rightarrow> header \<Rightarrow> statusRecorder \<Rightarrow> duration \<Rightarrow> access_line" where
  "logAccess meth name req s d =
     \<lparr>al_method = meth, al_name = name, al_status = sr_status s, al_size = rec_size s,
      al_kind = firstNonEmpty (hget (sr_header s) HeaderKind) (hget req HeaderKind),
      al_aborted = sr_aborted s, al_dur = d\<rparr>"

subsection \<open>Options\<close>

definition copyBufSize :: nat where "copyBufSize = 65536"
definition defaultVersion :: string where "defaultVersion = ''buff/dev''"
definition defaultReadHeaderTimeout :: duration where "defaultReadHeaderTimeout = 10 * second"
definition defaultIdleTimeout :: duration where "defaultIdleTimeout = 120 * second"
definition defaultMaxHeaderBytes :: int where "defaultMaxHeaderBytes = 1048576"
definition defaultUploadIdle :: duration where "defaultUploadIdle = 30 * second"

text \<open>The logger is a sink outside the model; whether one was given is all that the default reads.\<close>

record Options =
  UploadIdle :: duration
  UploadMax :: duration
  WaitMax :: duration
  Logger_set :: bool
  Version :: string
  AccessLog :: bool
  ReadHeaderTimeout :: duration
  IdleTimeout :: duration
  MaxHeaderBytes :: int

definition withDefaults :: "Options \<Rightarrow> Options" where
  "withDefaults opt =
     (let opt = opt\<lparr>Logger_set := True\<rparr>;
          opt = (if Version opt = '''' then opt\<lparr>Version := defaultVersion\<rparr> else opt);
          opt = (if ReadHeaderTimeout opt = 0 then opt\<lparr>ReadHeaderTimeout := defaultReadHeaderTimeout\<rparr> else opt);
          opt = (if IdleTimeout opt = 0 then opt\<lparr>IdleTimeout := defaultIdleTimeout\<rparr> else opt);
          opt = (if MaxHeaderBytes opt = 0 then opt\<lparr>MaxHeaderBytes := defaultMaxHeaderBytes\<rparr> else opt)
      in if UploadIdle opt \<le> 0 then opt\<lparr>UploadIdle := defaultUploadIdle\<rparr> else opt)"

text \<open>Field by field: a zero safety bound is replaced, a policy knob is kept.\<close>

lemma withDefaults_fields:
  "UploadIdle (withDefaults opt) = (if UploadIdle opt \<le> 0 then defaultUploadIdle else UploadIdle opt)
   \<and> UploadMax (withDefaults opt) = UploadMax opt \<and> WaitMax (withDefaults opt) = WaitMax opt
   \<and> AccessLog (withDefaults opt) = AccessLog opt"
  by (simp add: withDefaults_def Let_def)

lemma withDefaults_UploadIdle: "0 < UploadIdle (withDefaults opt)"
  by (simp add: withDefaults_fields defaultUploadIdle_def second_def)

subsection \<open>Facts\<close>

text \<open>
  What the reader's deadline is after a \<open>Read\<close> at \<open>now\<close>, once the clock has moved past the zero instant
  and only forward.
\<close>

definition armed :: "time \<Rightarrow> idleResetReader \<Rightarrow> bool" where
  "armed now d \<longleftrightarrow> rd_last d \<noteq> zero_time \<and> rd_last d \<le> now \<and> now - rd_last d \<le> rd_idle d div 2
     \<and> rd_deadline d = Some (if rd_max d = zero_time then rd_last d + rd_idle d
                             else min (rd_max d) (rd_last d + rd_idle d))"

lemma arm_keeps: "rd_idle (arm now d) = rd_idle d \<and> rd_max (arm now d) = rd_max d"
  by (simp add: arm_def Let_def)

lemma arm_armed:
  assumes "0 < rd_idle d" and "zero_time < now" and "rd_last d = zero_time \<or> armed before d"
    and "before \<le> now"
  shows "armed now (arm now d)"
  using assms by (auto simp: arm_def armed_def shouldReset_def IsZero_def After_def Let_def min_def)

text \<open>A run of reads at the given instants.\<close>

definition reads :: "time list \<Rightarrow> idleResetReader \<Rightarrow> idleResetReader" where
  "reads ts d = fold arm ts d"

lemma reads_armed:
  assumes "ts \<noteq> []" and "sorted ts" and "zero_time < hd ts" and "0 < idle"
  shows "armed (last ts) (reads ts (newReader idle mx)) \<and> rd_idle (reads ts (newReader idle mx)) = idle
    \<and> rd_max (reads ts (newReader idle mx)) = mx"
  using assms
proof (induction ts rule: rev_induct)
  case (snoc t ts)
  let ?d = "reads ts (newReader idle mx)"
  have r: "reads (ts @ [t]) (newReader idle mx) = arm t ?d" by (simp add: reads_def)
  show ?case
  proof (cases "ts = []")
    case True
    then have d: "?d = newReader idle mx" by (simp add: reads_def)
    have "armed t (arm t (newReader idle mx))"
      by (rule arm_armed [where before = t]) (use snoc.prems True in \<open>simp_all add: newReader_def\<close>)
    then show ?thesis unfolding r d using arm_keeps [of t "newReader idle mx"] by (simp add: newReader_def)
  next
    case False
    have ih: "armed (last ts) ?d \<and> rd_idle ?d = idle \<and> rd_max ?d = mx"
      using snoc False by (simp add: sorted_append)
    have le: "last ts \<le> t" using snoc.prems(2) False by (simp add: sorted_append)
    have "zero_time < t"
    proof -
      have "hd ts \<le> t" using snoc.prems(2) False by (simp add: sorted_append)
      then show ?thesis using snoc.prems(3) False by simp
    qed
    then have "armed t (arm t ?d)" using arm_armed [of ?d t "last ts"] ih le assms(4) by simp
    then show ?thesis unfolding r using arm_keeps [of t ?d] ih by simp
  qed
qed simp

text \<open>
  C29. A stalled upload is cut and an active one never is.  At every read, whatever the earlier reads
  and however far apart they came, the connection's read deadline is set; without an absolute maximum
  it lies at least half the idle bound ahead, so a reader that keeps moving never trips it, and at
  most the idle bound ahead, so a stall from now on is cut within that bound; an absolute maximum,
  when there is one, is never passed.
\<close>

theorem idle_deadline_bounds:
  assumes "ts \<noteq> []" and "sorted ts" and "zero_time < hd ts" and "0 < idle"
  shows "\<exists>dl. rd_deadline (reads ts (newReader idle mx)) = Some dl
    \<and> dl \<le> last ts + idle \<and> (mx = zero_time \<longrightarrow> last ts + idle - idle div 2 \<le> dl)
    \<and> (mx \<noteq> zero_time \<longrightarrow> dl = mx \<or> dl \<le> mx \<and> last ts + idle - idle div 2 \<le> dl)"
  using reads_armed [OF assms, of mx] by (auto simp: armed_def min_def)

theorem idle_deadline_bounds_witness:
  "\<exists>dl. rd_deadline (reads [10, 13, 30] (newReader 20 zero_time)) = Some dl \<and> dl \<le> 50 \<and> 40 \<le> dl"
  using idle_deadline_bounds [of "[10, 13, 30]" 20 zero_time] by (simp add: zero_time_def)

lemma watch_simps:
  "watch Ctx_done st = (fst st, fire (fst st) (snd st))" "watch Stop st = (disarm (fst st), snd st)"
  by (simp_all add: watch_def)

lemma watch_disarmed: "disarmed g \<Longrightarrow> fold watch evs (g, dl) = (g, dl)"
proof (induction evs arbitrary: g)
  case (Cons e evs)
  then have "disarm g = g" by (simp add: disarm_def)
  then show ?case using Cons by (cases e) (simp_all add: watch_simps fire_def)
qed simp


end
