(* ===== verification/Api.thy ===== *)
theory Api imports Deadline "HOL-Library.List_Lexorder" begin

text \<open>
  The handlers (\<open>api/handlers.go\<close>, \<open>api/errors.go\<close>) over the store, and the routes (\<open>api/api.go\<close>).
  A handler is a function of the request, of what the environment supplies to the store's operations
  (clock readings, random bytes) and of the store; its response is what it left on the connection.
\<close>

definition text_bytes :: "string \<Rightarrow> byte list" where
  "text_bytes s = map (\<lambda>c. word_of_nat (of_char c)) s"

definition newline :: string where "newline = [char_of (10 :: nat)]"

subsection \<open>Replies\<close>

text \<open>\<open>writeErr\<close>, with the cause it logs: only that of an internal failure.\<close>

definition writeErr :: "bool \<Rightarrow> ErrInfo \<Rightarrow> err option \<Rightarrow> response \<Rightarrow> response \<times> err option" where
  "writeErr is_head info cause w =
     (w\<lparr>w_header := hset ''Content-Type'' ''text/plain; charset=utf-8''
          (hset HeaderError (Sentinel info) (w_header w)),
        w_status := Status info,
        w_body := (if is_head then [] else text_bytes (Sentinel info @ newline)), w_end := Finished\<rparr>,
      if info = row_Internal then cause else None)"

definition refuse :: "ErrInfo \<Rightarrow> err option \<Rightarrow> response" where
  "refuse info cause = fst (writeErr False info cause no_response)"

definition reset_response :: response where
  "reset_response = no_response\<lparr>w_end := Aborted\<rparr>"

subsection \<open>Uploads\<close>

text \<open>
  \<open>io.CopyBuffer\<close> into the writer.  An entry is one \<open>Read\<close> of the request body, its bytes, its error
  and the instant the following write reads the clock at; past the list the body is at its end.
  \<open>idleResetReader\<close> remembers the last error that is not the end.
\<close>

type_synonym body_reads = "(byte list \<times> err option \<times> time) list"

definition note_read :: "err option \<Rightarrow> err option \<Rightarrow> err option" where
  "note_read re seen = (if re \<noteq> None \<and> re \<noteq> Some (Leaf IoEOF) then re else seen)"

fun copy_in ::
  "('b, 'h, 'w) medium \<Rightarrow> body_reads \<Rightarrow> err option \<Rightarrow> writer \<Rightarrow> ('b, 'w) store
   \<Rightarrow> ('b, 'w) store \<times> writer \<times> copy_fault option \<times> err option" where
  "copy_in M [] seen wr s = (s, wr, None, seen)"
| "copy_in M ((p, re, now) # rs) seen wr s =
     (let seen = note_read re seen;
          (s, wr, k, we) = (if p = [] then (s, wr, 0, None) else writer_Write M wr p now s)
      in case we of
           Some e \<Rightarrow> (s, wr, Some (FromWrite e), seen)
         | None \<Rightarrow>
             (if k \<noteq> length p then (s, wr, Some (FromWrite short_write), seen)
              else case re of
                Some e \<Rightarrow> (s, wr, if e = Leaf IoEOF then None else Some (FromRead e), seen)
              | None \<Rightarrow> copy_in M rs seen wr s))"

text \<open>What the environment supplies to one PUT.\<close>

record put_env =
  pe_first :: "time \<times> (err + byte list)"
  pe_now :: time
  pe_again :: "time \<times> (err + byte list)"
  pe_reads :: body_reads
  pe_cause :: "err option"
  pe_close :: time

definition put ::
  "('b, 'h, 'w) medium \<Rightarrow> string \<Rightarrow> header \<Rightarrow> put_env \<Rightarrow> ('b, 'w) store \<Rightarrow> ('b, 'w) store \<times> response" where
  "put M name h env s =
     (case parsePut h of
        Inl e \<Rightarrow> (s, refuse (mapErr e) (Some e))
      | Inr (m, po) \<Rightarrow>
          (case Create M name m po (pe_first env) (pe_now env) (pe_again env) s of
             (s, Inl e) \<Rightarrow> (s, refuse (mapErr e) (Some e))
           | (s, Inr wr) \<Rightarrow>
               (case copy_in M (pe_reads env) None wr s of
                  (s, wr, Some f, seen) \<Rightarrow>
                    (case classifyPut (pe_cause env) f seen of
                       (info, cause) \<Rightarrow> (fst (writer_Abort M wr s), refuse info cause))
                | (s, wr, None, seen) \<Rightarrow>
                    (case writer_Close M wr (pe_close env) s of
                       (s, wr, Some e) \<Rightarrow> (fst (writer_Abort M wr s), refuse row_Internal (Some e))
                     | (s, wr, None) \<Rightarrow>
                         (s, no_response\<lparr>w_header := setClipMeta [] (writer_Clip wr s),
                               w_status := 200, w_end := Finished\<rparr>)))))"

subsection \<open>Downloads\<close>

definition get_options :: "duration \<Rightarrow> header \<Rightarrow> err + GetOpts" where
  "get_options wait_max h = map_sum id (\<lambda>opts. opts\<lparr>go_WaitMax := wait_max\<rparr>) (parseGet h)"

definition refuse_get :: "err option \<Rightarrow> err \<Rightarrow> response" where
  "refuse_get cause e =
     (case classifyGet cause e of
        (info, c, reset) \<Rightarrow> if reset then reset_response else refuse info c)"

text \<open>
  The \<open>Open\<close> of a GET: its outcome, or the park it is in.  \<open>answer_open\<close> is the rest of the handler: a
  refused open is classified, an opened clip is streamed from the trace of its reader.
\<close>

definition get_open ::
  "('b, 'h, 'w) medium \<Rightarrow> duration \<Rightarrow> string \<Rightarrow> header \<Rightarrow> err option \<Rightarrow> time \<Rightarrow> ('b, 'w) store
   \<Rightarrow> ('b, 'w) store \<times> (response + 'h opened)" where
  "get_open M wait_max name h ctx now s =
     (case get_options wait_max h of
        Inl e \<Rightarrow> (s, Inl (refuse (mapErr e) (Some e)))
      | Inr opts \<Rightarrow> (case store_Open M name opts ctx now s of (s, r) \<Rightarrow> (s, Inr r)))"

fun answer_open ::
  "err option \<Rightarrow> (byte list \<times> err option) list \<Rightarrow> conn_write list \<Rightarrow> err option \<Rightarrow> 'h opened \<Rightarrow> response" where
  "answer_open cause trace outs hello (Refused_open e) = refuse_get cause e"
| "answer_open cause trace outs hello (Waiting_open os c) = no_response"
| "answer_open cause trace outs hello (Opened l c) = stream_out c trace outs hello (clip_response c)"

text \<open>
  A GET served with nothing else running: open, drain the reader, close it.  The reads are those of
  the leased reader itself, until its first error.
\<close>

fun leased_trace ::
  "('b, 'h, 'w) medium \<Rightarrow> nat \<Rightarrow> nat \<Rightarrow> 'h leasedReader \<Rightarrow> ('b, 'w) store
   \<Rightarrow> ('b, 'w) store \<times> 'h leasedReader \<times> (byte list \<times> err option) list" where
  "leased_trace M 0 len l s = (s, l, [])"
| "leased_trace M (Suc n) len l s =
     (case leased_Read M None len l s of
        (s, l, Returned bs e) \<Rightarrow>
          (if e = None then (case leased_trace M n len l s of (s, l, tr) \<Rightarrow> (s, l, (bs, e) # tr))
           else (s, l, [(bs, e)]))
      | (s, l, _) \<Rightarrow> (s, l, []))"

definition get ::
  "('b, 'h, 'w) medium \<Rightarrow> duration \<Rightarrow> nat \<Rightarrow> string \<Rightarrow> header \<Rightarrow> time \<Rightarrow> conn_write list \<Rightarrow> ('b, 'w) store
   \<Rightarrow> ('b, 'w) store \<times> response" where
  "get M wait_max fuel name h now outs s =
     (case get_open M wait_max name h None now s of
        (s, Inl r) \<Rightarrow> (s, r)
      | (s, Inr (Opened l c)) \<Rightarrow>
          (case leased_trace M fuel copyBufSize l s of
             (s, l, tr) \<Rightarrow> (fst (leased_Close M l s), answer_open None tr outs None (Opened l c)))
      | (s, Inr r) \<Rightarrow> (s, answer_open None [] outs None r))"

subsection \<open>The other routes\<close>

definition head :: "string \<Rightarrow> time \<Rightarrow> ('b, 'w) store \<Rightarrow> ('b, 'w) store \<times> response" where
  "head name now s =
     (case store_Stat name now s of
        (s, Inl e) \<Rightarrow> (s, fst (writeErr True (mapErr e) (Some e) no_response))
      | (s, Inr c) \<Rightarrow>
          (let w = clip_response c;
               w = (if Finalized c then w\<lparr>w_header := hset ''Content-Length'' (itoa (Size c)) (w_header w)\<rparr> else w)
           in (s, w\<lparr>w_status := 200, w_end := Finished\<rparr>)))"

definition delete :: "('b, 'h, 'w) medium \<Rightarrow> string \<Rightarrow> time \<Rightarrow> ('b, 'w) store \<Rightarrow> ('b, 'w) store \<times> response" where
  "delete M name now s =
     (case store_Delete M name now s of
        (s, Some e) \<Rightarrow> (s, refuse (mapErr e) (Some e))
      | (s, None) \<Rightarrow> (s, no_response\<lparr>w_status := 204, w_end := Finished\<rparr>))"

record listEnvelope =
  le_clips :: "wireClip list"
  le_next :: string

record healthDoc =
  hd_status :: string
  hd_version :: string
  hd_api :: "string list"
  hd_features :: "string list"

definition list_clips :: "Clip list \<Rightarrow> listEnvelope" where
  "list_clips cs = \<lparr>le_clips = sort_key wc_name (map toWire cs), le_next = ''''\<rparr>"

definition health :: "string \<Rightarrow> healthDoc" where
  "health version = \<lparr>hd_status = ''ok'', hd_version = version, hd_api = [''v1''], hd_features = Features\<rparr>"

text \<open>
  \<open>writeJSON\<close>: \<open>encode\<close> is \<open>json.Encoder.Encode\<close>, and \<open>out\<close> the write of the whole buffer to the
  connection.
\<close>

definition writeJSON :: "('d \<Rightarrow> err + byte list) \<Rightarrow> 'd \<Rightarrow> conn_write list \<Rightarrow> response" where
  "writeJSON encode v outs =
     (case encode v of
        Inl e \<Rightarrow> refuse row_Internal (Some e)
      | Inr bs \<Rightarrow>
          (let w = no_response\<lparr>w_header := hset ''Content-Type'' ''application/json; charset=utf-8'' [],
                 w_status := 200\<rparr>
           in case conn_Write False bs outs of
                (sent, k, e, _) \<Rightarrow>
                  if e \<noteq> None \<or> k \<noteq> length bs then w\<lparr>w_body := sent, w_end := Aborted\<rparr>
                  else w\<lparr>w_body := sent, w_end := Finished\<rparr>))"

definition api_list ::
  "(listEnvelope \<Rightarrow> err + byte list) \<Rightarrow> time \<Rightarrow> conn_write list \<Rightarrow> ('b, 'w) store \<Rightarrow> response" where
  "api_list encode now outs s = writeJSON encode (list_clips (store_List now s)) outs"

subsection \<open>Routes\<close>

datatype route = Route_put | Route_get | Route_head | Route_delete | Route_list | Route_health

text \<open>The patterns registered: a method, a path, and whether one more segment \<open>{name}\<close> follows.\<close>

definition routes :: "(string \<times> string \<times> bool \<times> route) list" where
  "routes = [(''PUT'', PathClips, True, Route_put), (''GET'', PathClips, True, Route_get),
     (''HEAD'', PathClips, True, Route_head), (''DELETE'', PathClips, True, Route_delete),
     (''GET'', PathClips, False, Route_list), (''GET'', PathHealth, False, Route_health)]"

text \<open>
  What \<open>http.ServeMux\<close> does with them on a clean escaped path: a literal pattern matches the path
  itself, a wildcard one non-empty segment, handed over unescaped; a GET pattern also serves HEAD
  unless a HEAD pattern matches.
\<close>

definition segment_of :: "string \<Rightarrow> string \<Rightarrow> string option" where
  "segment_of prefix path =
     (let p = prefix @ ''/''; seg = drop (length p) path
      in if take (length p) path = p \<and> seg \<noteq> [] \<and> CHR ''/'' \<notin> set seg then PathUnescape seg else None)"

definition match_route :: "string \<Rightarrow> string \<Rightarrow> string \<times> string \<times> bool \<times> route \<Rightarrow> (route \<times> string) option" where
  "match_route meth path r =
     (case r of (m, prefix, wild, h) \<Rightarrow>
        if m \<noteq> meth then None
        else if wild then map_option (Pair h) (segment_of prefix path)
        else if path = prefix then Some (h, '''') else None)"

fun first_match :: "string \<Rightarrow> string \<Rightarrow> (string \<times> string \<times> bool \<times> route) list \<Rightarrow> (route \<times> string) option" where
  "first_match meth path [] = None"
| "first_match meth path (r # rs) =
     (case match_route meth path r of Some x \<Rightarrow> Some x | None \<Rightarrow> first_match meth path rs)"

definition dispatch :: "string \<Rightarrow> string \<Rightarrow> (route \<times> string) option" where
  "dispatch meth path =
     (case first_match meth path routes of
        Some x \<Rightarrow> Some x
      | None \<Rightarrow> if meth = ''HEAD'' then first_match ''GET'' path routes else None)"

end
