(* ===== verification/Client.thy ===== *)
theory Client imports Api begin

text \<open>
  The client (\<open>client/\<close>): one method per operation of the server, over \<open>http.Client.Do\<close>, which is a
  parameter: a function from the request to what came back.
\<close>

subsection \<open>Requests and responses\<close>

record request =
  rq_method :: string
  rq_url :: string
  rq_header :: header

text \<open>The reply as the client reads it: status, headers, framing signals and the reads of its body.\<close>

record reply =
  rp_status :: int
  rp_header :: header
  rp_http :: http_response
  rp_reads :: "(byte list \<times> err option) list"

text \<open>
  \<open>do\<close>: the transport's outcome for one request; a failure is wrapped as unreachable, under the
  method and the URL, whose password \<open>Redacted\<close> hides (the text of an error carries no identity).
\<close>

type_synonym transport = "request \<Rightarrow> err + reply"

definition client_do :: "transport \<Rightarrow> string \<Rightarrow> string \<Rightarrow> header \<Rightarrow> err + reply" where
  "client_do net meth url h =
     (case net \<lparr>rq_method = meth, rq_url = url, rq_header = h\<rparr> of
        Inl e \<Rightarrow> Inl (Wrapf (meth @ '' '' @ url) [Leaf ErrUnreachable, e])
      | Inr r \<Rightarrow> Inr r)"

definition clipURL :: "string \<Rightarrow> string \<Rightarrow> string" where
  "clipURL base name = base @ PathClips @ ''/'' @ PathEscape name"

definition drainLimit :: nat where "drainLimit = 4096"

subsection \<open>The base URL\<close>

text \<open>
  The parts of \<open>url.URL\<close> that \<open>New\<close> looks at, and its rendering.  \<open>parse\<close> is \<open>url.Parse\<close>.
\<close>

record parsed_url =
  u_Scheme :: string
  u_Host :: string
  u_RawQuery :: string
  u_Fragment :: string
  u_String :: string

definition trim_slashes :: "string \<Rightarrow> string" where
  "trim_slashes s = rev (dropWhile (\<lambda>c. c = CHR ''/'') (rev s))"

definition New :: "(string \<Rightarrow> err + parsed_url) \<Rightarrow> string \<Rightarrow> err + string" where
  "New parse base =
     (case parse base of
        Inl e \<Rightarrow> Inl (Wrapf (''buff: invalid base URL '' @ base) [e])
      | Inr u \<Rightarrow>
          (if u_Scheme u \<noteq> ''http'' \<and> u_Scheme u \<noteq> ''https''
           then Inl (Wrapf (''buff: base URL must be http or https: '' @ base) [])
           else if u_Host u = '''' then Inl (Wrapf (''buff: base URL has no host: '' @ base) [])
           else if u_RawQuery u \<noteq> '''' \<or> u_Fragment u \<noteq> ''''
           then Inl (Wrapf (''buff: base URL must not carry a query or fragment: '' @ base) [])
           else Inr (trim_slashes (u_String u))))"

subsection \<open>The operations\<close>

definition delete_request :: "string \<Rightarrow> string \<Rightarrow> request" where
  "delete_request base name = \<lparr>rq_method = ''DELETE'', rq_url = clipURL base name, rq_header = []\<rparr>"

definition client_Delete :: "transport \<Rightarrow> string \<Rightarrow> string \<Rightarrow> err option" where
  "client_Delete net base name =
     (case client_do net ''DELETE'' (clipURL base name) [] of
        Inl e \<Rightarrow> Some e
      | Inr r \<Rightarrow> if rp_status r \<noteq> 204 then Some (responseError (rp_status r) (rp_header r)) else None)"

definition client_Stat :: "transport \<Rightarrow> string \<Rightarrow> string \<Rightarrow> err + Clip" where
  "client_Stat net base name =
     (case client_do net ''HEAD'' (clipURL base name) [] of
        Inl e \<Rightarrow> Inl e
      | Inr r \<Rightarrow> if rp_status r \<noteq> 200 then Inl (responseError (rp_status r) (rp_header r))
                 else Inr (parseClip name (rp_header r)))"

text \<open>The reader \<open>Get\<close> returns is the body over the reply; \<open>client_read\<close> copies it to its end.\<close>

definition client_Get ::
  "transport \<Rightarrow> string \<Rightarrow> string \<Rightarrow> ClientGetOpts \<Rightarrow> err + (reply \<times> body) \<times> Clip" where
  "client_Get net base name opts =
     (case client_do net ''GET'' (clipURL base name) (getHeaders opts) of
        Inl e \<Rightarrow> Inl e
      | Inr r \<Rightarrow> if rp_status r \<noteq> 200 then Inl (responseError (rp_status r) (rp_header r))
                 else Inr ((r, newBody name), parseClip name (rp_header r)))"

definition client_read :: "reply \<times> body \<Rightarrow> byte list \<times> err option" where
  "client_read rc = read_body (rp_http (fst rc)) (rp_reads (fst rc)) (snd rc)"

text \<open>
  \<open>recordingReader\<close>: the first error of the source that is not its end.  The transport of a \<open>Put\<close>
  reads the source while it sends; \<open>source\<close> is the reads it made.  The second component of the result
  is the requests sent after the PUT itself: the best-effort delete of a clip that was not confirmed.
\<close>

fun recorded :: "(byte list \<times> err option) list \<Rightarrow> err option" where
  "recorded [] = None"
| "recorded ((p, e) # rs) = (if e \<noteq> None \<and> e \<noteq> Some (Leaf IoEOF) then e else recorded rs)"

definition client_Put ::
  "transport \<Rightarrow> string \<Rightarrow> string \<Rightarrow> (byte list \<times> err option) list \<Rightarrow> Meta \<Rightarrow> ClientPutOpts
   \<Rightarrow> (err + Clip) \<times> request list" where
  "client_Put net base name source m opts =
     (let m = (if Kind m = '''' then m\<lparr>Kind := KindBytes\<rparr> else m);
          m = Normalized m
      in case client_do net ''PUT'' (clipURL base name) (encodeHeaders m opts) of
           Inl e \<Rightarrow>
             (case recorded source of
                Some x \<Rightarrow> (if \<not> is_err x CtxCanceled \<and> \<not> is_err x CtxDeadlineExceeded
                           then (Inl (Wrapf '''' [Leaf ErrSource, x]), []) else (Inl e, []))
              | None \<Rightarrow> (Inl e, []))
         | Inr r \<Rightarrow>
             (if rp_status r \<noteq> 200 then (Inl (responseError (rp_status r) (rp_header r)), [])
              else let cl = parseClip name (rp_header r)
                in if cp_ConsumeOnce opts \<and> \<not> ConsumeOnce cl
                   then (Inl (Wrapf name [Leaf ErrConsumeUnconfirmed]), [delete_request base name])
                   else (Inr cl, [])))"

text \<open>\<open>decode\<close> is \<open>json.Decoder.Decode\<close> on the body the reads deliver.\<close>

definition client_List ::
  "(byte list \<Rightarrow> err + listEnvelope) \<Rightarrow> transport \<Rightarrow> string \<Rightarrow> err + Clip list" where
  "client_List decode net base =
     (case client_do net ''GET'' (base @ PathClips) [] of
        Inl e \<Rightarrow> Inl e
      | Inr r \<Rightarrow>
          (if rp_status r \<noteq> 200 then Inl (responseError (rp_status r) (rp_header r))
           else case decode (trace_bytes (rp_reads r)) of
             Inl e \<Rightarrow> Inl (Wrapf ''buff: decoding clip list'' [e])
           | Inr env \<Rightarrow>
               (if le_next env \<noteq> ''''
                then Inl (Wrapf ''buff: server returned a paginated clip list this client cannot follow; upgrade the client'' [])
                else Inr (map toClip (le_clips env)))))"

definition client_Health ::
  "(byte list \<Rightarrow> err + healthDoc) \<Rightarrow> transport \<Rightarrow> string \<Rightarrow> err + healthDoc" where
  "client_Health decode net base =
     (case client_do net ''GET'' (base @ PathHealth) [] of
        Inl e \<Rightarrow> Inl e
      | Inr r \<Rightarrow>
          (if rp_status r \<noteq> 200 then Inl (responseError (rp_status r) (rp_header r))
           else case decode (trace_bytes (rp_reads r)) of
             Inl e \<Rightarrow> Inl (Wrapf ''buff: decoding health'' [e])
           | Inr h \<Rightarrow> Inr h))"

subsection \<open>Facts\<close>

lemma client_do_error: "client_do net meth url h = Inl e \<Longrightarrow> is_err e ErrUnreachable"
  by (auto simp: client_do_def split: sum.splits)

text \<open>The URL of a clip, behind the base, is routed to the handler of its method with its own name.\<close>

lemma segment_of_escape:
  assumes "name \<noteq> ''''"
  shows "segment_of PathClips (PathClips @ ''/'' @ PathEscape name) = Some name"
proof -
  have "CHR ''/'' \<notin> set (PathEscape name)" using PathEscape_safe [of name] by auto
  then show ?thesis using assms by (simp add: segment_of_def Let_def PathEscape_ne)
qed

lemma clip_path_not_plain: "name \<noteq> '''' \<Longrightarrow> PathClips @ ''/'' @ PathEscape name \<noteq> PathClips"
  by simp




lemma parseClip_ConsumeOnce: "ConsumeOnce (parseClip n h) = (hget h HeaderConsume = BoolTrue)"
  by (simp add: parseClip_def Let_def split: option.split)

text \<open>A server that forgets the consume-once: the clip is deleted and the upload reports it.\<close>

definition forgetful :: transport where
  "forgetful rq = Inr \<lparr>rp_status = 200, rp_header = [], rp_http = \<lparr>ContentLength = 0, Trailer = []\<rparr>, rp_reads = []\<rparr>"

definition once_opts :: ClientPutOpts where
  "once_opts = \<lparr>cp_TTL = 0, cp_Keep = False, cp_ConsumeOnce = True, cp_IfMatch = ''''\<rparr>"

definition plain_meta :: Meta where
  "plain_meta = \<lparr>Kind = '''', Filename = '''', Executable = False\<rparr>"

lemma forgetful_put:
  "fst (client_Put forgetful ''b'' ''a'' [] plain_meta once_opts) = Inl (Wrapf ''a'' [Leaf ErrConsumeUnconfirmed])"
  by (simp add: client_Put_def client_do_def forgetful_def once_opts_def parseClip_ConsumeOnce BoolTrue_def Let_def)


end
