(* ===== verification/EndToEnd.thy ===== *)
theory EndToEnd imports ReadWrites Client begin

text \<open>
  The relay from end to end in the memory store: a PUT's handler, a later GET's handler, and the
  client on both sides.
\<close>

subsection \<open>What a request body delivers\<close>

fun received :: "body_reads \<Rightarrow> byte list" where
  "received [] = []"
| "received ((p, re, t) # rs) = p @ (if re = None then received rs else [])"

lemma uploading_copy:
  assumes "uploading s wr name m once ttl p" and "\<forall>(q, e, t) \<in> set rs. length q < 2 ^ 62"
    and "copy_in memMedium rs seen wr s = (s', wr', None, seen')"
  shows "uploading s' wr' name m once ttl (p @ received rs)"
  using assms
proof (induction rs arbitrary: wr s p seen)
  case (Cons x rs)
  obtain q re t where x: "x = (q, re, t)" by (cases x)
  show ?case
  proof (cases "q = []")
    case True
    then show ?thesis using Cons.IH [of s wr p "note_read re seen"] Cons.prems x
      by (cases re) (auto simp: Let_def split: if_splits)
  next
    case False
    obtain s1 wr1 k e where w: "writer_Write memMedium wr q t s = (s1, wr1, k, e)"
      by (cases "writer_Write memMedium wr q t s") auto
    have e: "e = None" using Cons.prems(3) w x False by (cases e) auto
    have u: "uploading s1 wr1 name m once ttl (p @ q)"
      using uploading_write [OF Cons.prems(1)] Cons.prems(2) w e x by simp
    show ?thesis using Cons.IH [OF u, of "note_read re seen"] u Cons.prems(2,3) w x e False
      by (cases re) (auto simp: Let_def split: if_splits)
  qed
qed simp

subsection \<open>The state a sweep and a refused attempt leave\<close>

lemma reg_ok_release: "reg_ok s \<Longrightarrow> map_of (reg s) (h_name (hs s h)) = Some h \<Longrightarrow> reg_ok (release h s)"
  by (rule release_keeps)

lemma default_kept:
  "defaultTTL (fst (acquire n s)) = defaultTTL s" "defaultTTL (release h s) = defaultTTL s"
  "defaultTTL (reclaim_opt M r s) = defaultTTL s"
  by (auto simp: acquire_def release_def reclaim_opt_def reclaim_def give_clip_def give_bytes_def
      med_remove_def upd_h_def Let_def split: option.splits)

lemma reap_keeps:
  assumes "reg_ok s" and "reapRemove M now c s = (s', b)"
  shows "reg_ok s' \<and> defaultTTL s' = defaultTTL s"
proof -
  obtain s1 h where a: "acquire (fst c) s = (s1, h)" by (cases "acquire (fst c) s")
  obtain s2 prev e where rs: "reap_section M h (snd c) now s1 = (s2, prev, e)"
    by (cases "reap_section M h (snd c) now s1") auto
  have s': "s' = release h (reclaim_opt M prev s2)"
    using assms(2) a rs by (simp add: reapRemove_def)
  note acq = reg_ok_acquire [OF a assms(1)]
  have f: "reg s2 = reg s1 \<and> hnext s2 = hnext s1 \<and> defaultTTL s2 = defaultTTL s1
      \<and> (\<forall>x. h_name (hs s2 x) = h_name (hs s1 x))"
    using rs
    by (auto simp: reap_section_def transitionResult_def retire_def wake_h_def upd_h_def Let_def
        split: option.splits if_splits prod.splits)
  define s3 where "s3 = reclaim_opt M prev s2"
  have g: "reg s3 = reg s2 \<and> hnext s3 = hnext s2 \<and> hs s3 = hs s2 \<and> defaultTTL s3 = defaultTTL s2"
    by (simp add: s3_def reclaim_opt_def reclaim_def give_clip_def give_bytes_def med_remove_def split: option.splits)
  have ok3: "reg_ok s3" using acq(1) f g by (simp add: reg_ok_def)
  have "h_name (hs s1 h) = fst c" using acq(1,2) by (simp add: reg_ok_def)
  then have "map_of (reg s3) (h_name (hs s3 h)) = Some h" using acq(2) f g by simp
  then have "reg_ok (release h s3)" by (rule reg_ok_release [OF ok3])
  then show ?thesis unfolding s' s3_def [symmetric] using f g a default_kept by (metis fst_conv)
qed

lemma sweep_keeps:
  assumes "reg_ok s"
  shows "reg_ok (fst (reclaimExpired M now s)) \<and> defaultTTL (fst (reclaimExpired M now s)) = defaultTTL s"
proof -
  have fold: "reg_ok (fst (foldl (\<lambda>(s, n) c. case reapRemove M now c s of (s, b) \<Rightarrow> (s, if b then Suc n else n)) (s0, k) cs))
     \<and> defaultTTL (fst (foldl (\<lambda>(s, n) c. case reapRemove M now c s of (s, b) \<Rightarrow> (s, if b then Suc n else n)) (s0, k) cs))
       = defaultTTL s0"
    if "reg_ok s0" for s0 and k :: nat and cs
    using that
  proof (induction cs arbitrary: s0 k)
    case (Cons c cs)
    obtain s1 b where r: "reapRemove M now c s0 = (s1, b)" by fastforce
    show ?case using Cons.IH [of s1] reap_keeps [OF Cons.prems r] r by simp
  qed simp
  have "reg_ok (s\<lparr>lastReclaim := x\<rparr>)" for x using assms by (simp add: reg_ok_def)
  then show ?thesis using assms fold
    by (auto simp: reclaimExpired_def reclaim_claim_def reapExpired_def Let_def case_prod_beta)
qed

lemma refused_create_keeps:
  assumes "createOnce M name m po now rnd s = (s', Inl e)" and "reg_ok s"
  shows "reg_ok s' \<and> defaultTTL s' = defaultTTL s"
proof (cases "ValidName name")
  case None
  obtain s1 h where a: "acquire name s = (s1, h)" by (cases "acquire name s")
  obtain s2 r x where ad: "admit_section M h name (Normalized m) po now rnd s1 = (s2, r, x)"
    by (cases "admit_section M h name (Normalized m) po now rnd s1") auto
  have s': "s' = release h s2" using assms(1) None a ad by (auto simp: createOnce_def Let_def split: option.splits)
  note acq = reg_ok_acquire [OF a assms(2)]
  have f: "reg s2 = reg s1 \<and> hnext s2 = hnext s1 \<and> (\<forall>x. h_name (hs s2 x) = h_name (hs s1 x)) \<and> defaultTTL s2 = defaultTTL s1"
    using ad
    by (auto simp: admit_section_eq admit_def wake_h_def upd_h_def give_clip_def Let_def
        split: if_splits prod.splits bool.splits sum.splits)
  have ok2: "reg_ok s2" using acq(1) f by (simp add: reg_ok_def)
  have "h_name (hs s1 h) = name" using acq(1,2) by (simp add: reg_ok_def)
  then have "map_of (reg s2) (h_name (hs s2 h)) = Some h" using acq(2) f by simp
  then have "reg_ok (release h s2)" by (rule reg_ok_release [OF ok2])
  then show ?thesis unfolding s' using f a default_kept by (metis fst_conv)
next
  case (Some x)
  then show ?thesis using assms by (simp add: createOnce_def)
qed

lemma uploading_Create:
  assumes "Create memMedium name m po first now again s = (s', Inr wr)" and "reg_ok s"
  shows "uploading s' wr name (Normalized m) (po_ConsumeOnce po) (resolveTTL po s) [] \<and> ValidName name = None"
proof -
  obtain s1 x where c: "createOnce memMedium name m po (fst first) (snd first) s = (s1, x)" by fastforce
  show ?thesis
  proof (cases x)
    case (Inr w)
    then show ?thesis using assms(1) c uploading_create [of name m po _ _ s s1 wr] assms(2)
      by (auto simp: Create_def)
  next
    case (Inl e)
    have k: "reg_ok s1" "defaultTTL s1 = defaultTTL s"
      using refused_create_keeps [of memMedium name m po _ _ s s1 e] c Inl assms(2) by auto
    obtain s2 b where r: "reclaimExpired memMedium now s1 = (s2, b)" by fastforce
    have k2: "reg_ok s2" "defaultTTL s2 = defaultTTL s1"
      using sweep_keeps [OF k(1), of memMedium now] r by auto
    have "createOnce memMedium name m po (fst again) (snd again) s2 = (s', Inr wr)"
      using assms(1) c Inl r by (auto simp: Create_def split: if_splits bool.splits)
    moreover have "resolveTTL po s2 = resolveTTL po s" using k k2 by (simp add: resolveTTL_def)
    ultimately show ?thesis using uploading_create [OF _ k2(1)] by metis
  qed
qed

subsection \<open>What the handlers do with it\<close>

lemma row_status: "Status (mapErr e) \<noteq> 200" "Status row_BadReq \<noteq> 200" "Status row_Unavailable \<noteq> 200"
  "Status row_Internal \<noteq> 200"
proof -
  have "\<forall>r \<in> set Rows. Status r \<noteq> 200" by (simp add: Rows_def row_defs)
  then show "Status (mapErr e) \<noteq> 200" using mapErr_in_Rows by blast
qed (simp_all add: row_defs)

lemma refuse_status [simp]: "w_status (refuse info cause) = Status info"
  by (simp add: refuse_def writeErr_def)

lemma classifyPut_status: "Status (fst (classifyPut cause f seen)) \<noteq> 200"
  by (simp add: classifyPut_def row_status)

lemma put_stores:
  assumes "put memMedium name h env s = (s', r)" and "w_status r = 200" and "reg_ok s"
    and "\<forall>(q, e, t) \<in> set (pe_reads env). length q < 2 ^ 62"
  shows "\<exists>m po wr. parsePut h = Inr (m, po) \<and> ValidName name = None
    \<and> published s' wr name (Normalized m) (po_ConsumeOnce po) (deadline (pe_close env) (resolveTTL po s))
        (received (pe_reads env))
    \<and> w_header r = setClipMeta [] (gen_clip (gs s' (wr_g wr)))"
proof -
  obtain m po where p: "parsePut h = Inr (m, po)"
    using assms(1,2) row_status by (cases "parsePut h") (auto simp: put_def)
  obtain s1 x where c: "Create memMedium name m po (pe_first env) (pe_now env) (pe_again env) s = (s1, x)"
    by fastforce
  obtain wr where x: "x = Inr wr"
    using assms(1,2) p c row_status by (cases x) (auto simp: put_def)
  have u: "uploading s1 wr name (Normalized m) (po_ConsumeOnce po) (resolveTTL po s) []" "ValidName name = None"
    using uploading_Create [of name m po _ _ _ s s1 wr] c x assms(3) by auto
  obtain s2 wr2 f seen where y: "copy_in memMedium (pe_reads env) None wr s1 = (s2, wr2, f, seen)"
    by (cases rule: prod_cases4)
  have f: "f = None"
  proof (cases f)
    case (Some a)
    obtain info cause where i: "classifyPut (pe_cause env) a seen = (info, cause)" by fastforce
    then have "Status info \<noteq> 200" using classifyPut_status [of "pe_cause env" a seen] by simp
    then show ?thesis using assms(1,2) p c x y Some i by (auto simp: put_def)
  qed simp
  have u2: "uploading s2 wr2 name (Normalized m) (po_ConsumeOnce po) (resolveTTL po s) (received (pe_reads env))"
    using uploading_copy [OF u(1) assms(4)] y f by simp
  obtain s3 wr3 where z: "writer_Close memMedium wr2 (pe_close env) s2 = (s3, wr3, None)"
    and pub: "published s3 wr2 name (Normalized m) (po_ConsumeOnce po) (deadline (pe_close env) (resolveTTL po s))
        (received (pe_reads env))" and w: "writer_Clip wr3 s3 = gen_clip (gs s3 (wr_g wr2))"
    using close_publishes [OF u2, of "pe_close env"] by auto
  have "s' = s3 \<and> w_header r = setClipMeta [] (gen_clip (gs s3 (wr_g wr2)))"
    using assms(1) p c x y f z w by (auto simp: put_def no_response_def)
  then show ?thesis using p u(2) pub by blast
qed

lemma leased_section_trace:
  assumes "lr_rc l = RSection r" and "leased_trace memMedium n len l s = (s', l', tr)"
  shows "tr = read_trace n (section_Read memB (g_buf (gs s (lr_g l))) len) r (world s)"
  using assms
proof (induction n arbitrary: l s r s' l' tr)
  case (Suc n)
  obtain r1 w1 bs e where rd: "section_Read memB (g_buf (gs s (lr_g l))) len r (world s) = (r1, w1, bs, e)"
    by (cases rule: prod_cases4)
  have lr: "leased_Read memMedium None len l s = (s\<lparr>world := w1\<rparr>, l\<lparr>lr_rc := RSection r1\<rparr>, Returned bs e)"
    using Suc.prems(1) rd by (simp add: leased_Read_def)
  obtain s2 l2 tr2 where t: "leased_trace memMedium n len (l\<lparr>lr_rc := RSection r1\<rparr>) (s\<lparr>world := w1\<rparr>) = (s2, l2, tr2)"
    by (cases rule: prod_cases3)
  show ?case using Suc.IH [OF _ t, of r1] Suc.prems(2) lr rd t by (auto split: if_splits)
qed simp

text \<open>A copy of a whole section over a healthy connection puts all of it on the wire.\<close>

lemma copy_out_section:
  assumes "bback b = m" and "length m < 2 ^ 63" and "o' \<le> length m" and "0 < len"
    and "length m - o' < fuel"
  shows "copy_out fl (read_trace fuel (section_Read memB b len)
      \<lparr>sr_h = h, sr_size = word_of_nat (length m), sr_off = word_of_nat o', sr_once = c\<rparr> w) []
    = (drop o' m, Copied)"
  using assms(3,5)
proof (induction fuel arbitrary: o')
  case (Suc fuel)
  let ?s = "\<lparr>sr_h = h, sr_size = word_of_nat (length m) :: int64, sr_off = word_of_nat o', sr_once = c\<rparr>"
  note rd = mem_section_Read [OF assms(1,2) Suc.prems(1) refl, where len = len and w = w and h = h and c = c]
  show ?case
  proof (cases "o' = length m")
    case True
    then show ?thesis using rd by simp
  next
    case False
    define n where "n = length (take len (drop o' m))"
    have n: "0 < n" "o' + n \<le> length m" using False Suc.prems(1) assms(4) by (auto simp: n_def)
    have ne: "take len (drop o' m) \<noteq> []" using n(1) by (simp add: n_def)
    have rd: "section_Read memB b len ?s w = (?s\<lparr>sr_off := word_of_nat (o' + n)\<rparr>, w, take len (drop o' m), None)"
      using rd False by (simp only: n_def if_False)
    have ih: "copy_out fl (read_trace fuel (section_Read memB b len) (?s\<lparr>sr_off := word_of_nat (o' + n)\<rparr>) w) []
        = (drop (o' + n) m, Copied)"
      using Suc.IH [of "o' + n"] n Suc.prems by simp
    have "take len (drop o' m) @ drop (o' + n) m = drop o' m"
      unfolding n_def by (metis add.commute append_take_drop_id drop_drop length_take min.commute take_length_self)
    then show ?thesis using rd ih ne by (simp add: conn_Write_def)
  qed
qed simp

lemma setClipMeta_get:
  assumes "\<forall>k \<in> set clip_headers. hget h k = hget h' k" and "k \<in> set clip_headers"
  shows "hget (setClipMeta h c) k = hget (setClipMeta h' c) k"
  using assms by (auto simp: clip_headers_def setClipMeta_def header_get Let_def)

lemma parseClip_cong:
  assumes "\<forall>k \<in> set clip_headers. hget h k = hget h' k"
  shows "parseClip n h = parseClip n h'"
proof -
  have e: "hget h HeaderGeneration = hget h' HeaderGeneration" "hget h HeaderKind = hget h' HeaderKind"
    "hget h HeaderFinalized = hget h' HeaderFinalized" "hget h HeaderConsume = hget h' HeaderConsume"
    "hget h HeaderFilename = hget h' HeaderFilename" "hget h HeaderExecutable = hget h' HeaderExecutable"
    "hget h HeaderSize = hget h' HeaderSize" "hget h HeaderExpires = hget h' HeaderExpires"
    using assms by (simp_all add: clip_headers_def)
  show ?thesis unfolding parseClip_def e by (rule refl)
qed

lemma get_describes:
  "parseClip n (w_header (stream_out c tr outs hello (clip_response c))) = parseClip n (setClipMeta [] c)"
proof (rule parseClip_cong, intro ballI)
  fix k assume k: "k \<in> set clip_headers"
  have "hget (w_header (stream_out c tr outs hello (clip_response c))) k = hget (writeHeaders [] c) k"
    using k by (auto simp: stream_out_def clip_response_def no_response_def clip_headers_def header_get Let_def
        split: prod.split copy_end.split)
  also have "\<dots> = hget (setClipMeta [] c) k"
    unfolding writeHeaders_def by (rule setClipMeta_get [OF _ k]) (simp add: clip_headers_def header_get)
  finally show "hget (w_header (stream_out c tr outs hello (clip_response c))) k = hget (setClipMeta [] c) k" .
qed

lemma setClipMeta_same:
  "setClipMeta h (gen_clip g) = setClipMeta h c" if "c = gen_clip g"
  using that by simp

lemma open_ignores_max: "store_Open M name (plain_get\<lparr>go_WaitMax := x\<rparr>) ctx now s = store_Open M name plain_get ctx now s"
proof -
  have e: "go_Wait (plain_get\<lparr>go_WaitMax := x\<rparr>) = go_Wait plain_get"
    "go_FollowNext (plain_get\<lparr>go_WaitMax := x\<rparr>) = go_FollowNext plain_get" by simp_all
  show ?thesis unfolding store_Open_def open_begin_def e by (rule refl)
qed

lemma plain_options: "get_options wm [] = Inr (plain_get\<lparr>go_WaitMax := wm\<rparr>)"
  by (simp add: get_options_def parseGet_def boolHeader_def plain_get_def)


subsection \<open>On a concrete exchange\<close>

definition ex_env :: put_env where
  "ex_env = \<lparr>pe_first = (5, demo_rnd), pe_now = 5, pe_again = (5, demo_rnd),
     pe_reads = [([7, 9], None, 6), ([3], Some (Leaf IoEOF), 6)], pe_cause = None, pe_close = 8\<rparr>"

definition ex_header :: header where
  "ex_header = encodeHeaders \<lparr>Kind = KindBytes, Filename = '''', Executable = False\<rparr>
     \<lparr>cp_TTL = 0, cp_Keep = True, cp_ConsumeOnce = True, cp_IfMatch = ''''\<rparr>"

definition ex_put :: "mstore \<times> response" where
  "ex_put = put memMedium ''a'' ex_header ex_env ds_new"

definition ex_meta :: Meta where
  "ex_meta = \<lparr>Kind = KindBytes, Filename = '''', Executable = False\<rparr>"

definition ex_opts :: PutOpts where
  "ex_opts = \<lparr>po_TTL = 0, po_Keep = True, po_ConsumeOnce = True, po_IfMatch = ''''\<rparr>"

definition ex_created :: "mstore \<times> (err + writer)" where
  "ex_created = Create memMedium ''a'' ex_meta ex_opts (5, demo_rnd) 5 (5, demo_rnd) ds_new"

definition ex_copied :: "mstore \<times> writer \<times> copy_fault option \<times> err option" where
  "ex_copied = copy_in memMedium (pe_reads ex_env) None (new_writer 0 0) (fst ex_created)"

lemma ex_evals:
  "snd ex_created = Inr (new_writer 0 0)" "fst (snd (snd ex_copied)) = None"
  "received (pe_reads ex_env) = [7, 9, 3]" "parsePut ex_header = Inr (ex_meta, ex_opts)" "reg_ok ds_new"
  by (code_simp, code_simp, code_simp, code_simp) (simp add: reg_ok_def ds_new_def newStore_def)

lemma ex_status: "w_status (snd ex_put) = 200"
proof -
  obtain s2 wr2 seen where c: "ex_copied = (s2, wr2, None, seen)"
    using ex_evals(2) by (metis prod.collapse)
  obtain s1 where k: "ex_created = (s1, Inr (new_writer 0 0))"
    using ex_evals(1) by (metis prod.collapse)
  have "uploading s1 (new_writer 0 0) ''a'' (Normalized ex_meta) True (resolveTTL ex_opts ds_new) []"
    using uploading_Create [OF k [unfolded ex_created_def] ex_evals(5)] by (simp add: ex_opts_def)
  moreover have "\<forall>(q, e, t) \<in> set (pe_reads ex_env). length q < 2 ^ 62" by (simp add: ex_env_def)
  ultimately have u: "uploading s2 wr2 ''a'' (Normalized ex_meta) True (resolveTTL ex_opts ds_new) ([] @ received (pe_reads ex_env))"
    using uploading_copy c k unfolding ex_copied_def by (metis fst_conv)
  obtain s3 wr3 where z: "writer_Close memMedium wr2 8 s2 = (s3, wr3, None)"
    using close_publishes [OF u, of 8] by blast
  have e: "pe_first ex_env = (5, demo_rnd)" "pe_now ex_env = 5" "pe_again ex_env = (5, demo_rnd)" "pe_close ex_env = 8"
    by (simp_all add: ex_env_def)
  have c': "copy_in memMedium (pe_reads ex_env) None (new_writer 0 0) s1 = (s2, wr2, None, seen)"
    using c unfolding ex_copied_def k by simp
  show ?thesis
    unfolding ex_put_def put_def ex_evals(4) e ex_created_def [symmetric] sum.case prod.case k c' option.case z
    by simp
qed


end
