(* ===== verification/Units.thy ===== *)
theory Units imports GoDuration Errors begin

text \<open>
  The vocabulary of spans and sizes a person types and reads (\<open>units/units.go\<close>), over what it uses of
  \<open>strconv\<close> and \<open>strings\<close>: \<open>ParseFloat\<close>, \<open>FormatFloat\<close> and \<open>TrimSpace\<close>.
\<close>

subsection \<open>Trimming\<close>

text \<open>The UTF-8 encodings of the code points \<open>unicode.IsSpace\<close> accepts.\<close>

definition bytes_of :: "nat list \<Rightarrow> string" where
  "bytes_of = map char_of"

definition spaces :: "string list" where
  "spaces = map bytes_of ([[9], [10], [11], [12], [13], [32], [194, 133], [194, 160], [225, 154, 128]]
     @ map (\<lambda>k. [226, 128, 128 + k]) [0..<11]
     @ [[226, 128, 168], [226, 128, 169], [226, 128, 175], [226, 129, 159], [227, 128, 128]])"

function trim_with :: "string list \<Rightarrow> string \<Rightarrow> string" where
  "trim_with ps s = (case List.find (\<lambda>p. p \<noteq> [] \<and> take (length p) s = p) ps of
      None \<Rightarrow> s
    | Some p \<Rightarrow> trim_with ps (drop (length p) s))"
  by pat_completeness auto
termination
proof (relation "measure (\<lambda>(ps, s). length s)")
  fix ps s p
  assume "List.find (\<lambda>p. p \<noteq> [] \<and> take (length p) s = p) ps = Some p"
  then have "p \<noteq> []" "take (length p) s = p" by (auto simp: find_Some_iff)
  then have "s \<noteq> []" by auto
  then show "((ps, drop (length p) s), ps, s) \<in> measure (\<lambda>(ps, s). length s)"
    using \<open>p \<noteq> []\<close> by simp
qed simp

declare trim_with.simps [simp del]

definition TrimSpace :: "string \<Rightarrow> string" where
  "TrimSpace s = rev (trim_with (map rev spaces) (rev (trim_with spaces s)))"

subsection \<open>Parsing a floating point number\<close>

text \<open>
  \<open>readFloat\<close>: a sign, a decimal or hexadecimal mantissa, an exponent (\<open>e\<close>, or \<open>p\<close> and then required),
  underscores where Go's literals allow them.  The names of infinities and of the NaN are left out: no
  caller passes a string that could be one (a mantissa of digits and points, or a string with a point).
\<close>

fun scan_mant :: "bool \<Rightarrow> nat \<Rightarrow> nat option \<Rightarrow> bool \<Rightarrow> bool \<Rightarrow> string
    \<Rightarrow> nat \<times> nat option \<times> bool \<times> bool \<times> string" where
  "scan_mant hex m dot dig us [] = (m, dot, dig, us, [])"
| "scan_mant hex m dot dig us (c # s) =
     (if c = CHR ''_'' then scan_mant hex m dot dig True s
      else if c = CHR ''.''
      then (if dot \<noteq> None then (m, dot, dig, us, c # s) else scan_mant hex m (Some 0) dig us s)
      else if is_digit c
      then scan_mant hex (m * (if hex then 16 else 10) + digit_val c) (map_option Suc dot) True us s
      else if hex \<and> unhex c \<noteq> None
      then scan_mant hex (m * 16 + the (unhex c)) (map_option Suc dot) True us s
      else (m, dot, dig, us, c # s))"

definition exp_value :: "string \<Rightarrow> nat" where
  "exp_value ds = foldl (\<lambda>e c. if e < 10000 then e * 10 + digit_val c else e) 0 ds"

text \<open>The exponent behind its letter: its value, whether it holds an underscore, the rest.\<close>

definition scan_exp :: "string \<Rightarrow> (int \<times> bool \<times> string) option" where
  "scan_exp s =
     (let (neg, r) = strip_sign s;
          run = takeWhile (\<lambda>c. is_digit c \<or> c = CHR ''_'') r;
          e = int (exp_value (filter is_digit run))
      in if r = [] \<or> \<not> is_digit (hd r) then None
         else Some (if neg then - e else e, CHR ''_'' \<in> set run,
                    dropWhile (\<lambda>c. is_digit c \<or> c = CHR ''_'') r))"

datatype last_seen = Begin | Digit | Underscore | Other

fun underscores_from :: "bool \<Rightarrow> last_seen \<Rightarrow> string \<Rightarrow> bool" where
  "underscores_from hex saw [] = (saw \<noteq> Underscore)"
| "underscores_from hex saw (c # s) =
     (if is_digit c \<or> hex \<and> unhex c \<noteq> None then underscores_from hex Digit s
      else if c = CHR ''_'' then saw = Digit \<and> underscores_from hex Underscore s
      else saw \<noteq> Underscore \<and> underscores_from hex Other s)"

definition base_prefix :: "string \<Rightarrow> bool" where
  "base_prefix s \<longleftrightarrow> length s \<ge> 2 \<and> hd s = CHR ''0'' \<and> s ! 1 \<in> set ''bBoOxX''"

definition underscoreOK :: "string \<Rightarrow> bool" where
  "underscoreOK s =
     (let r = snd (strip_sign s)
      in if base_prefix r then underscores_from (r ! 1 \<in> set ''xX'') Digit (drop 2 r)
         else underscores_from False Begin r)"

definition hex_prefix :: "string \<Rightarrow> bool" where
  "hex_prefix s \<longleftrightarrow> length s > 2 \<and> hd s = CHR ''0'' \<and> s ! 1 \<in> set ''xX''"

definition readFloat :: "string \<Rightarrow> rat option" where
  "readFloat s =
     (let (neg, r) = strip_sign s;
          hex = hex_prefix r;
          (m, dot, dig, us, t) = scan_mant hex 0 None False False (if hex then drop 2 r else r);
          frac = (case dot of None \<Rightarrow> 0 | Some k \<Rightarrow> int k);
          has_exp = (t \<noteq> [] \<and> hd t \<in> set (if hex then ''pP'' else ''eE''))
      in if \<not> dig then None
         else case (if has_exp then scan_exp (tl t) else if hex then None else Some (0, False, t)) of
           None \<Rightarrow> None
         | Some (e, eus, rest) \<Rightarrow>
             (if (us \<or> eus) \<and> \<not> underscoreOK s then None
              else if rest \<noteq> [] then None
              else Some ((if neg then -1 else 1) * of_nat m
                         * (if hex then 2 powi (e - 4 * frac) else 10 powi (e - frac)))))"

definition f64_inf :: rat where "f64_inf = 2 ^ 1024"

definition ParseFloat :: "string \<Rightarrow> rat option" where
  "ParseFloat s = (case readFloat s of
      None \<Rightarrow> None
    | Some q \<Rightarrow> if \<bar>f64 q\<bar> < f64_inf then Some (f64 q) else None)"

subsection \<open>Rendering a floating point number\<close>

text \<open>
  \<open>FormatFloat (x, 'f', -1)\<close> of a non-negative \<open>float64\<close>: the fewest decimal digits that round to \<open>x\<close>, the nearest
  such decimal, written without an exponent.  A \<open>float64\<close> never needs more than 17 digits.
\<close>

definition dec_point :: "rat \<Rightarrow> int" where
  "dec_point x = (case quotient_of x of
     (a, b) \<Rightarrow> let e = int (length (dec (nat a))) - int (length (dec (nat b)))
              in if 10 powi e \<le> x then e + 1 else e)"

definition shortest_at :: "rat \<Rightarrow> nat \<Rightarrow> (nat \<times> int) option" where
  "shortest_at x n =
     (let k = dec_point x - int n;
          lo = \<lfloor>x / 10 powi k\<rfloor>;
          dn = (f64 (of_int lo * 10 powi k) = x);
          up = (f64 (of_int (lo + 1) * 10 powi k) = x)
      in if dn \<and> (\<not> up \<or> round_even (x / 10 powi k) = lo) then Some (nat lo, k)
         else if up then Some (nat (lo + 1), k) else None)"

definition shortest :: "rat \<Rightarrow> nat \<times> int" where
  "shortest x =
     (case List.find (\<lambda>n. shortest_at x n \<noteq> None) [1..<18] of
        Some n \<Rightarrow> the (shortest_at x n)
      | None \<Rightarrow> (nat (round_even (x / 10 powi (dec_point x - 17))), dec_point x - 17))"

definition point :: "string \<Rightarrow> string" where
  "point fr = (if fr = [] then [] else CHR ''.'' # fr)"

definition FormatFloat :: "rat \<Rightarrow> string" where
  "FormatFloat x =
     (if x = 0 then ''0''
      else if x \<ge> f64_inf then ''+Inf''
      else case shortest x of
        (d, k) \<Rightarrow>
          if k \<ge> 0 then dec (d * 10 ^ nat k)
          else let w = nat (- k) in dec (d div 10 ^ w) @ point (trim_zeros (fixed w (d mod 10 ^ w))))"

text \<open>\<open>%.1f\<close>: the exact value rounded to one decimal, ties to even.\<close>

definition fmt_1f :: "rat \<Rightarrow> string" where
  "fmt_1f x = (let r = nat (round_even (x * 10)) in dec (r div 10) @ ''.'' @ dec (r mod 10))"

subsection \<open>Spans\<close>

definition Hour :: duration where "Hour = 3600000000000"
definition Minute :: duration where "Minute = 60000000000"
definition Second :: duration where "Second = 1000000000"
definition Day :: duration where "Day = 24 * Hour"
definition Week :: duration where "Week = 7 * Day"

definition isMantissaByte :: "char \<Rightarrow> bool" where
  "isMantissaByte c \<longleftrightarrow> is_digit c \<or> c = CHR ''.''"

definition unit_hours :: "string \<Rightarrow> rat option" where
  "unit_hours u = (if u = ''d'' then Some (of_int (Day div Hour))
                   else if u = ''w'' then Some (of_int (Week div Hour)) else None)"

text \<open>One turn of the scanner: a mantissa, a unit, and the rest.\<close>

definition split_term :: "string \<Rightarrow> string \<times> string \<times> string" where
  "split_term s = (let r = dropWhile isMantissaByte s
                   in (takeWhile isMantissaByte s, takeWhile (\<lambda>c. \<not> isMantissaByte c) r,
                       dropWhile (\<lambda>c. \<not> isMantissaByte c) r))"

lemma split_term_shorter: "split_term s = (m, u, r) \<Longrightarrow> s \<noteq> [] \<Longrightarrow> length r < length s"
proof -
  assume s: "split_term s = (m, u, r)" "s \<noteq> []"
  define t where "t = dropWhile isMantissaByte s"
  have r: "r = dropWhile (\<lambda>c. \<not> isMantissaByte c) t" using s by (simp add: split_term_def Let_def t_def)
  show ?thesis
  proof (cases "isMantissaByte (hd s)")
    case True
    then have "length t < length s"
      using s(2) by (cases s) (simp_all add: t_def le_imp_less_Suc length_dropWhile_le)
    then show ?thesis using length_dropWhile_le [of _ t] unfolding r by (metis le_less_trans)
  next
    case False
    then have "t = s" using s(2) by (cases s) (simp_all add: t_def)
    then show ?thesis unfolding r using False s(2)
      by (cases s) (simp_all add: le_imp_less_Suc length_dropWhile_le)
  qed
qed

text \<open>The rewriting of day and week terms into hours; no result when a mantissa is malformed.\<close>

function rewrite_terms :: "string \<Rightarrow> string option" where
  "rewrite_terms s =
     (if s = [] then Some []
      else case split_term s of (mantissa, unit, rest) \<Rightarrow>
        (case unit_hours unit of
           None \<Rightarrow> map_option (\<lambda>t. mantissa @ unit @ t) (rewrite_terms rest)
         | Some hours \<Rightarrow>
             (case ParseFloat mantissa of
                None \<Rightarrow> None
              | Some f \<Rightarrow> map_option (\<lambda>t. FormatFloat (f64 (f * hours)) @ ''h'' @ t) (rewrite_terms rest))))"
  by pat_completeness auto
termination
  by (relation "measure length") (auto dest: split_term_shorter [OF sym])

declare rewrite_terms.simps [simp del]

definition sign_prefix :: "string \<Rightarrow> string \<times> string" where
  "sign_prefix s = (case s of c # r \<Rightarrow> (if c = CHR ''-'' \<or> c = CHR ''+'' then ([c], r) else ([], s))
                    | [] \<Rightarrow> ([], []))"

definition std_duration :: "string \<Rightarrow> err + duration" where
  "std_duration s = (case ParseDuration s of None \<Rightarrow> Inl (Wrapf (''time: invalid duration '' @ s) [])
                     | Some d \<Rightarrow> Inr d)"

definition units_ParseDuration :: "string \<Rightarrow> err + duration" where
  "units_ParseDuration s =
     (let t = TrimSpace s
      in if set t \<inter> set ''dw'' = {} then std_duration t
         else case sign_prefix t of (sign, rest) \<Rightarrow>
           (case rewrite_terms rest of
              None \<Rightarrow> Inl (Wrapf (''invalid duration '' @ s) [])
            | Some w \<Rightarrow> std_duration (sign @ w)))"

definition units_Duration :: "duration \<Rightarrow> string" where
  "units_Duration d =
     (if d \<ge> Week then dec (nat (d div Week)) @ ''w''
      else if d \<ge> Day then dec (nat (d div Day)) @ ''d''
      else if d \<ge> Hour then dec (nat (d div Hour)) @ ''h''
      else if d \<ge> Minute then dec (nat (d div Minute)) @ ''m''
      else if d \<ge> Second then dec (nat (d div Second)) @ ''s''
      else ''0s'')"

subsection \<open>Sizes\<close>

definition TrimSuffix :: "char \<Rightarrow> string \<Rightarrow> string" where
  "TrimSuffix c s = (if s \<noteq> [] \<and> last s = c then butlast s else s)"

definition unit_mult :: "char \<Rightarrow> int" where
  "unit_mult c =
     (if c \<in> set ''Kk'' then 2 ^ 10 else if c \<in> set ''Mm'' then 2 ^ 20 else if c \<in> set ''Gg'' then 2 ^ 30
      else if c \<in> set ''Tt'' then 2 ^ 40 else if c \<in> set ''Pp'' then 2 ^ 50 else if c \<in> set ''Ee'' then 2 ^ 60
      else 1)"

definition fractionalSize :: "string \<Rightarrow> int \<Rightarrow> err + int" where
  "fractionalSize mantissa mult =
     (if mult = 1 then Inl (Wrapf ''invalid size'' [])
      else case ParseFloat mantissa of
        None \<Rightarrow> Inl (Wrapf ''invalid size'' [])
      | Some f \<Rightarrow>
          (if f < 0 then Inl (Wrapf ''size must not be negative'' [])
           else let scaled = f64 (f * f64 (of_int mult))
             in if scaled < 2 ^ 63 then Inr \<lfloor>scaled\<rfloor> else Inl (Wrapf ''size out of range'' [])))"

text \<open>The product is an \<open>int64\<close>: it wraps, unless the guard before it rules that out.\<close>

definition ParseSize :: "string \<Rightarrow> err + int" where
  "ParseSize s =
     (let u = TrimSpace s
      in if u = [] then Inl (Wrapf ''invalid size'' [])
         else let u = TrimSuffix (CHR ''I'') (TrimSuffix (CHR ''i'') (TrimSuffix (CHR ''b'') (TrimSuffix (CHR ''B'') u)));
                  mult = (if u = [] then 1 else unit_mult (last u));
                  u = TrimSpace (if mult \<noteq> 1 then butlast u else u)
           in if CHR ''.'' \<in> set u then fractionalSize u mult
              else case ParseInt u of
                (v, Some e) \<Rightarrow> Inl (Wrapf ''invalid size'' [])
              | (v, None) \<Rightarrow>
                  (if v < 0 then Inl (Wrapf ''size must not be negative'' [])
                   else if mult \<noteq> 1 \<and> v > (2 ^ 63 - 1) div mult then Inl (Wrapf ''size out of range'' [])
                   else Inr (sint (word_of_int v * word_of_int mult :: int64))))"

function size_scale :: "int \<Rightarrow> int \<Rightarrow> nat \<Rightarrow> int \<times> nat" where
  "size_scale x d e = (if x \<ge> 1024 then size_scale (x div 1024) (d * 1024) (e + 1) else (d, e))"
  by pat_completeness auto
termination by (relation "measure (\<lambda>(x, d, e). nat x)") auto

declare size_scale.simps [simp del]

definition units_Size :: "int \<Rightarrow> string" where
  "units_Size n =
     (if n < 1024 then FormatInt n @ ''B''
      else case size_scale (n div 1024) 1024 0 of
        (d, e) \<Rightarrow> fmt_1f (f64 (f64 (of_int n) / f64 (of_int d))) @ [''KMGTPE'' ! e] @ ''iB'')"

subsection \<open>Facts about rounding\<close>

lemma round_even_near: "\<bar>of_int (round_even y) - y\<bar> \<le> 1 / 2"
proof -
  have "of_int \<lfloor>y\<rfloor> \<le> y" "y < of_int \<lfloor>y\<rfloor> + 1" by linarith+
  then show ?thesis by (auto simp: round_even_def Let_def)
qed

lemma bitlen_rat:
  assumes "0 < n"
  shows "(2 :: rat) powi (int (bitlen n) - 1) \<le> of_nat n" and "of_nat n < (2 :: rat) powi int (bitlen n)"
proof -
  have b: "2 ^ (bitlen n - 1) \<le> n" "n < 2 ^ bitlen n" "0 < bitlen n" using bitlen_bounds [OF assms] by simp_all
  have "int (bitlen n) - 1 = int (bitlen n - 1)" using b(3) by simp
  then have "(2 :: rat) powi (int (bitlen n) - 1) = of_nat (2 ^ (bitlen n - 1))"
    by (simp only: power_int_of_nat of_nat_power) simp
  then show "(2 :: rat) powi (int (bitlen n) - 1) \<le> of_nat n" using b(1) by (simp only: of_nat_le_iff)
  have "(2 :: rat) powi int (bitlen n) = of_nat (2 ^ bitlen n)"
    by (simp only: power_int_of_nat of_nat_power) simp
  then show "of_nat n < (2 :: rat) powi int (bitlen n)" using b(2) by (simp only: of_nat_less_iff)
qed

lemma f64_exp_bounds:
  assumes "1 / 2 \<le> q"
  shows "\<exists>m. f64_exp q = m - 52 \<and> - 1 \<le> m \<and> 2 powi m \<le> q \<and> q < 2 powi (m + 1)"
proof -
  obtain a b where ab: "quotient_of q = (a, b)" by (cases "quotient_of q")
  have b: "0 < b" using quotient_of_denom_pos [OF ab] .
  have q: "q = of_int a / of_int b" using quotient_of_div [OF ab] .
  have a: "0 < a"
  proof (rule ccontr)
    assume "\<not> 0 < a"
    then have "q \<le> 0" using b unfolding q by (simp add: divide_nonpos_pos)
    then show False using assms by simp
  qed
  let ?A = "of_nat (nat a) :: rat" and ?B = "of_nat (nat b) :: rat"
  have q': "q = ?A / ?B" using a b q by simp
  have A: "2 powi (int (bitlen (nat a)) - 1) \<le> ?A" "?A < 2 powi int (bitlen (nat a))"
    using bitlen_rat [of "nat a"] a by simp_all
  have B: "2 powi (int (bitlen (nat b)) - 1) \<le> ?B" "?B < 2 powi int (bitlen (nat b))" "0 < ?B"
    using bitlen_rat [of "nat b"] b by simp_all
  define e where "e = int (bitlen (nat a)) - int (bitlen (nat b))"
  have split: "(2 :: rat) powi (i - j) = 2 powi i / 2 powi j" for i j by (rule power_int_diff) simp
  have lo: "2 powi (e - 1) \<le> q"
  proof -
    have "e - 1 = (int (bitlen (nat a)) - 1) - int (bitlen (nat b))" by (simp add: e_def)
    then have "(2 :: rat) powi (e - 1) = 2 powi (int (bitlen (nat a)) - 1) / 2 powi int (bitlen (nat b))"
      by (simp only: split)
    also have "\<dots> \<le> ?A / ?B" using A B by (intro frac_le) simp_all
    finally show ?thesis unfolding q' .
  qed
  have hi: "q < 2 powi (e + 1)"
  proof -
    have e1: "e + 1 = int (bitlen (nat a)) - (int (bitlen (nat b)) - 1)" by (simp add: e_def)
    have "?A / ?B < 2 powi int (bitlen (nat a)) / 2 powi (int (bitlen (nat b)) - 1)"
      using A B by (intro frac_less) simp_all
    also have "\<dots> = (2 :: rat) powi (e + 1)" unfolding e1 by (simp only: split)
    finally show ?thesis unfolding q' .
  qed
  define m where "m = (if 2 powi e \<le> q then e else e - 1)"
  have m: "2 powi m \<le> q" "q < 2 powi (m + 1)" using lo hi by (auto simp: m_def not_le)
  have "\<not> m + 1 \<le> - 1"
  proof
    assume "m + 1 \<le> - 1"
    then have "(2 :: rat) powi (m + 1) \<le> 2 powi - 1" by (intro power_int_increasing) simp_all
    then show False using m(2) assms by simp
  qed
  then have "- 1 \<le> m" by simp
  moreover have "f64_exp q = max (- 1074) (m - 52)" by (simp add: f64_exp_def ab Let_def m_def e_def)
  then have "f64_exp q = m - 52" using \<open>- 1 \<le> m\<close> by simp
  ultimately show ?thesis using m by blast
qed

lemma f64_near:
  assumes "1 / 2 \<le> q"
  shows "\<bar>f64 q - q\<bar> \<le> q / 2 ^ 53"
proof -
  obtain m where m: "f64_exp q = m - 52" "2 powi m \<le> q" using f64_exp_bounds [OF assms] by blast
  define u where "u = (2 :: rat) powi (m - 52)"
  have u: "0 < u" "u * 2 ^ 52 = 2 powi m"
    by (simp add: u_def) (simp add: u_def power_int_diff)
  have f: "f64 q = of_int (round_even (q / u)) * u" using assms by (simp add: f64_def m(1) u_def)
  have "f64 q - q = (of_int (round_even (q / u)) - q / u) * u" unfolding f using u(1) by (simp add: algebra_simps)
  then have "\<bar>f64 q - q\<bar> = \<bar>of_int (round_even (q / u)) - q / u\<bar> * u" using u(1) by (simp add: abs_mult)
  also have "\<dots> \<le> 1 / 2 * u" using round_even_near u(1) by (intro mult_right_mono) simp_all
  also have "\<dots> = 2 powi m / 2 ^ 53" unfolding u(2) [symmetric] by simp
  also have "\<dots> \<le> q / 2 ^ 53" using m(2) by (intro divide_right_mono) simp_all
  finally show ?thesis .
qed

lemma f64_bounds:
  assumes "1 / 2 \<le> q"
  shows "q - q / 9007199254740992 \<le> f64 q" and "f64 q \<le> q + q / 9007199254740992"
  using f64_near [OF assms] unfolding abs_le_iff by simp_all

lemma f64_power: "f64 (2 ^ j) = 2 ^ j"
proof -
  have one: "(1 :: rat) \<le> 2 ^ j" by simp
  then have half: "(1 / 2 :: rat) \<le> 2 ^ j" by linarith
  obtain m where m: "f64_exp (2 ^ j) = m - 52" "- 1 \<le> m" "(2 :: rat) powi m \<le> 2 ^ j" "(2 :: rat) ^ j < 2 powi (m + 1)"
    using f64_exp_bounds [OF half] by blast
  have "\<not> (2 :: rat) ^ j < 1" using one by (simp only: not_less)
  then have "m \<noteq> - 1" using m(4) by auto
  then have "0 \<le> m" using m(2) by linarith
  then obtain k where k: "m = int k" using nonneg_int_cases by blast
  have "(2 :: rat) ^ k \<le> 2 ^ j" using m(3) unfolding k by simp
  then have "k \<le> j" by (simp add: power_increasing_iff)
  moreover have "int k + 1 = int (Suc k)" by simp
  then have "(2 :: rat) ^ j < 2 ^ Suc k" using m(4) unfolding k by (simp only: power_int_of_nat)
  then have "j < Suc k" by (simp only: power_strict_increasing_iff)
  ultimately have e: "f64_exp (2 ^ j) = int j - 52" using m(1) k by simp
  have "(2 :: rat) ^ j / 2 powi (int j - 52) = of_int (2 ^ 52)" by (simp add: power_int_diff)
  then have "round_even ((2 :: rat) ^ j / 2 powi (int j - 52)) = 2 ^ 52" by (simp only: round_even_int)
  then show ?thesis by (simp add: f64_def e power_int_diff)
qed

subsection \<open>Facts about strings\<close>

definition plain_char :: "char \<Rightarrow> bool" where
  "plain_char c \<longleftrightarrow> 32 < (of_char c :: nat) \<and> (of_char c :: nat) < 128"

lemma spaces_edges: "list_all (\<lambda>p. \<not> plain_char (hd p) \<and> \<not> plain_char (last p)) spaces"
  by code_simp

lemma spaces_none: "s = [] \<or> plain_char (hd s) \<Longrightarrow> list_all (\<lambda>p. \<not> plain_char (hd p)) ps \<Longrightarrow> trim_with ps s = s"
proof -
  assume s: "s = [] \<or> plain_char (hd s)" and ps: "list_all (\<lambda>p. \<not> plain_char (hd p)) ps"
  have "\<not> (p \<noteq> [] \<and> take (length p) s = p)" if "p \<in> set ps" for p
  proof
    assume p: "p \<noteq> [] \<and> take (length p) s = p"
    then have "s \<noteq> []" by auto
    then have "hd p = hd s" using p by (metis hd_take length_greater_0_conv)
    then show False using s \<open>s \<noteq> []\<close> ps that by (auto simp: list_all_iff)
  qed
  then have "List.find (\<lambda>p. p \<noteq> [] \<and> take (length p) s = p) ps = None" by (auto simp: find_None_iff)
  then show ?thesis by (subst trim_with.simps) simp
qed

lemma TrimSpace_plain:
  assumes "s = [] \<or> plain_char (hd s) \<and> plain_char (last s)"
  shows "TrimSpace s = s"
proof -
  have "list_all (\<lambda>p. \<not> plain_char (hd p)) (map rev spaces)"
    using spaces_edges by (auto simp: list_all_iff hd_rev)
  moreover have "list_all (\<lambda>p. \<not> plain_char (hd p)) spaces" using spaces_edges by (simp add: list_all_iff)
  ultimately show ?thesis using assms by (auto simp: TrimSpace_def spaces_none hd_rev)
qed

lemma digit_plain: "is_digit c \<Longrightarrow> plain_char c"
  by (simp add: is_digit_def plain_char_def)

lemma dec_last: "is_digit (last (dec n))"
  using dec_digits [of n] by (metis dec_ne last_in_set list_all_iff)

lemma dec_set: "c \<in> set (dec n) \<Longrightarrow> is_digit c"
  using dec_digits [of n] by (simp add: list_all_iff)

lemma strip_sign_dec [simp]: "strip_sign (dec n @ r) = (False, dec n @ r)"
  using dec_hd [of n] digit_not_sign [OF dec_hd [of n]] by (cases "dec n") (auto simp: strip_sign_def)

lemma scan_mant_digits:
  assumes "list_all is_digit ds"
  shows "scan_mant False m dot dig us (ds @ r) =
    scan_mant False (m * 10 ^ length ds + dec_val ds) (map_option (\<lambda>k. k + length ds) dot) (dig \<or> ds \<noteq> []) us r"
  using assms
proof (induction ds arbitrary: m dot dig)
  case Nil
  then show ?case by (cases dot) simp_all
next
  case (Cons c ds)
  then have c: "is_digit c" "c \<noteq> CHR ''_''" "c \<noteq> CHR ''.''" by (auto simp: is_digit_def)
  have v: "dec_val (c # ds) = digit_val c * 10 ^ length ds + dec_val ds"
    using dec_val_append [of "[c]" ds] dec_val_snoc [of "[]" c] by simp
  show ?case using c Cons by (cases dot) (simp_all add: v algebra_simps)
qed

lemma hex_prefix_digit: "list_all is_digit (take 2 s) \<or> length s \<ge> 2 \<and> s ! 1 = CHR ''.'' \<Longrightarrow> \<not> hex_prefix s"
  by (cases s; cases "tl s") (auto simp: hex_prefix_def is_digit_def)

lemma readFloat_dec: "readFloat (dec n) = Some (of_nat n)"
proof -
  have "list_all is_digit (take 2 (dec n))"
    using dec_digits [of n] by (auto simp: list_all_iff dest: in_set_takeD)
  then have h: "\<not> hex_prefix (dec n)" by (simp add: hex_prefix_digit)
  show ?thesis
    using h scan_mant_digits [OF dec_digits, of 0 None False False n "[]"] strip_sign_dec [of n "[]"]
    by (simp add: readFloat_def Let_def)
qed

lemma ParseFloat_dec:
  assumes "n < 2 ^ 53"
  shows "ParseFloat (dec n) = Some (of_nat n)"
proof -
  have "(of_nat n :: rat) < of_nat (2 ^ 53)" using assms by (simp only: of_nat_less_iff)
  then show ?thesis using f64_int [OF assms]
    by (simp add: ParseFloat_def readFloat_dec f64_inf_def order_less_le_trans)
qed

subsection \<open>Whole numbers are rendered as they are\<close>

lemma dec_length: "0 < n \<Longrightarrow> 10 ^ (length (dec n) - 1) \<le> n \<and> n < 10 ^ length (dec n)"
proof (induction n rule: dec.induct)
  case (1 n)
  show ?case
  proof (cases "n < 10")
    case True
    then show ?thesis using 1(2) by (simp add: dec.simps)
  next
    case False
    let ?k = "length (dec (n div 10))"
    have ih: "10 ^ (?k - 1) \<le> n div 10" "n div 10 < 10 ^ ?k" using 1 False by simp_all
    have l: "length (dec n) = Suc ?k" using False by (simp add: dec.simps [of n])
    obtain j where j: "?k = Suc j" using dec_ne [of "n div 10"] by (cases ?k) simp_all
    show ?thesis using ih unfolding l j by auto
  qed
qed

lemma dec_point_nat:
  assumes "0 < N"
  shows "dec_point (of_nat N) = int (length (dec N))"
proof -
  let ?l = "length (dec N)"
  have b: "10 ^ (?l - 1) \<le> N" "N < 10 ^ ?l" "0 < ?l" using dec_length [OF assms] by simp_all
  have "(of_nat N :: rat) = Fract (int N) 1" using of_int_rat [of "int N"] by simp
  then have q: "quotient_of (of_nat N) = (int N, 1)" by (simp add: quotient_of_Fract Rat.normalize_def)
  have one: "length (dec 1) = 1" by (simp add: dec.simps)
  have "int ?l - 1 = int (?l - 1)" using b(3) by linarith
  then have "(10 :: rat) powi (int ?l - 1) = of_nat (10 ^ (?l - 1))"
    by (simp only: power_int_of_nat of_nat_power) simp
  then have "(10 :: rat) powi (int ?l - 1) \<le> of_nat N" using b(1) by (simp only: of_nat_le_iff)
  then show ?thesis using one by (simp add: dec_point_def q Let_def)
qed

text \<open>A candidate with no digit behind the point is itself a whole number, and so exact.\<close>

lemma shortest_at_nat:
  assumes "0 < N" and "N < 10 ^ 15" and "n \<le> length (dec N)" and "shortest_at (of_nat N) n = Some (d, k)"
  shows "0 \<le> k \<and> d * 10 ^ nat k = N"
proof -
  let ?l = "length (dec N)"
  have b: "N < 10 ^ ?l" "10 ^ (?l - 1) \<le> N" using dec_length [OF assms(1)] by simp_all
  define j where "j = ?l - n"
  have k: "dec_point (of_nat N) - int n = int j" using assms(3) by (simp add: dec_point_nat [OF assms(1)] j_def)
  have fl: "\<lfloor>(of_nat N :: rat) / 10 powi int j\<rfloor> = int (N div 10 ^ j)"
    by (simp add: floor_divide_of_nat_eq [symmetric] power_int_of_nat)
       (metis floor_divide_of_nat_eq of_nat_numeral of_nat_power)
  have "?l \<le> 15"
  proof -
    have "(10 :: nat) ^ (?l - 1) < 10 ^ 15" using b(2) assms(2) by (rule le_less_trans)
    then have "?l - 1 < 15" by (simp only: power_strict_increasing_iff)
    then show ?thesis by simp
  qed
  have lo: "N div 10 ^ j * 10 ^ j \<le> N" by simp
  have up: "(N div 10 ^ j + 1) * 10 ^ j \<le> 10 ^ 15"
  proof -
    have "N div 10 ^ j < 10 ^ n"
    proof -
      have "N < 10 ^ n * 10 ^ j" using b(1) assms(3) by (simp add: j_def power_add [symmetric])
      then show ?thesis by (simp add: less_mult_imp_div_less)
    qed
    then have "(N div 10 ^ j + 1) * 10 ^ j \<le> 10 ^ n * 10 ^ j" by (intro mult_right_mono) simp_all
    also have "\<dots> = 10 ^ ?l" using assms(3) by (simp add: j_def power_add [symmetric])
    also have "\<dots> \<le> 10 ^ 15" using \<open>?l \<le> 15\<close> by (intro power_increasing) simp_all
    finally show ?thesis .
  qed
  have ex: "f64 (of_int (int c) * 10 powi int j) = of_nat (c * 10 ^ j)" if "c * 10 ^ j \<le> 10 ^ 15" for c
  proof -
    have "of_int (int c) * (10 :: rat) powi int j = of_nat (c * 10 ^ j)" by (simp add: power_int_of_nat)
    moreover have "c * 10 ^ j < 2 ^ 53" using that by (rule order_le_less_trans) simp
    ultimately show ?thesis using f64_int by metis
  qed
  have e1: "f64 (of_int (int (N div 10 ^ j)) * 10 powi int j) = of_nat (N div 10 ^ j * 10 ^ j)"
    by (rule ex) (use lo assms(2) in linarith)
  have e2: "f64 (of_int (int (N div 10 ^ j) + 1) * 10 powi int j) = of_nat ((N div 10 ^ j + 1) * 10 ^ j)"
    using ex [OF up] by (simp add: add.commute)
  have "d * 10 ^ j = N \<and> k = int j"
    using assms(4) unfolding shortest_at_def k Let_def fl e1 e2 of_nat_eq_iff
    by (auto split: if_splits simp: nat_add_distrib)
  then show ?thesis by simp
qed

lemma FormatFloat_nat:
  assumes "N < 10 ^ 15"
  shows "FormatFloat (of_nat N) = dec N"
proof (cases "N = 0")
  case True
  have "dec 0 = ''0''" by code_simp
  then show ?thesis using True by (simp add: FormatFloat_def)
next
  case False
  then have N: "0 < N" by simp
  let ?x = "of_nat N :: rat" and ?l = "length (dec N)"
  have small: "?x < 2 ^ 1024"
  proof -
    have "?x < of_nat (10 ^ 15)" using assms by (simp only: of_nat_less_iff)
    then show ?thesis by (rule less_trans) simp
  qed
  have "?l \<le> 15"
  proof -
    have "(10 :: nat) ^ (?l - 1) < 10 ^ 15" using dec_length [OF N] assms by linarith
    then have "?l - 1 < 15" by (simp only: power_strict_increasing_iff)
    then show ?thesis by simp
  qed
  moreover have "0 < ?l" by simp
  ultimately have mem: "?l \<in> set [1..<18]" unfolding set_upt atLeastLessThan_iff by linarith
  have "N < 2 ^ 53" using assms by (rule less_trans) simp
  then have some: "shortest_at ?x ?l \<noteq> None"
    using f64_int [of N] by (simp add: shortest_at_def dec_point_nat [OF N] Let_def)
  then obtain n where n: "List.find (\<lambda>n. shortest_at ?x n \<noteq> None) [1..<18] = Some n"
    using mem by (cases "List.find (\<lambda>n. shortest_at ?x n \<noteq> None) [1..<18]") (auto simp: find_None_iff)
  then obtain i where i: "i < length [1..<18]" "shortest_at ?x ([1..<18] ! i) \<noteq> None" "n = [1..<18] ! i"
      "\<forall>j < i. \<not> shortest_at ?x ([1..<18] ! j) \<noteq> None"
    unfolding find_Some_iff by blast
  have "n \<le> ?l"
  proof (rule ccontr)
    assume "\<not> n \<le> ?l"
    moreover have "n = Suc i" using i(1,3) by simp
    ultimately have "?l - 1 < i" using dec_ne [of N] by (cases "dec N") simp_all
    moreover have "[1..<18] ! (?l - 1) = ?l" using \<open>?l \<le> 15\<close> dec_ne [of N] by (cases "dec N") simp_all
    ultimately have "?l - 1 < i" "[1..<18] ! (?l - 1) = ?l" by blast+
    then show False using i(4) some by auto
  qed
  obtain d k where dk: "shortest_at ?x n = Some (d, k)" using i by (cases "shortest_at ?x n") auto
  have "0 \<le> k \<and> d * 10 ^ nat k = N" by (rule shortest_at_nat [OF N assms \<open>n \<le> ?l\<close> dk])
  moreover have "shortest ?x = (d, k)" unfolding shortest_def n option.case dk option.sel ..
  ultimately show ?thesis using N small by (simp add: FormatFloat_def f64_inf_def not_le)
qed

subsection \<open>Spans in human units\<close>

text \<open>A spelling is a list of terms, a whole number and a unit each; its value is their sum.\<close>

type_synonym terms = "(nat \<times> string) list"

definition human_unit :: "string \<Rightarrow> nat option" where
  "human_unit u = (if u = ''d'' then Some (nat Day) else if u = ''w'' then Some (nat Week) else unitMap u)"

definition spell :: "terms \<Rightarrow> string" where
  "spell ts = concat (map (\<lambda>(n, u). dec n @ u) ts)"

definition span_value :: "terms \<Rightarrow> nat" where
  "span_value ts = sum_list (map (\<lambda>(n, u). n * the (human_unit u)) ts)"

definition in_hours :: "nat \<times> string \<Rightarrow> nat \<times> string" where
  "in_hours t = (if snd t = ''d'' then (fst t * 24, ''h'') else if snd t = ''w'' then (fst t * 168, ''h'') else t)"

lemma isMantissaByte_num [simp]: "isMantissaByte = num_char"
  by (auto simp: isMantissaByte_def num_char_def fun_eq_iff)

lemma human_unit_text:
  assumes "human_unit u = Some U"
  shows "u \<noteq> []" and "list_all (\<lambda>c. \<not> num_char c) u" and "plain_char (last u)" and "0 < U"
proof -
  have units: "list_all (\<lambda>u. u \<noteq> [] \<and> list_all (\<lambda>c. \<not> num_char c) u \<and> plain_char (last u))
      [''d'', ''w'', ''ns'', ''us'', micro, micro_greek, ''ms'', ''s'', ''m'', ''h'']"
    by code_simp
  have "u \<in> set [''d'', ''w'', ''ns'', ''us'', micro, micro_greek, ''ms'', ''s'', ''m'', ''h'']"
    using assms by (auto simp: human_unit_def unitMap_def split: if_splits)
  then show "u \<noteq> []" "list_all (\<lambda>c. \<not> num_char c) u" "plain_char (last u)"
    using units unfolding list_all_iff by blast+
  show "0 < U" using assms
    by (auto simp: human_unit_def unitMap_def Day_def Week_def Hour_def split: if_splits)
qed

lemma spell_simps [simp]: "spell [] = []" "spell (t # ts) = dec (fst t) @ snd t @ spell ts"
  by (simp_all add: spell_def case_prod_beta)

lemma span_value_simps [simp]:
  "span_value [] = 0" "span_value (t # ts) = fst t * the (human_unit (snd t)) + span_value ts"
  by (simp_all add: span_value_def case_prod_beta)

lemma spell_start: "spell ts = [] \<or> num_char (hd (spell ts))"
  by (cases ts) (use num_char_dec in auto)

lemma split_term_spell:
  assumes "human_unit u = Some U"
  shows "split_term (dec n @ u @ spell ts) = (dec n, u, spell ts)"
proof -
  have d: "list_all num_char (dec n)" using dec_digits [of n] by (auto simp: list_all_iff num_char_def)
  note u = human_unit_text [OF assms]
  have t: "takeWhile num_char (dec n @ u @ r) = dec n" "dropWhile num_char (dec n @ u @ r) = u @ r" for r
    using d u(1,2) by (cases u; auto simp: list_all_iff takeWhile_tail)+
  have "takeWhile (\<lambda>c. \<not> num_char c) (u @ spell ts) = u" "dropWhile (\<lambda>c. \<not> num_char c) (u @ spell ts) = spell ts"
    using u(2) spell_start [of ts] by (cases "spell ts"; auto simp: list_all_iff)+
  then show ?thesis using t by (simp add: split_term_def Let_def)
qed

lemma in_hours_value:
  assumes "human_unit (snd t) = Some U"
  shows "unitMap (snd (in_hours t)) = human_unit (snd (in_hours t))"
    and "fst (in_hours t) * the (human_unit (snd (in_hours t))) = fst t * U"
proof -
  have h: "unitMap ''h'' = Some 3600000000000" "human_unit ''h'' = Some 3600000000000"
      "human_unit ''d'' = Some 86400000000000" "human_unit ''w'' = Some 604800000000000"
    by (simp_all add: human_unit_def unit_facts Day_def Week_def Hour_def)
  consider "snd t = ''d''" | "snd t = ''w''" | "snd t \<noteq> ''d''" "snd t \<noteq> ''w''" by blast
  then have "unitMap (snd (in_hours t)) = human_unit (snd (in_hours t))
    \<and> fst (in_hours t) * the (human_unit (snd (in_hours t))) = fst t * U"
  proof cases
    case 3
    then have "human_unit (snd t) = unitMap (snd t)" by (simp add: human_unit_def)
    then have "unitMap (snd t) = Some U" using assms by simp
    then show ?thesis using 3 assms by (simp add: in_hours_def)
  qed (use assms h in \<open>simp_all add: in_hours_def\<close>)
  then show "unitMap (snd (in_hours t)) = human_unit (snd (in_hours t))"
    and "fst (in_hours t) * the (human_unit (snd (in_hours t))) = fst t * U" by simp_all
qed

lemma rewrite_terms_spell:
  assumes "\<forall>t \<in> set ts. human_unit (snd t) \<noteq> None" and "span_value ts < 2 ^ 63"
  shows "rewrite_terms (spell ts) = Some (spell (map in_hours ts))"
  using assms
proof (induction ts)
  case Nil
  then show ?case by (simp add: rewrite_terms.simps)
next
  case (Cons t ts)
  obtain n u where t: "t = (n, u)" by (cases t)
  obtain U where U: "human_unit u = Some U" using Cons(2) by (auto simp: t)
  have v: "n * U + span_value ts < 2 ^ 63" using Cons(3) by (simp add: t U)
  have ih: "rewrite_terms (spell ts) = Some (spell (map in_hours ts))"
    using Cons(1,2) v by simp
  have ne: "dec n @ u @ spell ts \<noteq> []" by simp
  have hour: "unit_hours u = (if u = ''d'' then Some (of_nat 24) else if u = ''w'' then Some (of_nat 168) else None)"
    by (simp add: unit_hours_def Day_def Week_def Hour_def)
  have conv: "FormatFloat (f64 (of_nat n * of_nat k)) = dec (n * k)" "ParseFloat (dec n) = Some (of_nat n)"
    if "k \<le> 168" "n < 200000" for k
  proof -
    have "n * k \<le> n * 168" using that(1) by simp
    also have "\<dots> < 10 ^ 15" using that(2) by simp
    finally have k: "n * k < 10 ^ 15" .
    then have "n * k < 2 ^ 53" by (rule less_trans) simp
    then show "FormatFloat (f64 (of_nat n * of_nat k)) = dec (n * k)"
      using FormatFloat_nat [OF k] f64_int by (metis of_nat_mult)
    show "ParseFloat (dec n) = Some (of_nat n)" by (rule ParseFloat_dec) (use that(2) in simp)
  qed
  consider "u = ''d''" | "u = ''w''" | "u \<noteq> ''d''" "u \<noteq> ''w''" by blast
  then show ?case
  proof cases
    case 1
    then have "U = 86400000000000" using U by (simp add: human_unit_def Day_def Hour_def)
    then have "n < 200000" using v by simp
    then show ?thesis
      using conv [of 24] ih hour 1 split_term_spell [OF U, of n ts]
      unfolding t by (subst rewrite_terms.simps) (simp add: in_hours_def)
  next
    case 2
    then have "U = 604800000000000" using U by (simp add: human_unit_def Week_def Day_def Hour_def)
    then have "n < 200000" using v by simp
    then show ?thesis
      using conv [of 168] ih hour 2 split_term_spell [OF U, of n ts]
      unfolding t by (subst rewrite_terms.simps) (simp add: in_hours_def)
  next
    case 3
    then show ?thesis
      using ih hour split_term_spell [OF U, of n ts]
      unfolding t by (subst rewrite_terms.simps) (simp add: in_hours_def)
  qed
qed

lemma in_hours_known: "human_unit (snd t) = Some U \<Longrightarrow> \<exists>V. unitMap (snd (in_hours t)) = Some V"
  by (auto simp: in_hours_def human_unit_def unit_facts split: if_splits)

lemma parse_terms_spell:
  assumes "\<forall>t \<in> set ts. unitMap (snd t) = human_unit (snd t) \<and> human_unit (snd t) \<noteq> None"
    and "d + span_value ts \<le> 2 ^ 63"
  shows "parse_terms d (spell ts) = Some (d + span_value ts)"
  using assms
proof (induction ts arbitrary: d)
  case (Cons t ts)
  obtain n u where t: "t = (n, u)" by (cases t)
  obtain U where U: "human_unit u = Some U" "unitMap u = Some U" using Cons(2) by (auto simp: t)
  note x = human_unit_text [OF U(1)]
  have le: "d + (n * U + 0) \<le> 2 ^ 63" using Cons(3) by (simp add: t U)
  have "parse_terms d (dec n @ [] @ u @ spell ts) = parse_terms (d + (n * U + 0)) (spell ts)"
    by (rule parse_terms_term [OF frac_ok_none, of 0, OF _ _ x(4) x(1) x(2) U(2) spell_start le]) simp_all
  moreover have "parse_terms (d + n * U) (spell ts) = Some (d + n * U + span_value ts)"
    using Cons(2,3) by (intro Cons(1)) (simp_all add: t U)
  ultimately show ?case by (simp add: t U)
qed simp

lemma span_value_in_hours:
  assumes "\<forall>t \<in> set ts. human_unit (snd t) \<noteq> None"
  shows "span_value (map in_hours ts) = span_value ts"
  using assms by (induction ts) (auto simp: in_hours_value)

lemma spell_ends:
  assumes "\<forall>t \<in> set ts. human_unit (snd t) \<noteq> None" and "ts \<noteq> []"
  shows "is_digit (hd (spell ts))" and "plain_char (last (spell ts))" and "spell ts \<noteq> ''0''"
    and "strip_sign (spell ts) = (False, spell ts)" and "sign_prefix (spell ts) = ([], spell ts)"
proof -
  obtain n u r where ts: "ts = (n, u) # r" using assms(2) by (cases ts) auto
  show d: "is_digit (hd (spell ts))" using dec_hd [of n] by (simp add: ts hd_append)
  show "plain_char (last (spell ts))"
    using assms
  proof (induction ts)
    case (Cons t ts)
    obtain U where "human_unit (snd t) = Some U" using Cons(2) by auto
    then have "snd t \<noteq> [] \<and> plain_char (last (snd t))" using human_unit_text by blast
    moreover have "ts \<noteq> [] \<Longrightarrow> spell ts \<noteq> []" by (cases ts) auto
    ultimately show ?case using Cons by (cases "ts = []") simp_all
  qed simp
  obtain U where U: "human_unit u = Some U" using assms(1) by (auto simp: ts)
  have "1 < length (spell ts)"
    using dec_ne [of n] human_unit_text(1) [OF U] by (cases "dec n"; cases u) (auto simp: ts)
  then show "spell ts \<noteq> ''0''" by auto
  obtain c s where c: "spell ts = c # s" using dec_ne [of n] by (cases "spell ts") (auto simp: ts)
  then show "strip_sign (spell ts) = (False, spell ts)" "sign_prefix (spell ts) = ([], spell ts)"
    using d digit_not_sign [of c] by (auto simp: strip_sign_def sign_prefix_def)
qed

lemma std_duration_spell:
  assumes "\<forall>t \<in> set ts. unitMap (snd t) = human_unit (snd t) \<and> human_unit (snd t) \<noteq> None" and "ts \<noteq> []"
    and "span_value ts < 2 ^ 63"
  shows "std_duration (spell ts) = Inr (int (span_value ts))"
proof -
  have k: "\<forall>t \<in> set ts. human_unit (snd t) \<noteq> None" using assms(1) by blast
  note e = spell_ends [OF k assms(2)]
  have "spell ts \<noteq> []" using assms(2) by (cases ts) auto
  then show ?thesis
    using e(3,4) parse_terms_spell [OF assms(1), of 0] assms(3) by (simp add: std_duration_def ParseDuration_def)
qed

lemma human_span_sum_fact:
  assumes "\<forall>t \<in> set ts. human_unit (snd t) \<noteq> None" and "ts \<noteq> []" and "span_value ts < 2 ^ 63"
  shows "units_ParseDuration (spell ts) = Inr (int (span_value ts))"
proof -
  note e = spell_ends [OF assms(1,2)]
  have trim: "TrimSpace (spell ts) = spell ts" using e(1,2) digit_plain by (intro TrimSpace_plain) auto
  have hours: "\<forall>t \<in> set (map in_hours ts). unitMap (snd t) = human_unit (snd t) \<and> human_unit (snd t) \<noteq> None"
  proof
    fix t
    assume "t \<in> set (map in_hours ts)"
    then obtain s where s: "s \<in> set ts" "t = in_hours s" by auto
    then obtain U where "human_unit (snd s) = Some U" using assms(1) by auto
    then show "unitMap (snd t) = human_unit (snd t) \<and> human_unit (snd t) \<noteq> None"
      using in_hours_value(1) in_hours_known unfolding s(2) by (metis option.distinct(1))
  qed
  have val: "std_duration (spell (map in_hours ts)) = Inr (int (span_value ts))"
    using std_duration_spell [OF hours] assms span_value_in_hours [OF assms(1)] by simp
  show ?thesis
  proof (cases "set (spell ts) \<inter> set ''dw'' = {}")
    case True
    have "snd t \<noteq> ''d'' \<and> snd t \<noteq> ''w''" if "t \<in> set ts" for t
    proof -
      have "set (snd t) \<subseteq> set (spell ts)" using that by (auto simp: spell_def case_prod_beta)
      then show ?thesis using True by auto
    qed
    then have "map in_hours ts = ts" by (simp add: in_hours_def map_idI)
    then show ?thesis using val True by (simp add: units_ParseDuration_def trim)
  next
    case False
    then show ?thesis
      using val rewrite_terms_spell [OF assms(1,3)] e(5) unfolding units_ParseDuration_def trim Let_def
      by (simp only: if_False prod.case option.case append_Nil)
  qed
qed



text \<open>
  C35. A span read off a listing can be typed back.  Every text \<open>Duration\<close> prints is one \<open>ParseDuration\<close>
  accepts, and it reads as the span truncated to the unit it was printed in: never more time than there
  is, less by under one unit, and what is printed for the result is the same text.
\<close>

theorem duration_reparse:
  assumes "0 \<le> d" and "d < 2 ^ 63"
  shows "\<exists>v. units_ParseDuration (units_Duration d) = Inr v \<and> v \<le> d \<and> units_Duration v = units_Duration d
    \<and> d - v < (if d \<ge> Week then Week else if d \<ge> Day then Day else if d \<ge> Hour then Hour
               else if d \<ge> Minute then Minute else Second)"
proof -
  have h: "human_unit ''w'' = Some (nat Week)" "human_unit ''d'' = Some (nat Day)"
      "human_unit ''h'' = Some (nat Hour)" "human_unit ''m'' = Some (nat Minute)"
      "human_unit ''s'' = Some (nat Second)"
    by (simp_all add: human_unit_def unit_facts Week_def Day_def Hour_def Minute_def Second_def)
  have one: "units_ParseDuration (dec (nat (d div U)) @ u) = Inr (d div U * U)
      \<and> d div U * U \<le> d \<and> d - d div U * U < U \<and> (d div U * U) div U = d div U"
    if u: "human_unit u = Some (nat U)" "0 < U" for u U
  proof -
    have le: "d div U * U \<le> d" using that(2) by (simp add: minus_mod_eq_div_mult [symmetric])
    have v: "int (nat (d div U) * nat U) = d div U * U" using assms(1) that(2) by (simp add: pos_imp_zdiv_nonneg_iff)
    have "nat (d div U) * nat U < 2 ^ 63"
      using v le assms(2) by (metis (mono_tags, lifting) le_less_trans of_nat_less_iff of_nat_numeral of_nat_power)
    then have "units_ParseDuration (spell [(nat (d div U), u)]) = Inr (int (span_value [(nat (d div U), u)]))"
      using human_span_sum_fact [of "[(nat (d div U), u)]"] by (simp add: u)
    moreover have "d - d div U * U < U" using that(2) by (simp add: minus_div_mult_eq_mod)
    ultimately show ?thesis using v le that(2) by (simp add: u)
  qed
  note pos = Week_def Day_def Hour_def Minute_def Second_def
  consider "d \<ge> Week" | "d < Week" "d \<ge> Day" | "d < Day" "d \<ge> Hour" | "d < Hour" "d \<ge> Minute"
    | "d < Minute" "d \<ge> Second" | "d < Second" by linarith
  then show ?thesis
  proof cases
    case 1
    then show ?thesis using one [OF h(1)] by (intro exI [of _ "d div Week * Week"]) (auto simp: units_Duration_def pos)
  next
    case 2
    then show ?thesis using one [OF h(2)] by (intro exI [of _ "d div Day * Day"]) (auto simp: units_Duration_def pos)
  next
    case 3
    then show ?thesis using one [OF h(3)] by (intro exI [of _ "d div Hour * Hour"]) (auto simp: units_Duration_def pos)
  next
    case 4
    then show ?thesis using one [OF h(4)] by (intro exI [of _ "d div Minute * Minute"]) (auto simp: units_Duration_def pos)
  next
    case 5
    then show ?thesis using one [OF h(5)] by (intro exI [of _ "d div Second * Second"]) (auto simp: units_Duration_def pos)
  next
    case 6
    have "dec 0 = ''0''" by code_simp
    then have "units_ParseDuration ''0s'' = Inr 0" using human_span_sum_fact [of "[(0, ''s'')]"] h(5) by simp
    then show ?thesis using 6 assms(1) by (intro exI [of _ 0]) (auto simp: units_Duration_def pos)
  qed
qed

lemma duration_reparse_witness: "\<exists>v. units_ParseDuration (units_Duration 1000000000000) = Inr v \<and> v \<le> 1000000000000"
  using duration_reparse [of 1000000000000] by auto

subsection \<open>Sizes\<close>

lemma ParseInt_range: "ParseInt s = (v, None) \<Longrightarrow> - (2 ^ 63) \<le> v \<and> v < 2 ^ 63"
  by (auto simp: ParseInt_def Let_def split: prod.splits if_splits)

lemma unit_mult_pos: "1 \<le> unit_mult c"
  by (simp add: unit_mult_def)

lemma product_fits:
  assumes "0 \<le> v" and "v \<le> (2 ^ 63 - 1) div m" and "(1 :: int) \<le> m"
  shows "sint (word_of_int v * word_of_int m :: int64) = v * m"
proof -
  have "v * m \<le> (2 ^ 63 - 1) div m * m" using assms by (intro mult_right_mono) simp_all
  also have "\<dots> \<le> 2 ^ 63 - 1" using assms(3) by (simp add: minus_mod_eq_div_mult [symmetric])
  finally have "v * m < 2 ^ 63" by simp
  moreover have "- (2 ^ 63) \<le> v * m" using assms by (smt (verit) mult_nonneg_nonneg zero_le_power)
  moreover have "word_of_int v * word_of_int m = (word_of_int (v * m) :: int64)" by (simp add: wi_hom_syms)
  ultimately show ?thesis using sint64_of_int [of "v * m"] by simp
qed


lemma size_scale_spec:
  assumes "1 \<le> x"
  shows "\<exists>k. size_scale x d e = (d * 1024 ^ k, e + k) \<and> 1024 ^ k \<le> x \<and> x < 1024 ^ (k + 1)"
  using assms
proof (induction x d e rule: size_scale.induct)
  case (1 x d e)
  show ?case
  proof (cases "x \<ge> 1024")
    case True
    then have "1 \<le> x div 1024" by simp
    then obtain k where k: "size_scale (x div 1024) (d * 1024) (e + 1) = (d * 1024 * 1024 ^ k, e + 1 + k)"
        "1024 ^ k \<le> x div 1024" "x div 1024 < 1024 ^ (k + 1)" using 1(1) True by blast
    have "1024 ^ Suc k \<le> x" "x < 1024 ^ (Suc k + 1)" using k(2,3) by simp_all
    then show ?thesis using k(1) True by (intro exI [of _ "Suc k"]) (simp add: size_scale.simps [of x])
  next
    case False
    then show ?thesis using 1(2) by (intro exI [of _ 0]) (simp add: size_scale.simps)
  qed
qed

lemma readFloat_plain:
  assumes "strip_sign s = (False, s)" and "\<not> hex_prefix s"
    and "scan_mant False 0 None False False s = (m, Some k, True, False, [])"
  shows "readFloat s = Some (of_nat m * 10 powi (- int k))"
  using assms by (simp add: readFloat_def)

lemma fmt_1f_float:
  assumes "10 \<le> r" and "r \<le> 10250"
  shows "ParseFloat (dec (r div 10) @ CHR ''.'' # dec (r mod 10)) = Some (f64 (of_nat r / 10))"
proof -
  let ?a = "r div 10" and ?b = "r mod 10"
  let ?s = "dec ?a @ CHR ''.'' # dec ?b"
  have b: "length (dec ?b) = 1" by (simp add: dec.simps)
  have "\<not> hex_prefix ?s"
  proof -
    have "?s ! 1 = CHR ''.'' \<or> is_digit (?s ! 1)"
      using dec_digits [of ?a] dec_ne [of ?a] by (cases "dec ?a"; cases "tl (dec ?a)") auto
    then show ?thesis by (auto simp: hex_prefix_def is_digit_def)
  qed
  moreover have "scan_mant False 0 None False False ?s = (r, Some 1, True, False, [])"
    using scan_mant_digits [OF dec_digits, of 0 None False False ?a "CHR ''.'' # dec ?b"]
      scan_mant_digits [OF dec_digits, of ?a "Some 0" True False ?b "[]"] b by simp
  ultimately have "readFloat ?s = Some (of_nat r * 10 powi (- int 1))"
    by (rule readFloat_plain [OF strip_sign_dec])
  then have rf: "readFloat ?s = Some (of_nat r / 10)" by (simp add: power_int_minus)
  have q: "1 / 2 \<le> (of_nat r / 10 :: rat)" "(of_nat r / 10 :: rat) \<le> 1025"
    using assms of_nat_le_iff [of 10 r, where 'a = rat] of_nat_le_iff [of r 10250, where 'a = rat] by simp_all
  have "\<bar>f64 (of_nat r / 10)\<bar> < 2 ^ 1024"
  proof -
    have "\<bar>f64 (of_nat r / 10)\<bar> \<le> 1026" using f64_bounds [OF q(1)] q by linarith
    also have "(1026 :: rat) < 2 ^ 1024" by simp
    finally show ?thesis .
  qed
  then show ?thesis by (simp add: ParseFloat_def rf f64_inf_def)
qed



lemma size_unit_mult:
  assumes "e \<le> 5"
  shows "unit_mult (''KMGTPE'' ! e) = 1024 ^ (e + 1)" and "plain_char (''KMGTPE'' ! e)"
    and "''KMGTPE'' ! e \<notin> set ''BbiI''"
proof -
  have "e = 0 \<or> e = 1 \<or> e = 2 \<or> e = 3 \<or> e = 4 \<or> e = 5" using assms by linarith
  then show "unit_mult (''KMGTPE'' ! e) = 1024 ^ (e + 1)" "plain_char (''KMGTPE'' ! e)"
    "''KMGTPE'' ! e \<notin> set ''BbiI''"
    by (auto simp: unit_mult_def plain_char_def)
qed

lemma TrimSuffix_snoc: "TrimSuffix c (s @ [d]) = (if d = c then s else s @ [d])"
  by (simp add: TrimSuffix_def)

lemma snoc_ne: "xs @ [x] \<noteq> []"
  by simp

lemma f64_kib: "f64 (1024 ^ k) = 1024 ^ k"
proof -
  have "(1024 :: rat) ^ k = 2 ^ (10 * k)" by (simp add: power_mult)
  then show ?thesis using f64_power by metis
qed

text \<open>What \<open>ParseSize\<close> computes on a size with one decimal and a unit.\<close>

lemma ParseSize_decimal:
  assumes "10 \<le> r" and "r \<le> 10250" and "e \<le> 5"
  shows "ParseSize ((dec (r div 10) @ CHR ''.'' # dec (r mod 10)) @ [''KMGTPE'' ! e] @ ''iB'') =
    (let scaled = f64 (f64 (of_nat r / 10) * 1024 ^ (e + 1))
     in if scaled < 2 ^ 63 then Inr \<lfloor>scaled\<rfloor> else Inl (Wrapf ''size out of range'' []))"
proof -
  let ?f = "dec (r div 10) @ CHR ''.'' # dec (r mod 10)" and ?c = "''KMGTPE'' ! e"
  note u = size_unit_mult [OF assms(3)]
  have hd: "plain_char (hd (?f @ t))" for t using dec_hd [of "r div 10"] digit_plain by (cases "dec (r div 10)") auto
  have last: "plain_char (last ?f)" using dec_last [of "r mod 10"] digit_plain by simp
  have t1: "TrimSpace (?f @ [?c] @ ''iB'') = ?f @ [?c] @ ''iB''"
    by (rule TrimSpace_plain) (use hd in \<open>simp add: plain_char_def\<close>)
  have t2: "TrimSpace ?f = ?f" by (rule TrimSpace_plain) (use hd [of "[]"] last in simp)
  have x: "TrimSuffix (CHR ''I'') (TrimSuffix (CHR ''i'') (TrimSuffix (CHR ''b'') (TrimSuffix (CHR ''B'') (?f @ [?c] @ ''iB'')))) = ?f @ [?c]"
    using u(3) TrimSuffix_snoc [of _ "?f @ [?c, CHR ''i'']" "CHR ''B''"]
      TrimSuffix_snoc [of _ "?f @ [?c]" "CHR ''i''"] TrimSuffix_snoc [of _ ?f ?c] by simp
  have "(1 :: int) < 1024 ^ (e + 1)" by (rule one_less_power) simp_all
  then have m: "(1024 :: int) ^ (e + 1) \<noteq> 1" by simp
  have pow: "f64 (of_int (1024 ^ (e + 1))) = 1024 ^ (e + 1)"
    using f64_kib [of "e + 1"] by (simp only: of_int_power of_int_numeral)
  have pos: "\<not> f64 (of_nat r / 10) < 0"
  proof -
    have q: "1 / 2 \<le> (of_nat r / 10 :: rat)"
      using assms(1) of_nat_le_iff [of 10 r, where 'a = rat] by simp
    show ?thesis using f64_bounds [OF q] q by linarith
  qed
  have dot: "CHR ''.'' \<in> set ?f" by simp
  have "ParseSize (?f @ [?c] @ ''iB'') = fractionalSize ?f (1024 ^ (e + 1))"
    unfolding ParseSize_def t1 x Let_def butlast_snoc last_snoc u(1) if_not_P [OF snoc_ne] if_P [OF m] t2 if_P [OF dot]
    by simp
  then show ?thesis
    using m pos pow fmt_1f_float [OF assms(1,2)] by (simp add: fractionalSize_def Let_def)
qed

text \<open>What \<open>Size\<close> prints from a kibibyte up: the digits, the scale, and how close they are.\<close>

lemma Size_decimal:
  assumes "1024 \<le> n" and "n < 2 ^ 63"
  shows "\<exists>r e. units_Size n = (dec (r div 10) @ CHR ''.'' # dec (r mod 10)) @ [''KMGTPE'' ! e] @ ''iB''
    \<and> 10 \<le> r \<and> r \<le> 10250 \<and> e \<le> 5 \<and> 1024 ^ (e + 1) \<le> n
    \<and> \<bar>of_nat r / 10 - (of_int n / 1024 ^ (e + 1) :: rat)\<bar> \<le> 1 / 20 + 1 / 1099511627776 \<and> (e = 5 \<longrightarrow> r \<le> 80)"
proof -
  have "1 \<le> n div 1024" using assms(1) by simp
  then obtain e where e: "size_scale (n div 1024) 1024 0 = (1024 * 1024 ^ e, e)"
      "1024 ^ e \<le> n div 1024" "n div 1024 < 1024 ^ (e + 1)"
    using size_scale_spec [of "n div 1024" 1024 0] by auto
  have lo: "1024 ^ (e + 1) \<le> n" and hi: "n < 1024 ^ (e + 2)" using e(2,3) by simp_all
  have "e \<le> 5"
  proof (rule ccontr)
    assume "\<not> e \<le> 5"
    then have "(1024 :: int) ^ 7 \<le> 1024 ^ (e + 1)" by (intro power_increasing) simp_all
    then show False using lo assms(2) by simp
  qed
  define D where "D = (1024 :: rat) ^ (e + 1)"
  define z where "z = of_int n / D"
  have D: "0 < D" "f64 (of_int (1024 * 1024 ^ e)) = D"
    using f64_kib [of "e + 1"] by (simp_all add: D_def)
  have D': "D = of_int (1024 ^ (e + 1))" by (simp add: D_def)
  have z: "1 \<le> z" "z < 1024"
  proof -
    have "D \<le> of_int n" unfolding D' using lo by (simp only: of_int_le_iff)
    then show "1 \<le> z" using D(1) by (simp add: z_def)
    have "of_int n < (of_int (1024 ^ (e + 2)) :: rat)" using hi by (simp only: of_int_less_iff)
    then show "z < 1024" using D(1) by (simp add: z_def D_def divide_less_eq)
  qed
  define N where "N = f64 (of_int n)"
  have "1 / 2 \<le> (of_int n :: rat)" using assms(1) by simp
  note N = f64_bounds [OF this, folded N_def]
  define y where "y = N / D"
  have y: "z - z / 9007199254740992 \<le> y" "y \<le> z + z / 9007199254740992"
    using divide_right_mono [OF N(1), of D] divide_right_mono [OF N(2), of D] D(1)
    by (simp_all add: y_def z_def diff_divide_distrib add_divide_distrib mult.commute)
  define x where "x = f64 y"
  have "1 / 2 \<le> y" using y z by linarith
  note x = f64_bounds [OF this, folded x_def]
  have near: "x - z \<le> 1 / 2199023255552" "z - x \<le> 1 / 2199023255552" using x y z by linarith+
  define r where "r = nat (round_even (x * 10))"
  have ri: "of_int (round_even (x * 10)) - x * 10 \<le> 1 / 2" "x * 10 - of_int (round_even (x * 10)) \<le> 1 / 2"
    using round_even_near [of "x * 10"] unfolding abs_le_iff by simp_all
  have "(9 :: rat) < of_int (round_even (x * 10))" using ri near z by linarith
  then have "10 \<le> round_even (x * 10)" by linarith
  then have r: "(of_nat r :: rat) = of_int (round_even (x * 10))" "10 \<le> r" by (simp_all add: r_def)
  have d: "\<bar>of_nat r / 10 - z\<bar> \<le> 1 / 20 + 1 / 1099511627776" using ri near unfolding r(1) by linarith
  have "(of_nat r :: rat) \<le> 10250" using d z by linarith
  then have rb: "r \<le> 10250" by (metis of_nat_le_iff of_nat_numeral)
  have top: "r \<le> 80" if "e = 5"
  proof -
    have "of_int n < (2 ^ 63 :: rat)" using assms(2) by (metis of_int_less_iff of_int_numeral of_int_power)
    then have "z < 8" using that D(1) by (simp add: z_def D_def divide_less_eq)
    then have "(of_nat r :: rat) < 81" using d by linarith
    then show ?thesis by (metis less_Suc_eq_le of_nat_less_iff of_nat_numeral eval_nat_numeral(3) Suc_numeral)
  qed
  have "units_Size n = (dec (r div 10) @ CHR ''.'' # dec (r mod 10)) @ [''KMGTPE'' ! e] @ ''iB''"
    using assms(1) by (simp add: units_Size_def e(1) fmt_1f_def Let_def D(2) N_def [symmetric] y_def [symmetric]
        x_def [symmetric] r_def [symmetric] del: of_int_mult of_int_power)
  then show ?thesis using r(2) rb \<open>e \<le> 5\<close> lo d top unfolding z_def D_def by blast
qed

lemma ParseSize_bytes:
  assumes "n < 1024"
  shows "ParseSize (dec n @ ''B'') = Inr (int n)"
proof -
  have d: "is_digit (last (dec n))" by (rule dec_last)
  then have l: "last (dec n) \<noteq> CHR ''b''" "last (dec n) \<noteq> CHR ''i''" "last (dec n) \<noteq> CHR ''I''" "unit_mult (last (dec n)) = 1"
    by (auto simp: is_digit_def unit_mult_def)
  have t: "TrimSpace (dec n @ ''B'') = dec n @ ''B''"
    by (rule TrimSpace_plain) (use dec_hd [of n] digit_plain in \<open>simp add: hd_append plain_char_def\<close>)
  have t': "TrimSpace (dec n) = dec n" using dec_hd [of n] d digit_plain by (intro TrimSpace_plain) auto
  have dot: "CHR ''.'' \<notin> set (dec n)" using dec_set [of "CHR ''.''" n] by (auto simp: is_digit_def)
  have i: "ParseInt (dec n) = (int n, None)"
    using ParseInt_FormatInt [of "int n"] assms by (simp add: FormatInt_def)
  have s: "sint (word_of_nat n :: int64) = int n" using sint64_of_int [of "int n"] assms by simp
  show ?thesis
    using l t t' dot i s by (simp add: ParseSize_def TrimSuffix_def butlast_append Let_def)
qed

text \<open>How far the conversion back strays: the two roundings on the way, and the truncation.\<close>

lemma scaled_near:
  assumes "10 \<le> r" and "D = (1024 :: rat) ^ (e + 1)"
  defines "w \<equiv> f64 (f64 (of_nat r / 10) * D)"
  shows "(of_nat r / 10 - of_nat r / 1125899906842624) * D \<le> w" and "w \<le> (of_nat r / 10 + of_nat r / 1125899906842624) * D"
proof -
  let ?q = "of_nat r / 10 :: rat" and ?e = "9007199254740992 :: rat"
  have q: "1 / 2 \<le> ?q" "1 \<le> ?q" using assms(1) of_nat_le_iff [of 10 r, where 'a = rat] by simp_all
  note t = f64_bounds [OF q(1)]
  have D: "1 \<le> D" "0 < D" unfolding assms(2) by (rule one_le_power) simp_all
  have "1 / 2 \<le> f64 ?q" using t q by linarith
  moreover have "f64 ?q * 1 \<le> f64 ?q * D" using D t q by (intro mult_left_mono) linarith+
  ultimately have p: "1 / 2 \<le> f64 ?q * D" by linarith
  have lo: "(?q - ?q / ?e) * D \<le> f64 ?q * D" and hi: "f64 ?q * D \<le> (?q + ?q / ?e) * D"
    using t D by (auto intro: mult_right_mono)
  have w: "f64 ?q * D - f64 ?q * D / ?e \<le> w" "w \<le> f64 ?q * D + f64 ?q * D / ?e"
    using f64_bounds [OF p] by (simp_all add: w_def)
  define y where "y = of_nat r * D"
  have y: "0 \<le> y" using D by (simp add: y_def)
  have f: "(?q - ?q / ?e) * D = y / 10 - y / 10 / ?e" "(?q + ?q / ?e) * D = y / 10 + y / 10 / ?e"
    by (simp_all add: y_def algebra_simps)
  have g: "(of_nat r / 10 - of_nat r / 1125899906842624) * D = y / 10 - y / 1125899906842624"
    "(of_nat r / 10 + of_nat r / 1125899906842624) * D = y / 10 + y / 1125899906842624"
    by (simp_all add: y_def algebra_simps)
  show "(of_nat r / 10 - of_nat r / 1125899906842624) * D \<le> w" and "w \<le> (of_nat r / 10 + of_nat r / 1125899906842624) * D"
    using w lo hi y unfolding f g by linarith+
qed

lemma floor_near:
  assumes "10 \<le> r" and "r \<le> 10250" and "1024 ^ (e + 1) \<le> n"
    and "\<bar>of_nat r / 10 - (of_int n / 1024 ^ (e + 1) :: rat)\<bar> \<le> 1 / 20 + 1 / 1099511627776"
  shows "19 * \<bar>\<lfloor>f64 (f64 (of_nat r / 10) * 1024 ^ (e + 1))\<rfloor> - n\<bar> \<le> n"
proof -
  define D where "D = (1024 :: rat) ^ (e + 1)"
  define w where "w = f64 (f64 (of_nat r / 10) * D)"
  define z where "z = of_int n / D"
  have "(1 :: rat) \<le> 1024 ^ e" by (rule one_le_power) simp
  then have D: "1024 \<le> D" "0 < D" unfolding D_def by simp_all
  have "D \<le> of_int n" unfolding D_def using assms(3) by (metis of_int_le_iff of_int_numeral of_int_power)
  then have z: "1 \<le> z" "z * D = of_int n" using D by (simp_all add: z_def)
  have r: "(of_nat r :: rat) \<le> 10250" using assms(2) by (metis of_nat_le_iff of_nat_numeral)
  have d: "of_nat r / 10 - z \<le> 1 / 20 + 1 / 1099511627776" "z - of_nat r / 10 \<le> 1 / 20 + 1 / 1099511627776"
    using assms(4) unfolding z_def D_def abs_le_iff by simp_all
  note s = scaled_near [OF assms(1) D_def, folded w_def]
  have up: "w \<le> (z + z * 10 / 199) * D"
    by (rule order_trans [OF s(2)], rule mult_right_mono) (use d z(1) r D in linarith)+
  have lo: "(z - z * 10 / 199) * D \<le> w"
    by (rule order_trans [OF _ s(1)], rule mult_right_mono) (use d z(1) r D in linarith)+
  have m: "(z + z * 10 / 199) * D = of_int n + of_int n * 10 / 199" "(z - z * 10 / 199) * D = of_int n - of_int n * 10 / 199"
    using z(2) by (simp_all add: algebra_simps)
  have n: "1024 \<le> (of_int n :: rat)" using \<open>D \<le> of_int n\<close> D by linarith
  have v: "of_int \<lfloor>w\<rfloor> \<le> w" "w < of_int \<lfloor>w\<rfloor> + 1" by linarith+
  have tol: "19 * k - 19 * m \<le> m" "19 * m - 19 * k \<le> m"
    if "w \<le> m + m * 10 / 199" "m - m * 10 / 199 \<le> w" "k \<le> w" "w < k + 1" "1024 \<le> m" for k m :: rat
    using that by linarith+
  have "of_int (19 * \<lfloor>w\<rfloor> - 19 * n) \<le> (of_int n :: rat)" "of_int (19 * n - 19 * \<lfloor>w\<rfloor>) \<le> (of_int n :: rat)"
    using tol [OF up [unfolded m] lo [unfolded m] v n] by simp_all
  then have "19 * \<lfloor>w\<rfloor> - 19 * n \<le> n" "19 * n - 19 * \<lfloor>w\<rfloor> \<le> n" unfolding of_int_le_iff .
  then have "19 * \<bar>\<lfloor>w\<rfloor> - n\<bar> \<le> n" by (simp add: abs_if)
  then show ?thesis unfolding w_def D_def .
qed

lemma eib_text: "(dec (80 div 10) @ CHR ''.'' # dec (80 mod 10)) @ [''KMGTPE'' ! 5] @ ''iB'' = ''8.0EiB''"
  by code_simp

lemma eib_refused: "ParseSize ''8.0EiB'' = Inl (Wrapf ''size out of range'' [])"
proof -
  have "f64 (of_nat 80 / 10) = 8" using f64_int [of 8] by simp
  moreover have "f64 (8 * 1024 ^ (5 + 1)) = 2 ^ 63" using f64_power [of 63] by simp
  ultimately show ?thesis using ParseSize_decimal [of 80 5] unfolding eib_text Let_def by simp
qed

lemma size_ceiling:
  assumes "10 \<le> r" and "r \<le> 10250" and "e \<le> 5"
    and "2 ^ 63 \<le> f64 (f64 (of_nat r / 10) * 1024 ^ (e + 1))" and "e = 5 \<longrightarrow> r \<le> 80"
  shows "e = 5 \<and> r = 80"
proof -
  define D where "D = (1024 :: rat) ^ (e + 1)"
  have up: "2 ^ 63 \<le> (of_nat r / 10 + of_nat r / 1125899906842624) * D"
    using scaled_near(2) [OF assms(1) D_def] assms(4) unfolding D_def by (rule order_trans [rotated])
  have five: "e = 5"
  proof (rule ccontr)
    assume "e \<noteq> 5"
    then have "D \<le> 1024 ^ 5" unfolding D_def using assms(3) by (intro power_increasing) simp_all
    moreover have "of_nat r / 10 + of_nat r / 1125899906842624 \<le> (1026 :: rat)"
      using assms(2) of_nat_le_iff [of r 10250, where 'a = rat] by simp
    ultimately have "(of_nat r / 10 + of_nat r / 1125899906842624) * D \<le> 1026 * 1024 ^ 5"
      by (intro mult_mono) (simp_all add: D_def)
    then show False using up by simp
  qed
  moreover have "\<not> r \<le> 79"
  proof
    assume "r \<le> 79"
    then have "of_nat r / 10 + of_nat r / 1125899906842624 \<le> (79 / 10 + 1 / 100 :: rat)"
      using of_nat_le_iff [of r 79, where 'a = rat] by simp
    then have "(of_nat r / 10 + of_nat r / 1125899906842624) * D \<le> (79 / 10 + 1 / 100) * D"
      by (intro mult_right_mono) (simp_all add: D_def)
    then show False using up five by (simp add: D_def)
  qed
  ultimately show ?thesis using assms(5) by simp
qed

lemma size_top: "units_Size (2 ^ 63 - 1) = ''8.0EiB''"
proof -
  obtain r e where s: "units_Size (2 ^ 63 - 1) = (dec (r div 10) @ CHR ''.'' # dec (r mod 10)) @ [''KMGTPE'' ! e] @ ''iB''"
      "r \<le> 10250" "e \<le> 5"
      "\<bar>of_nat r / 10 - (of_int (2 ^ 63 - 1) / 1024 ^ (e + 1) :: rat)\<bar> \<le> 1 / 20 + 1 / 1099511627776" "e = 5 \<longrightarrow> r \<le> 80"
    using Size_decimal [of "2 ^ 63 - 1"] by auto
  have z: "of_int (2 ^ 63 - 1) / 1024 ^ (e + 1) \<le> (of_nat r / 10 + 1 :: rat)" using s(4) by linarith
  have "e = 5"
  proof (rule ccontr)
    assume "e \<noteq> 5"
    then have p: "(1024 :: rat) ^ (e + 1) \<le> 1024 ^ 5" using s(3) by (intro power_increasing) simp_all
    have "of_int (2 ^ 63 - 1) / 1024 ^ 5 \<le> (of_int (2 ^ 63 - 1) / 1024 ^ (e + 1) :: rat)"
      by (rule divide_left_mono [OF p]) simp_all
    moreover have "(of_nat r :: rat) \<le> 10250" using s(2) by (metis of_nat_le_iff of_nat_numeral)
    ultimately show False using z by simp
  qed
  have "of_int (2 ^ 63 - 1) / 1024 ^ (e + 1) - 1 / 20 - 1 / 1099511627776 \<le> (of_nat r / 10 :: rat)"
    using s(4) by linarith
  then have "(79 :: rat) < of_nat r" using \<open>e = 5\<close> by simp
  then have "79 < r" by (metis of_nat_less_iff of_nat_numeral)
  then have "r = 80" using s(5) \<open>e = 5\<close> by linarith
  then show ?thesis using s(1) \<open>e = 5\<close> eib_text by simp
qed

text \<open>
  C37. A size read off a listing can be pasted into a cap.  A text \<open>Size\<close> prints is one \<open>ParseSize\<close> accepts,
  with one exception: below a kibibyte it reads as exactly the size, above as the size to within a
  nineteenth.  The exception is the text \<open>8.0EiB\<close>, which the parser refuses; \<open>Size\<close> prints it at the ceiling of
  \<open>int64\<close>.
\<close>

theorem size_reparse:
  assumes "0 \<le> n" and "n < 2 ^ 63"
  shows "(case ParseSize (units_Size n) of
      Inr v \<Rightarrow> (if n < 1024 then v = n else 19 * \<bar>v - n\<bar> \<le> n) \<and> units_Size n \<noteq> ''8.0EiB''
    | Inl e \<Rightarrow> units_Size n = ''8.0EiB'') \<and> units_Size (2 ^ 63 - 1) = ''8.0EiB''"
proof (cases "n < 1024")
  case True
  have p: "ParseSize (units_Size n) = Inr n"
    using ParseSize_bytes [of "nat n"] True assms(1) by (simp add: units_Size_def FormatInt_def)
  then have "units_Size n \<noteq> ''8.0EiB''" using eib_refused by auto
  then show ?thesis using True p size_top by simp
next
  case False
  then obtain r e where s: "units_Size n = (dec (r div 10) @ CHR ''.'' # dec (r mod 10)) @ [''KMGTPE'' ! e] @ ''iB''"
      "10 \<le> r" "r \<le> 10250" "e \<le> 5" "1024 ^ (e + 1) \<le> n"
      "\<bar>of_nat r / 10 - (of_int n / 1024 ^ (e + 1) :: rat)\<bar> \<le> 1 / 20 + 1 / 1099511627776" "e = 5 \<longrightarrow> r \<le> 80"
    using Size_decimal [of n] assms(2) by auto
  define w where "w = f64 (f64 (of_nat r / 10) * 1024 ^ (e + 1))"
  have p: "ParseSize (units_Size n) = (if w < 2 ^ 63 then Inr \<lfloor>w\<rfloor> else Inl (Wrapf ''size out of range'' []))"
    using ParseSize_decimal [OF s(2,3,4)] by (simp only: s(1) w_def Let_def)
  have fl: "19 * \<bar>\<lfloor>w\<rfloor> - n\<bar> \<le> n" unfolding w_def by (rule floor_near [OF s(2,3,5,6)])
  show ?thesis
  proof (cases "w < 2 ^ 63")
    case True
    then have "units_Size n \<noteq> ''8.0EiB''" using p eib_refused by auto
    then show ?thesis using True False p fl size_top by simp
  next
    case w: False
    have "e = 5 \<and> r = 80" by (rule size_ceiling [OF s(2,3,4) _ s(7)]) (use w in \<open>simp add: w_def not_less\<close>)
    then have "units_Size n = ''8.0EiB''" using s(1) eib_text by simp
    then show ?thesis using p w size_top by simp
  qed
qed

lemma size_reparse_witness:
  "ParseSize (units_Size 1023) = Inr 1023"
proof -
  have "units_Size 1023 \<noteq> ''8.0EiB''" by code_simp
  then show ?thesis using size_reparse [of 1023] by (simp split: sum.splits)
qed

text \<open>
  The scanner cannot spin.  Whatever the text, a turn of the rewriting loop takes a run of mantissa bytes
  and then a run of the others, loses nothing, and leaves strictly less unless nothing was left: the loop ends
  within as many turns as there are bytes.
\<close>

theorem term_scan_progress:
  "case split_term s of (m, u, r) \<Rightarrow> m @ u @ r = s \<and> list_all isMantissaByte m
     \<and> list_all (\<lambda>c. \<not> isMantissaByte c) u \<and> (s = [] \<or> length r < length s)"
proof -
  obtain m u r where e: "split_term s = (m, u, r)" by (cases "split_term s")
  then have "m @ u @ r = s" "list_all isMantissaByte m" "list_all (\<lambda>c. \<not> isMantissaByte c) u"
    by (auto simp: split_term_def Let_def list_all_iff dest: set_takeWhileD)
  then show ?thesis using split_term_shorter [OF e] by (auto simp: e)
qed

end
