(* ===== verification/CliParse.thy ===== *)
theory CliParse imports Units Client begin

text \<open>
  The command line grammar (\<open>cli/parse.go\<close>): a lexical scan that classifies each argument by its syntax, then
  the resolution of the tokens into an invocation.  A message names its operand as it is, without the quoting
  of \<open>%q\<close>.
\<close>

subsection \<open>What a command line resolves to\<close>

datatype action = actionCopy | actionPaste | actionList | actionDelete | actionStat | actionVersion | actionHelp

record invocation =
  iv_act :: action
  iv_slot :: string
  iv_paths :: "string list"
  iv_output :: string
  iv_outputSet :: bool
  iv_get :: ClientGetOpts
  iv_put :: ClientPutOpts
  iv_server :: string
  iv_serverSet :: bool

definition no_get :: ClientGetOpts where
  "no_get = \<lparr>cg_Wait = False, cg_FollowNext = False\<rparr>"

definition no_put :: ClientPutOpts where
  "no_put = \<lparr>cp_TTL = 0, cp_Keep = False, cp_ConsumeOnce = False, cp_IfMatch = ''''\<rparr>"

definition zero_invocation :: invocation where
  "zero_invocation = \<lparr>iv_act = actionCopy, iv_slot = '''', iv_paths = [], iv_output = '''', iv_outputSet = False,
     iv_get = no_get, iv_put = no_put, iv_server = '''', iv_serverSet = False\<rparr>"

definition usagef :: "string \<Rightarrow> err" where
  "usagef m = Leaf (Usage (''buff: '' @ m))"

subsection \<open>Flags\<close>

record flags =
  fl_copy :: bool
  fl_paste :: bool
  fl_list :: bool
  fl_delete :: bool
  fl_stat :: bool
  fl_version :: bool
  fl_help :: bool
  fl_output :: string
  fl_outputSet :: bool
  fl_wait :: bool
  fl_followNext :: bool
  fl_ttl :: duration
  fl_ttlSet :: bool
  fl_keep :: bool
  fl_consume :: bool
  fl_ifMatch :: string
  fl_ifMatchSet :: bool
  fl_server :: string
  fl_serverSet :: bool

definition no_flags :: flags where
  "no_flags = \<lparr>fl_copy = False, fl_paste = False, fl_list = False, fl_delete = False, fl_stat = False,
     fl_version = False, fl_help = False, fl_output = '''', fl_outputSet = False, fl_wait = False,
     fl_followNext = False, fl_ttl = 0, fl_ttlSet = False, fl_keep = False, fl_consume = False,
     fl_ifMatch = '''', fl_ifMatchSet = False, fl_server = '''', fl_serverSet = False\<rparr>"

text \<open>A flag either sets a boolean or takes a value: never both.\<close>

datatype flagSpec = boolFlag "flags \<Rightarrow> flags" | valueFlag "flags \<Rightarrow> string \<Rightarrow> err + flags"

definition setOutput :: "flags \<Rightarrow> string \<Rightarrow> err + flags" where
  "setOutput f v = (if v = '''' then Inl (usagef ''-o requires a non-empty path'')
                    else Inr (f\<lparr>fl_output := v, fl_outputSet := True\<rparr>))"

definition setTTL :: "flags \<Rightarrow> string \<Rightarrow> err + flags" where
  "setTTL f v =
     (case units_ParseDuration v of
        Inl e \<Rightarrow> Inl (usagef (''invalid --ttl '' @ v))
      | Inr d \<Rightarrow> if d < 0 then Inl (usagef (''--ttl must not be negative: '' @ v))
                 else Inr (f\<lparr>fl_ttl := d, fl_ttlSet := True\<rparr>))"

definition setIfMatch :: "flags \<Rightarrow> string \<Rightarrow> err + flags" where
  "setIfMatch f v = (if v = '''' then Inl (usagef ''--if-match requires a generation id (or *)'')
                     else Inr (f\<lparr>fl_ifMatch := v, fl_ifMatchSet := True\<rparr>))"

definition setServer :: "flags \<Rightarrow> string \<Rightarrow> err + flags" where
  "setServer f v = Inr (f\<lparr>fl_server := v, fl_serverSet := True\<rparr>)"

definition flagSpecs :: "string \<Rightarrow> flagSpec option" where
  "flagSpecs = map_of
    [(''-c'', boolFlag (\<lambda>f. f\<lparr>fl_copy := True\<rparr>)), (''--copy'', boolFlag (\<lambda>f. f\<lparr>fl_copy := True\<rparr>)),
     (''-p'', boolFlag (\<lambda>f. f\<lparr>fl_paste := True\<rparr>)), (''--paste'', boolFlag (\<lambda>f. f\<lparr>fl_paste := True\<rparr>)),
     (''-l'', boolFlag (\<lambda>f. f\<lparr>fl_list := True\<rparr>)), (''--list'', boolFlag (\<lambda>f. f\<lparr>fl_list := True\<rparr>)),
     (''-d'', boolFlag (\<lambda>f. f\<lparr>fl_delete := True\<rparr>)), (''--delete'', boolFlag (\<lambda>f. f\<lparr>fl_delete := True\<rparr>)),
     (''-s'', boolFlag (\<lambda>f. f\<lparr>fl_stat := True\<rparr>)), (''--stat'', boolFlag (\<lambda>f. f\<lparr>fl_stat := True\<rparr>)),
     (''--keep'', boolFlag (\<lambda>f. f\<lparr>fl_keep := True\<rparr>)), (''--consume'', boolFlag (\<lambda>f. f\<lparr>fl_consume := True\<rparr>)),
     (''--wait'', boolFlag (\<lambda>f. f\<lparr>fl_wait := True\<rparr>)),
     (''--follow-next'', boolFlag (\<lambda>f. f\<lparr>fl_followNext := True\<rparr>)),
     (''--version'', boolFlag (\<lambda>f. f\<lparr>fl_version := True\<rparr>)),
     (''-h'', boolFlag (\<lambda>f. f\<lparr>fl_help := True\<rparr>)), (''--help'', boolFlag (\<lambda>f. f\<lparr>fl_help := True\<rparr>)),
     (''-o'', valueFlag setOutput), (''--output'', valueFlag setOutput), (''--server'', valueFlag setServer),
     (''--ttl'', valueFlag setTTL), (''--if-match'', valueFlag setIfMatch)]"

definition splitFlag :: "string \<Rightarrow> string \<times> string \<times> bool" where
  "splitFlag a = (if CHR ''='' \<in> set a
     then (takeWhile (\<lambda>c. c \<noteq> CHR ''='') a, tl (dropWhile (\<lambda>c. c \<noteq> CHR ''='') a), True)
     else (a, '''', False))"

text \<open>One flag token: how many of the following arguments it consumed, and the flags after it.\<close>

definition set_flag :: "flags \<Rightarrow> string \<Rightarrow> string list \<Rightarrow> err + nat \<times> flags" where
  "set_flag f a rest =
     (case splitFlag a of (name, inline, hasInline) \<Rightarrow>
        (case flagSpecs name of
           None \<Rightarrow> Inl (usagef (''unknown flag '' @ a))
         | Some (boolFlag st) \<Rightarrow>
             (if hasInline then Inl (usagef (''flag '' @ name @ '' takes no value'')) else Inr (0, st f))
         | Some (valueFlag st) \<Rightarrow>
             (if hasInline then (case st f inline of Inl e \<Rightarrow> Inl e | Inr f \<Rightarrow> Inr (0, f))
              else case rest of
                [] \<Rightarrow> Inl (usagef (''flag '' @ name @ '' requires a value''))
              | v # _ \<Rightarrow> (case st f v of Inl e \<Rightarrow> Inl e | Inr f \<Rightarrow> Inr (1, f)))))"

subsection \<open>The scan\<close>

record tokens =
  tk_slots :: "string list"
  tk_paths :: "string list"
  tk_flags :: flags

definition no_tokens :: tokens where
  "no_tokens = \<lparr>tk_slots = [], tk_paths = [], tk_flags = no_flags\<rparr>"

definition addPositional :: "tokens \<Rightarrow> string \<Rightarrow> err + tokens" where
  "addPositional t a =
     (if a \<noteq> [] \<and> hd a = CHR ''@''
      then (if tl a = [] then Inl (usagef ''a slot needs a name after @, e.g. @work'')
            else Inr (t\<lparr>tk_slots := tk_slots t @ [tl a]\<rparr>))
      else Inr (t\<lparr>tk_paths := tk_paths t @ [a]\<rparr>))"

function scan_from :: "bool \<Rightarrow> tokens \<Rightarrow> string list \<Rightarrow> err + tokens" where
  "scan_from ended t [] = Inr t"
| "scan_from ended t (a # rest) =
     (if ended then (case addPositional t a of Inl e \<Rightarrow> Inl e | Inr t \<Rightarrow> scan_from ended t rest)
      else if a = ''--'' then scan_from True t rest
      else if length a > 1 \<and> hd a = CHR ''-'' then
        (case set_flag (tk_flags t) a rest of
           Inl e \<Rightarrow> Inl e
         | Inr (consumed, f) \<Rightarrow> scan_from ended (t\<lparr>tk_flags := f\<rparr>) (drop consumed rest))
      else (case addPositional t a of Inl e \<Rightarrow> Inl e | Inr t \<Rightarrow> scan_from ended t rest))"
  by pat_completeness auto
termination by (relation "measure (\<lambda>(ended, t, args). length args)") auto

definition scan :: "string list \<Rightarrow> err + tokens" where
  "scan args = scan_from False no_tokens args"

subsection \<open>The grammar\<close>

definition managementAction :: "flags \<Rightarrow> nat \<times> action" where
  "managementAction f =
     (let (n, act) = (0, actionCopy);
          (n, act) = (if fl_list f then (n + 1, actionList) else (n, act));
          (n, act) = (if fl_delete f then (n + 1, actionDelete) else (n, act));
          (n, act) = (if fl_stat f then (n + 1, actionStat) else (n, act));
          (n, act) = (if fl_version f then (n + 1, actionVersion) else (n, act))
      in (n, act))"

definition actionName :: "action \<Rightarrow> string" where
  "actionName act = (case act of actionList \<Rightarrow> ''--list'' | actionDelete \<Rightarrow> ''--delete'' | actionStat \<Rightarrow> ''--stat''
     | actionVersion \<Rightarrow> ''--version'' | _ \<Rightarrow> ''command'')"

fun Join :: "string \<Rightarrow> string list \<Rightarrow> string" where
  "Join sep [] = ''''"
| "Join sep [x] = x"
| "Join sep (x # xs) = x @ sep @ Join sep xs"

definition reslot :: "string list \<Rightarrow> string list" where
  "reslot slots = map (\<lambda>s. CHR ''@'' # s) slots"

definition mode :: "bool \<Rightarrow> bool \<Rightarrow> bool \<Rightarrow> bool \<Rightarrow> err + action" where
  "mode hasPaths stdinPiped forceCopy forcePaste =
     (if forceCopy \<and> forcePaste then Inl (usagef ''-c and -p conflict'')
      else if forcePaste
      then (if hasPaths then Inl (usagef ''paste takes no path arguments'') else Inr actionPaste)
      else if hasPaths \<and> stdinPiped
      then Inl (usagef ''both stdin and path arguments given; the source must be unambiguous'')
      else if hasPaths then Inr actionCopy
      else if stdinPiped then Inr actionCopy
      else if forceCopy then Inl (usagef ''nothing to copy'')
      else Inr actionPaste)"

definition parseManage :: "action \<Rightarrow> tokens \<Rightarrow> flags \<Rightarrow> err + invocation" where
  "parseManage act t f =
     (if fl_copy f \<or> fl_paste f then Inl (usagef ''-c/-p apply only when copying or pasting'')
      else if fl_ttlSet f \<or> fl_keep f \<or> fl_consume f \<or> fl_ifMatchSet f
      then Inl (usagef ''--ttl/--keep/--consume/--if-match apply only when copying'')
      else if fl_outputSet f then Inl (usagef ''-o/--output applies only when pasting'')
      else if fl_wait f then Inl (usagef ''--wait applies only when pasting'')
      else if fl_followNext f then Inl (usagef ''--follow-next applies only when pasting'')
      else let base = zero_invocation\<lparr>iv_act := act, iv_server := fl_server f, iv_serverSet := fl_serverSet f\<rparr>
        in if act = actionList \<or> act = actionVersion
           then (if tk_slots t \<noteq> [] \<or> tk_paths t \<noteq> [] then Inl (usagef (actionName act @ '' takes no slot or path''))
                 else Inr base)
           else if tk_paths t \<noteq> [] then Inl (usagef (actionName act @ '' needs a slot (@name), not a path''))
           else if length (tk_slots t) \<noteq> 1 then Inl (usagef (actionName act @ '' needs exactly one slot (@name)''))
           else Inr (base\<lparr>iv_slot := tk_slots t ! 0\<rparr>))"

definition parse :: "tokens \<Rightarrow> bool \<Rightarrow> err + invocation" where
  "parse t inIsTTY =
     (let f = tk_flags t
      in if fl_help f then Inr (zero_invocation\<lparr>iv_act := actionHelp\<rparr>)
         else if length (tk_slots t) > 1
         then Inl (usagef (''too many slots ('' @ Join '' '' (reslot (tk_slots t)) @ ''); a command addresses one slot''))
         else let (n, act) = managementAction f
           in if n > 1 then Inl (usagef ''conflicting actions; use only one of --list, --delete, --stat, --version'')
              else if n = 1 then parseManage act t f
              else case mode (tk_paths t \<noteq> []) (\<not> inIsTTY) (fl_copy f) (fl_paste f) of
                Inl e \<Rightarrow> Inl e
              | Inr act \<Rightarrow>
                  (let inv = zero_invocation\<lparr>iv_act := act, iv_server := fl_server f, iv_serverSet := fl_serverSet f\<rparr>;
                       slot = (if length (tk_slots t) = 1 then tk_slots t ! 0 else ''default'')
                   in if act = actionPaste
                      then (if fl_ttlSet f \<or> fl_keep f \<or> fl_consume f \<or> fl_ifMatchSet f
                            then Inl (usagef ''--ttl/--keep/--consume/--if-match apply only when copying'')
                            else Inr (inv\<lparr>iv_output := fl_output f, iv_outputSet := fl_outputSet f,
                                     iv_get := \<lparr>cg_Wait = fl_wait f, cg_FollowNext = fl_followNext f\<rparr>,
                                     iv_slot := slot\<rparr>))
                      else if fl_outputSet f then Inl (usagef ''-o/--output applies only when pasting'')
                      else if fl_wait f then Inl (usagef ''--wait applies only when pasting'')
                      else if fl_followNext f then Inl (usagef ''--follow-next applies only when pasting'')
                      else if fl_keep f \<and> fl_ttlSet f
                      then Inl (usagef ''--keep and --ttl conflict; --keep keeps the clip indefinitely'')
                      else Inr (inv\<lparr>iv_paths := tk_paths t,
                               iv_put := \<lparr>cp_TTL = fl_ttl f, cp_Keep = fl_keep f, cp_ConsumeOnce = fl_consume f,
                                 cp_IfMatch = fl_ifMatch f\<rparr>,
                               iv_slot := slot\<rparr>)))"

definition parseArgs :: "string list \<Rightarrow> bool \<Rightarrow> err + invocation" where
  "parseArgs args inIsTTY = (case scan args of Inl e \<Rightarrow> Inl e | Inr t \<Rightarrow> parse t inIsTTY)"

subsection \<open>The spans of the wire are human spans\<close>

definition wire_char :: "char \<Rightarrow> bool" where
  "wire_char c \<longleftrightarrow> is_digit c \<or> c = CHR ''.'' \<or> c \<in> set (''nsmh'' @ micro)"

lemma wire_char_not_dw: "wire_char c \<Longrightarrow> c \<noteq> CHR ''d'' \<and> c \<noteq> CHR ''w''"
proof -
  have "\<not> wire_char (CHR ''d'')" "\<not> wire_char (CHR ''w'')" by code_simp+
  then show "wire_char c \<Longrightarrow> c \<noteq> CHR ''d'' \<and> c \<noteq> CHR ''w''" by auto
qed

lemma trim_zeros_subset: "set (trim_zeros s) \<subseteq> set s"
  by (auto simp: trim_zeros_def dest: set_dropWhileD)

lemma fmtFrac_chars: "fmtFrac v p = (fr, w) \<Longrightarrow> list_all wire_char fr"
proof -
  assume "fmtFrac v p = (fr, w)"
  then have "set fr \<subseteq> insert (CHR ''.'') (set (trim_zeros (fixed p (v mod 10 ^ p))))"
    by (auto simp: fmtFrac_def Let_def split: if_splits)
  also have "\<dots> \<subseteq> insert (CHR ''.'') (set (fixed p (v mod 10 ^ p)))" using trim_zeros_subset by blast
  finally show ?thesis
    using fixed_digits [of p "v mod 10 ^ p"] by (auto simp: list_all_iff wire_char_def)
qed

lemma dec_chars: "list_all wire_char (dec n)"
  using dec_digits [of n] by (auto simp: list_all_iff wire_char_def)

lemma unit_chars: "list_all wire_char ''ns''" "list_all wire_char micro" "list_all wire_char ''ms''"
    "list_all wire_char ''s''" "list_all wire_char ''m''" "list_all wire_char ''h''" "list_all wire_char ''0s''"
  by (auto simp: wire_char_def micro_def is_digit_def)

lemma span_string_chars: "list_all wire_char (span_string u) \<and> last (span_string u) = CHR ''s''"
proof -
  have small: "list_all wire_char (small_unit u p t) \<and> last (small_unit u p t) = last t"
    if "list_all wire_char t" "t \<noteq> []" for p t
  proof -
    obtain fr w where f: "fmtFrac u p = (fr, w)" by fastforce
    show ?thesis using fmtFrac_chars [OF f] dec_chars that by (simp add: small_unit_def f)
  qed
  obtain fr v where f: "fmtFrac u 9 = (fr, v)" by fastforce
  have "last micro = CHR ''s''" "micro \<noteq> []" by (simp_all add: micro_def)
  then show ?thesis
    using small [OF unit_chars(1)] small [OF unit_chars(2)] small [OF unit_chars(3)] fmtFrac_chars [OF f]
      dec_chars unit_chars
    by (simp add: span_string_def f)
qed

lemma wire_span_reads:
  assumes "0 \<le> d" and "d < 2 ^ 63"
  shows "units_ParseDuration (Duration_String d) = Inr d"
proof -
  let ?s = "Duration_String d"
  have s: "?s = span_string (nat d)" using assms(1) by (simp add: Duration_String_def)
  note c = span_string_chars [of "nat d"]
  have ne: "?s \<noteq> [] \<and> plain_char (hd ?s)"
    using span_string_first [of "nat d"] digit_plain unfolding s
    by (auto simp: span_string_def plain_char_def)
  have trim: "TrimSpace ?s = ?s"
    using c ne by (intro TrimSpace_plain) (simp add: s plain_char_def)
  have "CHR ''d'' \<notin> set ?s" "CHR ''w'' \<notin> set ?s"
    using c wire_char_not_dw unfolding s list_all_iff by blast+
  then have "set ?s \<inter> set ''dw'' = {}" by simp
  then show ?thesis
    using ParseDuration_String [of d] assms by (simp add: units_ParseDuration_def trim std_duration_def)
qed

lemma parse_terms_bound: "parse_terms d s = Some v \<Longrightarrow> d \<le> 2 ^ 63 \<Longrightarrow> v \<le> 2 ^ 63"
proof (induction d s arbitrary: v rule: parse_terms.induct)
  case (2 d c s)
  then show ?case
    by (auto simp: Let_def simp del: parse_terms.simps(1) split: option.splits prod.splits if_splits
        elim!: parse_terms.elims [of d "c # s"])
qed simp

lemma ParseDuration_range: "ParseDuration s = Some d \<Longrightarrow> - (2 ^ 63) \<le> d \<and> d < 2 ^ 63"
  using parse_terms_bound [of 0] by (fastforce simp: ParseDuration_def split: prod.splits if_splits option.splits)

lemma units_ParseDuration_range: "units_ParseDuration s = Inr d \<Longrightarrow> - (2 ^ 63) \<le> d \<and> d < 2 ^ 63"
  using ParseDuration_range
  by (fastforce simp: units_ParseDuration_def std_duration_def Let_def split: prod.splits if_splits option.splits)

subsection \<open>The invocations of the grammar\<close>

text \<open>
  What execution relies on.  Nothing is set that the action does not use; a slot that is used is named; the
  source of a copy is unambiguous; a retention is one the store can hold.
\<close>

definition wf_invocation :: "bool \<Rightarrow> invocation \<Rightarrow> bool" where
  "wf_invocation tty iv \<longleftrightarrow>
     (let base = zero_invocation\<lparr>iv_act := iv_act iv, iv_server := iv_server iv, iv_serverSet := iv_serverSet iv\<rparr>
      in (iv_serverSet iv \<or> iv_server iv = '''')
         \<and> (case iv_act iv of
              actionHelp \<Rightarrow> iv = zero_invocation\<lparr>iv_act := actionHelp\<rparr>
            | actionList \<Rightarrow> iv = base
            | actionVersion \<Rightarrow> iv = base
            | actionDelete \<Rightarrow> iv_slot iv \<noteq> '''' \<and> iv = base\<lparr>iv_slot := iv_slot iv\<rparr>
            | actionStat \<Rightarrow> iv_slot iv \<noteq> '''' \<and> iv = base\<lparr>iv_slot := iv_slot iv\<rparr>
            | actionPaste \<Rightarrow> iv_slot iv \<noteq> '''' \<and> iv_outputSet iv = (iv_output iv \<noteq> '''')
                \<and> iv = base\<lparr>iv_slot := iv_slot iv, iv_output := iv_output iv, iv_outputSet := iv_outputSet iv,
                         iv_get := iv_get iv\<rparr>
            | actionCopy \<Rightarrow> iv_slot iv \<noteq> '''' \<and> (iv_paths iv \<noteq> []) = tty
                \<and> list_all (\<lambda>p. p = '''' \<or> hd p \<noteq> CHR ''@'') (iv_paths iv)
                \<and> 0 \<le> cp_TTL (iv_put iv) \<and> cp_TTL (iv_put iv) < 2 ^ 63
                \<and> \<not> (cp_Keep (iv_put iv) \<and> cp_TTL (iv_put iv) \<noteq> 0)
                \<and> iv = base\<lparr>iv_slot := iv_slot iv, iv_paths := iv_paths iv, iv_put := iv_put iv\<rparr>))"

definition wf_flags :: "flags \<Rightarrow> bool" where
  "wf_flags f \<longleftrightarrow> fl_outputSet f = (fl_output f \<noteq> '''') \<and> fl_ifMatchSet f = (fl_ifMatch f \<noteq> '''')
     \<and> 0 \<le> fl_ttl f \<and> fl_ttl f < 2 ^ 63 \<and> (fl_ttlSet f \<or> fl_ttl f = 0) \<and> (fl_serverSet f \<or> fl_server f = '''')"

definition wf_tokens :: "tokens \<Rightarrow> bool" where
  "wf_tokens t \<longleftrightarrow> list_all (\<lambda>s. s \<noteq> '''') (tk_slots t) \<and> list_all (\<lambda>p. p = '''' \<or> hd p \<noteq> CHR ''@'') (tk_paths t)
     \<and> wf_flags (tk_flags t)"

text \<open>Every flag of the vocabulary keeps the flags well formed or refuses with a usage error.\<close>

definition keeps_flags :: "flagSpec \<Rightarrow> bool" where
  "keeps_flags s = (case s of
     boolFlag g \<Rightarrow> (\<forall>f. wf_flags f \<longrightarrow> wf_flags (g f))
   | valueFlag g \<Rightarrow> (\<forall>f v. wf_flags f \<longrightarrow> (case g f v of Inr f' \<Rightarrow> wf_flags f' | Inl e \<Rightarrow> \<exists>m. e = usagef m)))"

lemma value_flags_keep:
  "keeps_flags (valueFlag setOutput)" "keeps_flags (valueFlag setServer)" "keeps_flags (valueFlag setTTL)"
  "keeps_flags (valueFlag setIfMatch)"
  using units_ParseDuration_range
  by (auto simp: keeps_flags_def wf_flags_def setOutput_def setServer_def setTTL_def setIfMatch_def split: sum.split)

lemma flagSpecs_keep: "flagSpecs name = Some s \<Longrightarrow> keeps_flags s"
  using value_flags_keep unfolding flagSpecs_def
  by (auto simp: wf_flags_def keeps_flags_def [of "boolFlag _"] split: if_splits)

lemma set_flag_keeps:
  assumes "wf_flags f"
  shows "case set_flag f a rest of Inr (k, f') \<Rightarrow> wf_flags f' | Inl e \<Rightarrow> \<exists>m. e = usagef m"
proof -
  obtain name inline has where s: "splitFlag a = (name, inline, has)" by (cases "splitFlag a")
  show ?thesis
  proof (cases "flagSpecs name")
    case None
    then show ?thesis by (auto simp: set_flag_def s)
  next
    case (Some sp)
    have k: "keeps_flags sp" using flagSpecs_keep [OF Some] .
    show ?thesis
    proof (cases sp)
      case (boolFlag g)
      then show ?thesis using k assms Some by (auto simp: set_flag_def s keeps_flags_def)
    next
      case (valueFlag g)
      have g: "case g f v of Inr f' \<Rightarrow> wf_flags f' | Inl e \<Rightarrow> \<exists>m. e = usagef m" for v
        using k assms unfolding valueFlag keeps_flags_def by simp
      show ?thesis
        using g [of inline] g [of "hd rest"] Some
        unfolding valueFlag set_flag_def s by (auto split: list.split sum.splits)
    qed
  qed
qed

lemma addPositional_keeps:
  "wf_tokens t \<Longrightarrow> case addPositional t a of Inr t' \<Rightarrow> wf_tokens t' | Inl e \<Rightarrow> \<exists>m. e = usagef m"
  by (cases a) (auto simp: addPositional_def wf_tokens_def)

lemma scan_keeps:
  "wf_tokens t \<Longrightarrow> case scan_from ended t args of Inr t' \<Rightarrow> wf_tokens t' | Inl e \<Rightarrow> \<exists>m. e = usagef m"
proof (induction ended t args rule: scan_from.induct)
  case (2 ended t a rest)
  note ap = addPositional_keeps [OF 2(5), of a]
  have fl: "wf_flags (tk_flags t)" using 2(5) by (simp add: wf_tokens_def)
  note sf = set_flag_keeps [OF fl, of a rest]
  have up: "wf_flags f \<Longrightarrow> wf_tokens (t\<lparr>tk_flags := f\<rparr>)" for f using 2(5) by (simp add: wf_tokens_def)
  show ?case
  proof (cases "ended \<or> a \<noteq> ''--'' \<and> \<not> (length a > 1 \<and> hd a = CHR ''-'')")
    case True
    then show ?thesis using ap 2(1,4) by (cases "addPositional t a") auto
  next
    case no: False
    show ?thesis
    proof (cases "a = ''--''")
      case True
      then show ?thesis using 2(2,5) no by simp
    next
      case False
      then show ?thesis using sf up 2(3) no by (cases "set_flag (tk_flags t) a rest") auto
    qed
  qed
qed simp

lemma managementAction_cases:
  "managementAction f = (n, act) \<Longrightarrow> n = 1 \<Longrightarrow> act \<in> {actionList, actionDelete, actionStat, actionVersion}"
  by (auto simp: managementAction_def Let_def split: if_splits)

lemma mode_cases:
  "case mode hp piped fc fp of
     Inr act \<Rightarrow> act = actionPaste \<and> \<not> hp \<or> act = actionCopy \<and> (hp \<longleftrightarrow> \<not> piped)
   | Inl e \<Rightarrow> \<exists>m. e = usagef m"
  by (auto simp: mode_def)

lemma parseManage_Inr:
  assumes "parseManage act t f = Inr iv"
  shows "iv = zero_invocation\<lparr>iv_act := act, iv_server := fl_server f, iv_serverSet := fl_serverSet f,
      iv_slot := if act = actionList \<or> act = actionVersion then '''' else tk_slots t ! 0\<rparr>
    \<and> (act = actionList \<or> act = actionVersion \<or> length (tk_slots t) = 1)"
  using assms by (auto simp: parseManage_def zero_invocation_def Let_def split: if_split_asm)

lemma parseManage_Inl: "parseManage act t f = Inl e \<Longrightarrow> \<exists>m. e = usagef m"
  by (auto simp: parseManage_def Let_def split: if_split_asm)

lemma parseManage_wf:
  assumes "wf_tokens t" and "act \<in> {actionList, actionDelete, actionStat, actionVersion}"
  shows "case parseManage act t (tk_flags t) of Inr iv \<Rightarrow> wf_invocation tty iv | Inl e \<Rightarrow> \<exists>m. e = usagef m"
proof (cases "parseManage act t (tk_flags t)")
  case (Inl e)
  then show ?thesis using parseManage_Inl by simp
next
  case (Inr iv)
  note i = parseManage_Inr [OF Inr]
  have "length (tk_slots t) = 1 \<Longrightarrow> tk_slots t ! 0 \<noteq> ''''"
    using assms(1) by (cases "tk_slots t") (auto simp: wf_tokens_def)
  moreover have "fl_serverSet (tk_flags t) \<or> fl_server (tk_flags t) = ''''"
    using assms(1) by (simp add: wf_tokens_def wf_flags_def)
  ultimately show ?thesis
    using assms(2) i by (auto simp: Inr wf_invocation_def zero_invocation_def Let_def)
qed

lemma parse_wf:
  assumes "wf_tokens t"
  shows "case parse t tty of Inr iv \<Rightarrow> wf_invocation tty iv | Inl e \<Rightarrow> \<exists>m. e = usagef m"
proof -
  let ?f = "tk_flags t"
  obtain n act where m: "managementAction ?f = (n, act)" by (cases "managementAction ?f")
  define slot where "slot = (if length (tk_slots t) = 1 then tk_slots t ! 0 else ''default'')"
  have slot: "slot \<noteq> ''''" using assms by (cases "tk_slots t") (auto simp: slot_def wf_tokens_def)
  consider "fl_help ?f" | "\<not> fl_help ?f" "length (tk_slots t) > 1 \<or> n > 1"
    | "\<not> fl_help ?f" "\<not> length (tk_slots t) > 1" "n = 1"
    | "\<not> fl_help ?f" "\<not> length (tk_slots t) > 1" "n = 0" by fastforce
  then show ?thesis
  proof cases
    case 1
    then show ?thesis by (simp add: parse_def wf_invocation_def zero_invocation_def)
  next
    case 2
    then show ?thesis by (auto simp: parse_def m Let_def)
  next
    case 3
    then show ?thesis
      using parseManage_wf [OF assms, of act tty] managementAction_cases [OF m] by (simp add: parse_def m)
  next
    case 4
    note md = mode_cases [of "tk_paths t \<noteq> []" "\<not> tty" "fl_copy ?f" "fl_paste ?f"]
    show ?thesis
    proof (cases "mode (tk_paths t \<noteq> []) (\<not> tty) (fl_copy ?f) (fl_paste ?f)")
      case (Inl e)
      then show ?thesis using 4 md by (auto simp: parse_def m)
    next
      case (Inr act)
      then have act: "act = actionPaste \<and> tk_paths t = [] \<or> act = actionCopy \<and> (tk_paths t \<noteq> [] \<longleftrightarrow> tty)"
        using md by auto
      show ?thesis
      proof (cases "parse t tty")
        case (Inl e)
        then show ?thesis
          using 4 \<open>mode _ _ _ _ = Inr act\<close> by (auto simp: parse_def m Let_def split: if_split_asm)
      next
        case (Inr iv)
        have f: "wf_flags ?f" "list_all (\<lambda>p. p = '''' \<or> hd p \<noteq> CHR ''@'') (tk_paths t)"
          using assms by (simp_all add: wf_tokens_def)
        have "act = actionPaste \<and> tk_paths t = []
            \<and> iv = zero_invocation\<lparr>iv_act := actionPaste, iv_server := fl_server ?f, iv_serverSet := fl_serverSet ?f,
                 iv_output := fl_output ?f, iv_outputSet := fl_outputSet ?f,
                 iv_get := \<lparr>cg_Wait = fl_wait ?f, cg_FollowNext = fl_followNext ?f\<rparr>, iv_slot := slot\<rparr>
          \<or> act = actionCopy \<and> (tk_paths t \<noteq> [] \<longleftrightarrow> tty) \<and> \<not> (fl_keep ?f \<and> fl_ttlSet ?f)
            \<and> iv = zero_invocation\<lparr>iv_act := actionCopy, iv_server := fl_server ?f, iv_serverSet := fl_serverSet ?f,
                 iv_paths := tk_paths t,
                 iv_put := \<lparr>cp_TTL = fl_ttl ?f, cp_Keep = fl_keep ?f, cp_ConsumeOnce = fl_consume ?f,
                   cp_IfMatch = fl_ifMatch ?f\<rparr>, iv_slot := slot\<rparr>"
          using act Inr 4 \<open>mode _ _ _ _ = Inr act\<close> unfolding parse_def m Let_def slot_def [symmetric]
          by (elim disjE) (simp_all add: slot_def split: if_split_asm)
        then show ?thesis
          using f slot unfolding Inr sum.case
          by (elim disjE) (auto simp: wf_invocation_def zero_invocation_def wf_flags_def Let_def)
      qed
    qed
  qed
qed

lemma wf_no_tokens: "wf_tokens no_tokens"
  by (simp add: wf_tokens_def wf_flags_def no_tokens_def no_flags_def)

lemma parseArgs_wf: "case parseArgs args tty of Inr iv \<Rightarrow> wf_invocation tty iv | Inl e \<Rightarrow> \<exists>m. e = usagef m"
proof (cases "scan args")
  case (Inl e)
  then show ?thesis using scan_keeps [OF wf_no_tokens, of False args] by (simp add: parseArgs_def scan_def)
next
  case (Inr t)
  then have "wf_tokens t" using scan_keeps [OF wf_no_tokens, of False args] by (simp add: scan_def)
  then show ?thesis using parse_wf [of t tty] by (simp add: parseArgs_def Inr)
qed

subsection \<open>Every one of them can be written\<close>

definition valued :: "string \<Rightarrow> string \<Rightarrow> string" where
  "valued name v = name @ CHR ''='' # v"

definition opt_arg :: "bool \<Rightarrow> string \<Rightarrow> string list" where
  "opt_arg b a = (if b then [a] else [])"

text \<open>A command line for an invocation.\<close>

definition args_of :: "invocation \<Rightarrow> string list" where
  "args_of iv =
     opt_arg (iv_serverSet iv) (valued ''--server'' (iv_server iv))
     @ (case iv_act iv of
          actionHelp \<Rightarrow> [''--help''] | actionList \<Rightarrow> [''--list''] | actionVersion \<Rightarrow> [''--version'']
        | actionDelete \<Rightarrow> [''--delete'', CHR ''@'' # iv_slot iv]
        | actionStat \<Rightarrow> [''--stat'', CHR ''@'' # iv_slot iv]
        | actionPaste \<Rightarrow> ''-p'' # opt_arg (iv_outputSet iv) (valued ''-o'' (iv_output iv))
            @ opt_arg (cg_Wait (iv_get iv)) ''--wait'' @ opt_arg (cg_FollowNext (iv_get iv)) ''--follow-next''
            @ [CHR ''@'' # iv_slot iv]
        | actionCopy \<Rightarrow> [if cp_Keep (iv_put iv) then ''--keep''
                          else valued ''--ttl'' (Duration_String (cp_TTL (iv_put iv)))]
            @ opt_arg (cp_ConsumeOnce (iv_put iv)) ''--consume''
            @ opt_arg (cp_IfMatch (iv_put iv) \<noteq> '''') (valued ''--if-match'' (cp_IfMatch (iv_put iv)))
            @ [''--'', CHR ''@'' # iv_slot iv] @ iv_paths iv)"

lemma scan_bool:
  assumes "flagSpecs name = Some (boolFlag g)"
  shows "scan_from False t (name # rest) = scan_from False (t\<lparr>tk_flags := g (tk_flags t)\<rparr>) rest"
proof -
  have "name \<noteq> ''--'' \<and> length name > 1 \<and> hd name = CHR ''-'' \<and> CHR ''='' \<notin> set name"
    using assms by (auto simp: flagSpecs_def split: if_splits)
  then show ?thesis by (simp add: set_flag_def splitFlag_def assms)
qed

lemma scan_value:
  assumes "flagSpecs name = Some (valueFlag g)" and "g (tk_flags t) v = Inr f"
  shows "scan_from False t (valued name v # rest) = scan_from False (t\<lparr>tk_flags := f\<rparr>) rest"
proof -
  have n: "length name > 1 \<and> hd name = CHR ''-'' \<and> CHR ''='' \<notin> set name"
    using assms(1) by (auto simp: flagSpecs_def split: if_splits)
  have "takeWhile (\<lambda>c. c \<noteq> CHR ''='') (valued name v) = name" "dropWhile (\<lambda>c. c \<noteq> CHR ''='') (valued name v) = CHR ''='' # v"
    using n by (auto simp: valued_def takeWhile_tail dropWhile_append2 dropWhile_append3 intro!: dropWhile_append1)
  then have s: "splitFlag (valued name v) = (name, v, True)" by (simp add: splitFlag_def valued_def)
  have "length (valued name v) > 2" using n by (simp add: valued_def)
  moreover have "hd (valued name v) = CHR ''-''" using n by (cases name) (auto simp: valued_def)
  ultimately show ?thesis using assms by (auto simp: set_flag_def s)
qed

lemma scan_slot:
  "s \<noteq> '''' \<Longrightarrow> scan_from ended t ((CHR ''@'' # s) # rest) = scan_from ended (t\<lparr>tk_slots := tk_slots t @ [s]\<rparr>) rest"
  by (simp add: addPositional_def)

lemma scan_paths:
  "list_all (\<lambda>p. p = '''' \<or> hd p \<noteq> CHR ''@'') ps
   \<Longrightarrow> scan_from True t ps = Inr (t\<lparr>tk_paths := tk_paths t @ ps\<rparr>)"
  by (induction ps arbitrary: t) (auto simp: addPositional_def)

declare scan_from.simps(2) [simp del]

lemma flag_names:
  "flagSpecs ''--help'' = Some (boolFlag (\<lambda>f. f\<lparr>fl_help := True\<rparr>))"
  "flagSpecs ''--list'' = Some (boolFlag (\<lambda>f. f\<lparr>fl_list := True\<rparr>))"
  "flagSpecs ''--version'' = Some (boolFlag (\<lambda>f. f\<lparr>fl_version := True\<rparr>))"
  "flagSpecs ''--delete'' = Some (boolFlag (\<lambda>f. f\<lparr>fl_delete := True\<rparr>))"
  "flagSpecs ''--stat'' = Some (boolFlag (\<lambda>f. f\<lparr>fl_stat := True\<rparr>))"
  "flagSpecs ''-p'' = Some (boolFlag (\<lambda>f. f\<lparr>fl_paste := True\<rparr>))"
  "flagSpecs ''--wait'' = Some (boolFlag (\<lambda>f. f\<lparr>fl_wait := True\<rparr>))"
  "flagSpecs ''--follow-next'' = Some (boolFlag (\<lambda>f. f\<lparr>fl_followNext := True\<rparr>))"
  "flagSpecs ''--keep'' = Some (boolFlag (\<lambda>f. f\<lparr>fl_keep := True\<rparr>))"
  "flagSpecs ''--consume'' = Some (boolFlag (\<lambda>f. f\<lparr>fl_consume := True\<rparr>))"
  "flagSpecs ''-o'' = Some (valueFlag setOutput)" "flagSpecs ''--server'' = Some (valueFlag setServer)"
  "flagSpecs ''--ttl'' = Some (valueFlag setTTL)" "flagSpecs ''--if-match'' = Some (valueFlag setIfMatch)"
  by (simp_all add: flagSpecs_def)

lemmas scan_flags = flag_names(1-10) [THEN scan_bool]

lemma scan_opt_bool:
  "flagSpecs name = Some (boolFlag g) \<Longrightarrow>
   scan_from False t (opt_arg b name @ rest) = scan_from False (t\<lparr>tk_flags := if b then g (tk_flags t) else tk_flags t\<rparr>) rest"
  by (auto simp: opt_arg_def scan_bool)

lemma scan_opt_value:
  "flagSpecs name = Some (valueFlag g) \<Longrightarrow> b \<Longrightarrow> g (tk_flags t) v = Inr f \<Longrightarrow>
   scan_from False t (opt_arg b (valued name v) @ rest) = scan_from False (t\<lparr>tk_flags := f\<rparr>) rest"
  by (simp add: opt_arg_def scan_value)

lemma opt_arg_off: "\<not> b \<Longrightarrow> opt_arg b a @ rest = rest"
  by (simp add: opt_arg_def)

text \<open>The scan of the command line, flag by flag.\<close>

definition server_flags :: "invocation \<Rightarrow> flags" where
  "server_flags iv = no_flags\<lparr>fl_server := iv_server iv, fl_serverSet := iv_serverSet iv\<rparr>"

lemma scan_server:
  assumes "iv_serverSet iv \<or> iv_server iv = ''''"
  shows "scan (opt_arg (iv_serverSet iv) (valued ''--server'' (iv_server iv)) @ rest)
    = scan_from False (no_tokens\<lparr>tk_flags := server_flags iv\<rparr>) rest"
proof (cases "iv_serverSet iv")
  case True
  then show ?thesis
    using scan_value [OF flag_names(12), of no_tokens "iv_server iv"]
    by (simp add: scan_def opt_arg_def setServer_def server_flags_def no_tokens_def)
next
  case False
  then show ?thesis using assms by (simp add: scan_def opt_arg_def server_flags_def no_tokens_def no_flags_def)
qed

lemma scan_paste:
  assumes "iv_slot iv \<noteq> ''''" and "iv_outputSet iv = (iv_output iv \<noteq> '''')"
  shows "scan_from False (no_tokens\<lparr>tk_flags := server_flags iv\<rparr>)
      (''-p'' # opt_arg (iv_outputSet iv) (valued ''-o'' (iv_output iv))
            @ opt_arg (cg_Wait (iv_get iv)) ''--wait'' @ opt_arg (cg_FollowNext (iv_get iv)) ''--follow-next''
            @ [CHR ''@'' # iv_slot iv])
    = Inr \<lparr>tk_slots = [iv_slot iv], tk_paths = [],
        tk_flags = (server_flags iv)\<lparr>fl_paste := True, fl_output := iv_output iv, fl_outputSet := iv_outputSet iv,
          fl_wait := cg_Wait (iv_get iv), fl_followNext := cg_FollowNext (iv_get iv)\<rparr>\<rparr>"
proof -
  have o: "scan_from False t (opt_arg (iv_outputSet iv) (valued ''-o'' (iv_output iv)) @ rest) =
      scan_from False (t\<lparr>tk_flags := (tk_flags t)\<lparr>fl_output := iv_output iv, fl_outputSet := iv_outputSet iv\<rparr>\<rparr>) rest"
    if "fl_output (tk_flags t) = ''''" "\<not> fl_outputSet (tk_flags t)" for t rest
    using that assms(2) scan_value [OF flag_names(11), of t "iv_output iv"]
    by (cases "iv_outputSet iv") (auto simp: opt_arg_def setOutput_def intro!: arg_cong [of _ _ "\<lambda>t. scan_from False t rest"])
  show ?thesis
    using assms(1)
    by (simp add: scan_flags o scan_opt_bool [OF flag_names(7)] scan_opt_bool [OF flag_names(8)] scan_slot
        no_tokens_def server_flags_def no_flags_def)
qed

lemma scan_copy:
  assumes "iv_slot iv \<noteq> ''''" and "list_all (\<lambda>p. p = '''' \<or> hd p \<noteq> CHR ''@'') (iv_paths iv)"
    and "0 \<le> cp_TTL (iv_put iv)" and "cp_TTL (iv_put iv) < 2 ^ 63" and "\<not> (cp_Keep (iv_put iv) \<and> cp_TTL (iv_put iv) \<noteq> 0)"
  shows "scan_from False (no_tokens\<lparr>tk_flags := server_flags iv\<rparr>)
      ([if cp_Keep (iv_put iv) then ''--keep'' else valued ''--ttl'' (Duration_String (cp_TTL (iv_put iv)))]
            @ opt_arg (cp_ConsumeOnce (iv_put iv)) ''--consume''
            @ opt_arg (cp_IfMatch (iv_put iv) \<noteq> '''') (valued ''--if-match'' (cp_IfMatch (iv_put iv)))
            @ [''--'', CHR ''@'' # iv_slot iv] @ iv_paths iv)
    = Inr \<lparr>tk_slots = [iv_slot iv], tk_paths = iv_paths iv,
        tk_flags = (server_flags iv)\<lparr>fl_keep := cp_Keep (iv_put iv), fl_ttl := cp_TTL (iv_put iv),
          fl_ttlSet := \<not> cp_Keep (iv_put iv), fl_consume := cp_ConsumeOnce (iv_put iv),
          fl_ifMatch := cp_IfMatch (iv_put iv), fl_ifMatchSet := cp_IfMatch (iv_put iv) \<noteq> ''''\<rparr>\<rparr>"
proof -
  let ?p = "iv_put iv"
  have k: "scan_from False t ((if cp_Keep ?p then ''--keep'' else valued ''--ttl'' (Duration_String (cp_TTL ?p))) # rest) =
      scan_from False (t\<lparr>tk_flags := (tk_flags t)\<lparr>fl_keep := cp_Keep ?p, fl_ttl := cp_TTL ?p, fl_ttlSet := \<not> cp_Keep ?p\<rparr>\<rparr>) rest"
    if "\<not> fl_keep (tk_flags t)" "fl_ttl (tk_flags t) = 0" "\<not> fl_ttlSet (tk_flags t)" for t rest
    using that assms(3-5) wire_span_reads [OF assms(3,4)] scan_value [OF flag_names(13), of t "Duration_String (cp_TTL ?p)"]
    by (cases "cp_Keep ?p") (auto simp: scan_flags setTTL_def intro!: arg_cong [of _ _ "\<lambda>t. scan_from False t rest"])
  have i: "scan_from False t (opt_arg (cp_IfMatch ?p \<noteq> '''') (valued ''--if-match'' (cp_IfMatch ?p)) @ rest) =
      scan_from False (t\<lparr>tk_flags := (tk_flags t)\<lparr>fl_ifMatch := cp_IfMatch ?p, fl_ifMatchSet := cp_IfMatch ?p \<noteq> ''''\<rparr>\<rparr>) rest"
    if "fl_ifMatch (tk_flags t) = ''''" "\<not> fl_ifMatchSet (tk_flags t)" for t rest
    using that scan_value [OF flag_names(14), of t "cp_IfMatch ?p"]
    by (cases "cp_IfMatch ?p = ''''") (auto simp: opt_arg_def setIfMatch_def intro!: arg_cong [of _ _ "\<lambda>t. scan_from False t rest"])
  have e: "scan_from False t (''--'' # rest) = scan_from True t rest" for t rest by (simp add: scan_from.simps)
  show ?thesis
    using assms(1)
    by (simp add: k i e scan_opt_bool [OF flag_names(10)] scan_slot scan_paths [OF assms(2)]
        no_tokens_def server_flags_def no_flags_def)
qed

lemma parse_args_of:
  assumes "wf_invocation tty iv"
  shows "parseArgs (args_of iv) tty = Inr iv"
proof -
  have s: "iv_serverSet iv \<or> iv_server iv = ''''" using assms by (simp add: wf_invocation_def Let_def)
  note w = assms [unfolded wf_invocation_def Let_def]
  note start = scan_server [OF s]
  show ?thesis
  proof (cases "iv_act iv")
    case actionCopy
    then have c: "iv_slot iv \<noteq> ''''" "list_all (\<lambda>p. p = '''' \<or> hd p \<noteq> CHR ''@'') (iv_paths iv)"
        "0 \<le> cp_TTL (iv_put iv)" "cp_TTL (iv_put iv) < 2 ^ 63" "\<not> (cp_Keep (iv_put iv) \<and> cp_TTL (iv_put iv) \<noteq> 0)"
        and p: "(iv_paths iv \<noteq> []) = tty"
      using w by simp_all
    have iv: "iv_output iv = ''''" "\<not> iv_outputSet iv" "iv_get iv = no_get"
      using w actionCopy by (cases iv, simp add: zero_invocation_def)+
    have sc: "scan (args_of iv) = Inr \<lparr>tk_slots = [iv_slot iv], tk_paths = iv_paths iv,
        tk_flags = (server_flags iv)\<lparr>fl_keep := cp_Keep (iv_put iv), fl_ttl := cp_TTL (iv_put iv),
          fl_ttlSet := \<not> cp_Keep (iv_put iv), fl_consume := cp_ConsumeOnce (iv_put iv),
          fl_ifMatch := cp_IfMatch (iv_put iv), fl_ifMatchSet := cp_IfMatch (iv_put iv) \<noteq> ''''\<rparr>\<rparr>"
      unfolding args_of_def actionCopy action.case start by (rule scan_copy [OF c])
    show ?thesis
      unfolding parseArgs_def sc sum.case using iv p actionCopy c(1)
      by (cases tty; cases iv; simp add: parse_def managementAction_def mode_def server_flags_def no_flags_def
          zero_invocation_def Let_def)
  next
    case actionPaste
    then have c: "iv_slot iv \<noteq> ''''" "iv_outputSet iv = (iv_output iv \<noteq> '''')" using w by simp_all
    have iv: "iv_paths iv = []" "iv_put iv = no_put"
      using w actionPaste by (cases iv, simp add: zero_invocation_def)+
    have sc: "scan (args_of iv) = Inr \<lparr>tk_slots = [iv_slot iv], tk_paths = [],
        tk_flags = (server_flags iv)\<lparr>fl_paste := True, fl_output := iv_output iv, fl_outputSet := iv_outputSet iv,
          fl_wait := cg_Wait (iv_get iv), fl_followNext := cg_FollowNext (iv_get iv)\<rparr>\<rparr>"
      unfolding args_of_def actionPaste action.case start append_Cons by (rule scan_paste [OF c])
    show ?thesis
      unfolding parseArgs_def sc sum.case using iv actionPaste c(1)
      by (cases iv) (simp add: parse_def managementAction_def mode_def server_flags_def no_flags_def
          zero_invocation_def Let_def)
  next
    case actionList
    then show ?thesis
      using w
      by (simp add: parseArgs_def args_of_def start scan_flags parse_def managementAction_def parseManage_def
          server_flags_def no_flags_def no_tokens_def zero_invocation_def Let_def)
  next
    case actionDelete
    then show ?thesis
      using w
      by (simp add: parseArgs_def args_of_def start scan_flags scan_slot parse_def managementAction_def parseManage_def
          server_flags_def no_flags_def no_tokens_def zero_invocation_def Let_def)
  next
    case actionStat
    then show ?thesis
      using w
      by (simp add: parseArgs_def args_of_def start scan_flags scan_slot parse_def managementAction_def parseManage_def
          server_flags_def no_flags_def no_tokens_def zero_invocation_def Let_def)
  next
    case actionVersion
    then show ?thesis
      using w
      by (simp add: parseArgs_def args_of_def start scan_flags parse_def managementAction_def parseManage_def
          server_flags_def no_flags_def no_tokens_def zero_invocation_def Let_def)
  next
    case actionHelp
    have sc: "scan (args_of iv) = scan_from False (no_tokens\<lparr>tk_flags := server_flags iv\<rparr>) [''--help'']"
      unfolding args_of_def actionHelp action.case start ..
    show ?thesis
      using w actionHelp unfolding parseArgs_def sc by (simp add: scan_flags parse_def no_tokens_def)
  qed
qed

text \<open>
  C38. The grammar.  Whatever the arguments, the answer is an invocation execution can rely on, or a usage error,
  which exits with the generic code; and every such invocation is one some command line asks for.  So an
  invocation never carries what its action would ignore, a retention that would be dropped, a slot
  without a name or a source that is not the one the terminal says.
\<close>

theorem grammar_exact:
  "(\<exists>args. parseArgs args tty = Inr iv) = wf_invocation tty iv
   \<and> (case parseArgs args tty of Inl e \<Rightarrow> (\<exists>m. e = Leaf (Usage (''buff: '' @ m))) \<and> exitCode (Some e) = 1 | Inr _ \<Rightarrow> True)"
proof
  show "(\<exists>args. parseArgs args tty = Inr iv) = wf_invocation tty iv"
  proof
    assume "\<exists>args. parseArgs args tty = Inr iv"
    then obtain args where "parseArgs args tty = Inr iv" by blast
    then show "wf_invocation tty iv" using parseArgs_wf [where args = args and tty = tty] by simp
  qed (use parse_args_of in blast)
  show "case parseArgs args tty of Inl e \<Rightarrow> (\<exists>m. e = Leaf (Usage (''buff: '' @ m))) \<and> exitCode (Some e) = 1 | Inr _ \<Rightarrow> True"
    using parseArgs_wf [where args = args and tty = tty] by (auto simp: usagef_def exitCode_def split: sum.split)
qed

end
