(* ===== verification/DiskFs.thy ===== *)
theory DiskFs imports DiskBacking GoStd "HOL-Library.Sublist" begin

text \<open>
  The confined filesystem the disk medium writes through: the methods of \<open>*os.Root\<close> that
  \<open>store/osroot.go\<close> pins, over the system of \<open>DiskBacking\<close>, and what a crash leaves of it.

  A path is its string below the root.  \<open>ents p\<close> is what the entry \<open>p\<close> may be on stable storage: every
  value it had since its directory was last flushed.  \<open>clean i\<close> says that the bytes of inode \<open>i\<close>
  are on stable storage.  Each call takes the next entry of the fault plan.
\<close>

definition slash :: "string \<Rightarrow> string \<Rightarrow> string" where
  "slash d n = d @ CHR ''/'' # n"

definition parent_dir :: "string \<Rightarrow> string" where
  "parent_dir p = rev (tl (dropWhile (\<lambda>c. c \<noteq> CHR ''/'') (rev p)))"

definition inside :: "string \<Rightarrow> string \<Rightarrow> bool" where
  "inside d p \<longleftrightarrow> prefix (slash d []) p"

text \<open>Every change of an entry goes through here.\<close>

definition set_ent :: "string \<Rightarrow> nat option \<Rightarrow> os \<Rightarrow> os" where
  "set_ent p v w = w\<lparr>dirent := (dirent w)(p := v), ents := (ents w)(p := insert v (ents w p)),
     paths := (if p \<in> set (paths w) then paths w else paths w @ [p])\<rparr>"

definition dir_there :: "string \<Rightarrow> os \<Rightarrow> bool" where
  "dir_there d w \<longleftrightarrow> d = '''' \<or> (case dirent w d of Some i \<Rightarrow> isdir w i | None \<Rightarrow> False)"

definition root_Mkdir :: "string \<Rightarrow> os \<Rightarrow> os \<times> err option" where
  "root_Mkdir p w =
     (case os_ans w of
        (w, Some (n, c)) \<Rightarrow> (w, Some (Leaf (OsFault c)))
      | (w, None) \<Rightarrow>
          (if dirent w p \<noteq> None then (w, Some (Leaf OsErrExist))
           else if \<not> dir_there (parent_dir p) w then (w, Some (Leaf OsErrNotExist))
           else (set_ent p (Some (inext w)) (w\<lparr>isdir := (isdir w)(inext w := True), inext := Suc (inext w)\<rparr>), None)))"

text \<open>\<open>OpenFile\<close> with \<open>O_WRONLY|O_CREATE|O_TRUNC\<close>.\<close>

definition root_Create :: "string \<Rightarrow> os \<Rightarrow> os \<times> (err + nat)" where
  "root_Create p w =
     (case os_ans w of
        (w, Some (n, c)) \<Rightarrow> (w, Inl (Leaf (OsFault c)))
      | (w, None) \<Rightarrow>
          (if \<not> dir_there (parent_dir p) w then (w, Inl (Leaf OsErrNotExist))
           else case dirent w p of
             Some i \<Rightarrow>
               (if isdir w i then (w, Inl (Leaf (OsFault 21)))
                else (w\<lparr>inode := (inode w)(i := []), clean := (clean w)(i := False),
                        fds := (fds w)(fnext w := Some i), fnext := Suc (fnext w)\<rparr>, Inr (fnext w)))
           | None \<Rightarrow>
               (let i = inext w;
                    w = set_ent p (Some i) (w\<lparr>inode := (inode w)(i := []), clean := (clean w)(i := False),
                          isdir := (isdir w)(i := False), inext := Suc i\<rparr>)
                in (w\<lparr>fds := (fds w)(fnext w := Some i), fnext := Suc (fnext w)\<rparr>, Inr (fnext w)))))"

text \<open>
  \<open>Rename\<close> moves the entry, and with a directory all that is inside it.  No entry is moved onto a
  directory that holds something: the callers rename within one directory, or onto a free name.
\<close>

definition moved :: "string \<Rightarrow> string \<Rightarrow> (string \<Rightarrow> nat option) \<Rightarrow> string \<Rightarrow> nat option" where
  "moved a b e p =
     (if p = b \<or> inside b p then e (a @ drop (length b) p)
      else if p = a \<or> inside a p then None else e p)"

definition root_Rename :: "string \<Rightarrow> string \<Rightarrow> os \<Rightarrow> os \<times> err option" where
  "root_Rename a b w =
     (case os_ans w of
        (w, Some (n, c)) \<Rightarrow> (w, Some (Leaf (OsFault c)))
      | (w, None) \<Rightarrow>
          (if dirent w a = None then (w, Some (Leaf OsErrNotExist))
           else if a = b then (w, None)
           else (w\<lparr>dirent := moved a b (dirent w),
                   ents := (\<lambda>p. if p = a \<or> p = b \<or> inside a p \<or> inside b p
                                then insert (moved a b (dirent w) p) (ents w p) else ents w p),
                   paths := paths w @ map (\<lambda>p. b @ drop (length a) p) (filter (\<lambda>p. p = a \<or> inside a p) (paths w))\<rparr>,
                 None)))"

text \<open>
  \<open>RemoveAll\<close>: on a fault an arbitrary part of what is inside may already be gone; bit \<open>k\<close> of the fault
  says so for the \<open>k\<close>-th known path.  A path that is not there is no error.
\<close>

definition gone :: "nat \<Rightarrow> string \<Rightarrow> os \<Rightarrow> string \<Rightarrow> bool" where
  "gone n d w p \<longleftrightarrow> inside d p \<and> (\<exists>k < length (paths w). paths w ! k = p \<and> bit n k)"

definition root_RemoveAll :: "string \<Rightarrow> os \<Rightarrow> os \<times> err option" where
  "root_RemoveAll d w =
     (case os_ans w of
        (w, None) \<Rightarrow>
          (w\<lparr>dirent := (\<lambda>p. if p = d \<or> inside d p then None else dirent w p),
             ents := (\<lambda>p. if p = d \<or> inside d p then insert None (ents w p) else ents w p)\<rparr>, None)
      | (w, Some (n, c)) \<Rightarrow>
          (w\<lparr>dirent := (\<lambda>p. if gone n d w p then None else dirent w p),
             ents := (\<lambda>p. if gone n d w p then insert None (ents w p) else ents w p)\<rparr>,
           Some (Leaf (OsFault c))))"

definition root_Stat :: "string \<Rightarrow> os \<Rightarrow> os \<times> (err + int64)" where
  "root_Stat p w =
     (case os_ans w of
        (w, Some (n, c)) \<Rightarrow> (w, Inl (Leaf (OsFault c)))
      | (w, None) \<Rightarrow>
          (case dirent w p of
             None \<Rightarrow> (w, Inl (Leaf OsErrNotExist))
           | Some i \<Rightarrow> (w, Inr (word_of_nat (length (inode w i))))))"

text \<open>The names in a directory, with whether each is a directory itself.\<close>

definition children :: "string \<Rightarrow> os \<Rightarrow> (string \<times> bool) list" where
  "children d w =
     map (\<lambda>p. (drop (length (slash d [])) p, isdir w (the (dirent w p))))
       (filter (\<lambda>p. inside d p \<and> parent_dir p = d \<and> dirent w p \<noteq> None) (remdups (paths w)))"

definition listDir :: "string \<Rightarrow> os \<Rightarrow> os \<times> (err + (string \<times> bool) list)" where
  "listDir d w =
     (case os_Open d w of
        (w, Inl e) \<Rightarrow> (w, Inl e)
      | (w, Inr f) \<Rightarrow>
          (case os_ans w of
             (w, Some (n, c)) \<Rightarrow> (fst (file_Close f w), Inl (Leaf (OsFault c)))
           | (w, None) \<Rightarrow> (fst (file_Close f w), Inr (children d w))))"

text \<open>Reading a file to its end, at most \<open>limit\<close> bytes.\<close>

definition root_ReadFile :: "string \<Rightarrow> nat option \<Rightarrow> os \<Rightarrow> os \<times> (err + byte list)" where
  "root_ReadFile p limit w =
     (case os_Open p w of
        (w, Inl e) \<Rightarrow> (w, Inl e)
      | (w, Inr f) \<Rightarrow>
          (let n = (case limit of Some k \<Rightarrow> k | None \<Rightarrow> Suc (length (inode w (the (fds w f)))))
           in case file_ReadAt f n 0 w of
                (w, bs, e) \<Rightarrow>
                  (fst (file_Close f w), if e = None \<or> e = Some (Leaf IoEOF) then Inr bs else Inl (the e))))"

text \<open>
  \<open>Sync\<close> of an open directory settles its entries.  The root itself is the directory \<open>.\<close>.
\<close>

definition settle :: "string \<Rightarrow> os \<Rightarrow> os" where
  "settle d w = w\<lparr>ents := (\<lambda>p. if parent_dir p = d then {dirent w p} else ents w p)\<rparr>"

definition dir_Sync :: "string \<Rightarrow> os \<Rightarrow> os \<times> err option" where
  "dir_Sync d w =
     (case os_ans w of
        (w, Some (n, c)) \<Rightarrow> (w, Some (Leaf (OsFault c)))
      | (w, None) \<Rightarrow> (settle (if d = ''.'' then '''' else d) w, None))"

subsection \<open>Crashes\<close>

text \<open>
  After a crash each entry is one of those it may be on stable storage, independently of the others: a
  rename may be found half done.  The bytes of a file that was not flushed are arbitrary.
\<close>

definition crash :: "os \<Rightarrow> os \<Rightarrow> bool" where
  "crash w w' \<longleftrightarrow>
     (\<forall>p. dirent w' p \<in> ents w p) \<and> (\<forall>p. ents w' p = {dirent w' p})
     \<and> (\<forall>i. clean w i \<longrightarrow> inode w' i = inode w i) \<and> (\<forall>i. clean w' i)
     \<and> isdir w' = isdir w \<and> inext w' = inext w \<and> set (paths w) \<subseteq> set (paths w')
     \<and> (\<forall>p. dirent w' p \<noteq> None \<longrightarrow> p \<in> set (paths w'))
     \<and> fds w' = (\<lambda>_. None) \<and> fnext w' = fnext w"

end
