(* ===== verification/DiskMedium.thy ===== *)
theory DiskMedium imports DiskFs Medium begin

text \<open>
  The disk medium, \<open>store/disk.go\<close> and \<open>store/meta.go\<close>: a generation is one directory below \<open>clips\<close>, its
  durable record the file \<open>meta.json\<close>.  \<open>encoding/json\<close> on the record is the codec \<open>J\<close>, an argument.
\<close>

subsection \<open>The layout and the record\<close>

definition dirClips :: string where "dirClips = ''clips''"
definition dirQuarantine :: string where "dirQuarantine = ''quarantine''"
definition fileData :: string where "fileData = ''data''"
definition fileMeta :: string where "fileMeta = ''meta.json''"
definition fileMetaTmp :: string where "fileMetaTmp = ''meta.json.tmp''"
definition fileConsumed :: string where "fileConsumed = ''meta.consumed''"
definition fileDeleted :: string where "fileDeleted = ''meta.deleted''"
definition fileAborted :: string where "fileAborted = ''meta.aborted''"

definition metaVersion :: int where "metaVersion = 1"

record metaFile =
  mf_Version :: int
  mf_Name :: string
  mf_Generation :: string
  mf_Kind :: Kind
  mf_Filename :: string
  mf_Executable :: bool
  mf_Size :: int64
  mf_CreatedAt :: time
  mf_FinalizedAt :: time
  mf_ExpiresAt :: time
  mf_ConsumeOnce :: bool
  mf_Checksum :: string

record codec =
  json_Marshal :: "metaFile \<Rightarrow> err + byte list"
  json_Unmarshal :: "byte list \<Rightarrow> err + metaFile"

definition maxMetaBytes :: nat where "maxMetaBytes = 2 ^ 20"

definition loadMeta :: "codec \<Rightarrow> byte list \<Rightarrow> err + metaFile" where
  "loadMeta J b =
     (case json_Unmarshal J b of
        Inl e \<Rightarrow> Inl (Wrapf ''decode meta.json'' [e])
      | Inr mf \<Rightarrow> if mf_Version mf > metaVersion then Inl (Wrapf ''meta.json version is newer than supported'' [])
                  else Inr mf)"

definition validate :: "metaFile \<Rightarrow> genID \<Rightarrow> int64 \<Rightarrow> err option" where
  "validate mf gid dataSize =
     (if mf_Generation mf \<noteq> genID_String gid then Some (Wrapf ''meta.json generation does not match its directory'' [])
      else if mf_Size mf \<noteq> dataSize then Some (Wrapf ''meta.json size does not match data file size'' [])
      else None)"

definition genPath :: "genID \<Rightarrow> string" where
  "genPath gid = slash dirClips (genID_String gid)"

subsection \<open>The byte logs of a disk store\<close>

text \<open>A generation's log is written through a file, or was recovered and is sealed.\<close>

datatype diskLog = LogDisk diskBacking | LogSealed sealedBacking

fun log_append :: "diskLog \<Rightarrow> byte list \<Rightarrow> os \<Rightarrow> diskLog \<times> os \<times> nat \<times> err option" where
  "log_append (LogDisk d) p w = (case disk_append d p w of (d, r) \<Rightarrow> (LogDisk d, r))"
| "log_append (LogSealed s) p w = (case sealed_append s p w of (s, r) \<Rightarrow> (LogSealed s, r))"

fun log_sync :: "diskLog \<Rightarrow> os \<Rightarrow> diskLog \<times> os \<times> err option" where
  "log_sync (LogDisk d) w = (case disk_sync d w of (d, r) \<Rightarrow> (LogDisk d, r))"
| "log_sync (LogSealed s) w = (case sealed_sync s w of (s, r) \<Rightarrow> (LogSealed s, r))"

fun log_openRead :: "diskLog \<Rightarrow> os \<Rightarrow> diskLog \<times> os \<times> (err + shareHandle)" where
  "log_openRead (LogDisk d) w = (case share_openRead d w of (d, r) \<Rightarrow> (LogDisk d, r))"
| "log_openRead (LogSealed s) w = (case share_openRead s w of (s, r) \<Rightarrow> (LogSealed s, r))"

fun log_closeWrite :: "diskLog \<Rightarrow> os \<Rightarrow> diskLog \<times> os \<times> err option" where
  "log_closeWrite (LogDisk d) w = (case disk_closeWrite d w of (d, r) \<Rightarrow> (LogDisk d, r))"
| "log_closeWrite (LogSealed s) w = (case sealed_closeWrite s w of (s, r) \<Rightarrow> (LogSealed s, r))"

fun log_ReadAt :: "shareHandle \<Rightarrow> diskLog \<Rightarrow> nat \<Rightarrow> int64 \<Rightarrow> os \<Rightarrow> os \<times> byte list \<times> err option" where
  "log_ReadAt h (LogDisk d) len off w = share_ReadAt h d len off w"
| "log_ReadAt h (LogSealed s) len off w = share_ReadAt h s len off w"

fun log_Close :: "shareHandle \<Rightarrow> diskLog \<Rightarrow> os \<Rightarrow> shareHandle \<times> diskLog \<times> os \<times> err option" where
  "log_Close h (LogDisk d) w = (case share_Close h d w of (h, d, r) \<Rightarrow> (h, LogDisk d, r))"
| "log_Close h (LogSealed s) w = (case share_Close h s w of (h, s, r) \<Rightarrow> (h, LogSealed s, r))"

definition diskLogB :: "(diskLog, shareHandle, os) backing" where
  "diskLogB = \<lparr>b_append = log_append, b_sync = log_sync, b_openRead = log_openRead,
     b_closeWrite = log_closeWrite, h_ReadAt = log_ReadAt, h_Close = log_Close\<rparr>"

subsection \<open>The content checksum\<close>

text \<open>CRC-32 with the Castagnoli polynomial, least significant bit first.\<close>

definition crc_bit :: "32 word \<Rightarrow> 32 word" where
  "crc_bit c = (if bit c 0 then xor (drop_bit 1 c) 2197175160 else drop_bit 1 c)"

definition crc_byte :: "32 word \<Rightarrow> byte \<Rightarrow> 32 word" where
  "crc_byte c b = (crc_bit ^^ 8) (xor c (ucast b))"

definition crc32c :: "byte list \<Rightarrow> 32 word" where
  "crc32c bs = not (foldl crc_byte (not 0) bs)"

definition checksum_text :: "byte list \<Rightarrow> string" where
  "checksum_text bs = (let c = crc32c bs
     in ''crc32c:'' @ EncodeToString [ucast (drop_bit 24 c), ucast (drop_bit 16 c), ucast (drop_bit 8 c), ucast c])"

definition checksumData :: "string \<Rightarrow> os \<Rightarrow> os \<times> (err + string)" where
  "checksumData dataPath w =
     (case root_ReadFile dataPath None w of
        (w, Inl e) \<Rightarrow> (w, Inl e)
      | (w, Inr bs) \<Rightarrow> (w, Inr (checksum_text bs)))"

subsection \<open>Durable steps\<close>

record diskMedium =
  dm_fsync :: bool
  dm_checksum :: bool

text \<open>The root itself is inode 0.\<close>

definition os_OpenRoot :: "os \<Rightarrow> os \<times> (err + nat)" where
  "os_OpenRoot w =
     (case os_ans w of
        (w, Some (n, c)) \<Rightarrow> (w, Inl (Leaf (OsFault c)))
      | (w, None) \<Rightarrow> (w\<lparr>fds := (fds w)(fnext w := Some 0), fnext := Suc (fnext w)\<rparr>, Inr (fnext w)))"

definition syncDir :: "string \<Rightarrow> os \<Rightarrow> os \<times> err option" where
  "syncDir p w =
     (case (if p = ''.'' then os_OpenRoot w else os_Open p w) of
        (w, Inl e) \<Rightarrow> (w, Some e)
      | (w, Inr f) \<Rightarrow> (case dir_Sync p w of (w, e) \<Rightarrow> (fst (file_Close f w), e)))"

definition commit :: "diskMedium \<Rightarrow> string \<Rightarrow> string \<Rightarrow> string \<Rightarrow> os \<Rightarrow> os \<times> bool \<times> err option" where
  "commit m genDir from to w =
     (case root_Rename (slash genDir from) (slash genDir to) w of
        (w, Some e) \<Rightarrow> (w, False, Some e)
      | (w, None) \<Rightarrow>
          (if \<not> dm_fsync m then (w, True, None)
           else case syncDir genDir w of (w, e) \<Rightarrow> (w, True, e)))"

definition mk :: "string \<Rightarrow> os \<Rightarrow> os \<times> (err + bool)" where
  "mk p w =
     (case root_Mkdir p w of
        (w, None) \<Rightarrow> (w, Inr True)
      | (w, Some e) \<Rightarrow> if is_err e OsErrExist then (w, Inr False) else (w, Inl e))"

definition ensureDirs :: "diskMedium \<Rightarrow> os \<Rightarrow> os \<times> err option" where
  "ensureDirs m w =
     (case mk dirClips w of
        (w, Inl e) \<Rightarrow> (w, Some e)
      | (w, Inr clipsNew) \<Rightarrow>
          (case mk dirQuarantine w of
             (w, Inl e) \<Rightarrow> (w, Some e)
           | (w, Inr quarNew) \<Rightarrow>
               (if dm_fsync m \<and> (clipsNew \<or> quarNew) then syncDir ''.'' w else (w, None))))"

definition makeGenDir :: "diskMedium \<Rightarrow> string \<Rightarrow> os \<Rightarrow> os \<times> err option" where
  "makeGenDir m genDir w =
     (case root_Mkdir genDir w of
        (w, Some e) \<Rightarrow> (w, Some e)
      | (w, None) \<Rightarrow> if \<not> dm_fsync m then (w, None) else syncDir dirClips w)"

definition openGen :: "diskMedium \<Rightarrow> string \<Rightarrow> os \<Rightarrow> os \<times> (err + diskLog buffer)" where
  "openGen m genDir w =
     (case makeGenDir m genDir w of
        (w, Some e) \<Rightarrow> (w, Inl e)
      | (w, None) \<Rightarrow>
          (case root_Create (slash genDir fileData) w of
             (w, Inl e) \<Rightarrow> (w, Inl e)
           | (w, Inr f) \<Rightarrow> (w, Inr (newBuffer (LogDisk (newDiskBacking f (slash genDir fileData) (dm_fsync m)))))))"

definition disk_create :: "diskMedium \<Rightarrow> genID \<Rightarrow> os \<Rightarrow> os \<times> (err + diskLog buffer)" where
  "disk_create m gid w =
     (case openGen m (genPath gid) w of
        (w, Inr b) \<Rightarrow> (w, Inr b)
      | (w, Inl e) \<Rightarrow> (fst (root_RemoveAll (genPath gid) w), Inl e))"

definition writeMeta :: "diskMedium \<Rightarrow> codec \<Rightarrow> string \<Rightarrow> metaFile \<Rightarrow> os \<Rightarrow> os \<times> err option" where
  "writeMeta m J genDir mf w =
     (case json_Marshal J mf of
        Inl e \<Rightarrow> (w, Some e)
      | Inr b \<Rightarrow>
          (case root_Create (slash genDir fileMetaTmp) w of
             (w, Inl e) \<Rightarrow> (w, Some e)
           | (w, Inr f) \<Rightarrow>
               (case file_Write f b w of
                  (w, n, Some e) \<Rightarrow> (fst (file_Close f w), Some e)
                | (w, n, None) \<Rightarrow>
                    (case (if dm_fsync m then file_Sync f w else (w, None)) of
                       (w, Some e) \<Rightarrow> (fst (file_Close f w), Some e)
                     | (w, None) \<Rightarrow> file_Close f w))))"

definition meta_of :: "'b generation \<Rightarrow> metaFile" where
  "meta_of g = \<lparr>mf_Version = metaVersion, mf_Name = g_name g, mf_Generation = genID_String (g_id g),
     mf_Kind = Kind (g_meta g), mf_Filename = Filename (g_meta g), mf_Executable = Executable (g_meta g),
     mf_Size = bsize (g_buf g), mf_CreatedAt = g_created g, mf_FinalizedAt = g_finalized g,
     mf_ExpiresAt = g_expires g, mf_ConsumeOnce = g_consume g, mf_Checksum = ''''\<rparr>"

definition disk_finalize :: "diskMedium \<Rightarrow> codec \<Rightarrow> diskLog generation \<Rightarrow> os \<Rightarrow> os \<times> bool \<times> err option" where
  "disk_finalize m J g w =
     (let genDir = genPath (g_id g); mf = meta_of g
      in case (if dm_checksum m then checksumData (slash genDir fileData) w else (w, Inr '''')) of
           (w, Inl e) \<Rightarrow> (w, False, Some e)
         | (w, Inr cs) \<Rightarrow>
             (case writeMeta m J genDir (mf\<lparr>mf_Checksum := cs\<rparr>) w of
                (w, Some e) \<Rightarrow> (w, False, Some e)
              | (w, None) \<Rightarrow> commit m genDir fileMetaTmp fileMeta w))"

definition disk_claim :: "diskMedium \<Rightarrow> diskLog generation \<Rightarrow> os \<Rightarrow> os \<times> bool \<times> err option" where
  "disk_claim m g w = commit m (genPath (g_id g)) fileMeta fileConsumed w"

definition disk_unpublish :: "diskMedium \<Rightarrow> diskLog generation \<Rightarrow> os \<Rightarrow> os \<times> bool \<times> err option" where
  "disk_unpublish m g w = commit m (genPath (g_id g)) fileMeta fileDeleted w"

definition disk_abortPublish :: "diskMedium \<Rightarrow> diskLog generation \<Rightarrow> os \<Rightarrow> os" where
  "disk_abortPublish m g w = fst (commit m (genPath (g_id g)) fileMeta fileAborted w)"

definition disk_remove :: "diskLog generation \<Rightarrow> os \<Rightarrow> os" where
  "disk_remove g w = fst (root_RemoveAll (genPath (g_id g)) w)"

definition disk_medium :: "diskMedium \<Rightarrow> codec \<Rightarrow> (diskLog, shareHandle, os) medium" where
  "disk_medium m J = \<lparr>m_back = diskLogB, m_create = disk_create m, m_finalize = disk_finalize m J,
     m_claim = disk_claim m, m_unpublish = disk_unpublish m, m_abortPublish = disk_abortPublish m,
     m_remove = disk_remove\<rparr>"

subsection \<open>It is a medium\<close>

lemma log_append_bound: "log_append k p w = (k', w', n, e) \<Longrightarrow> n \<le> length p"
  by (cases k) (auto simp: disk_append_def sealed_append_def file_Write_def Let_def split: prod.splits option.splits)

lemma disk_create_fresh: "disk_create m i w = (w', Inr b) \<Longrightarrow> bsize b = 0 \<and> \<not> terminated b"
  by (auto simp: disk_create_def openGen_def newBuffer_def terminated_def split: prod.splits option.splits sum.splits)

interpretation diskmed: medium_contract "disk_medium m J" for m J
  by unfold_locales (auto simp: disk_medium_def diskLogB_def disk_create_fresh dest: log_append_bound)

end
