(* ===== verification/DiskInv.thy ===== *)
theory DiskInv imports DiskMedium begin

text \<open>
  What holds of the disk between calls: the paths of different generations never meet, every file of a
  generation's directory belongs to that generation alone, and a call for one generation leaves every
  other generation's home as it was.
\<close>

subsection \<open>The paths of a home\<close>

abbreviation hm :: "genID \<Rightarrow> string \<Rightarrow> string" where
  "hm g f \<equiv> slash (genPath g) f"

definition flat :: "string \<Rightarrow> bool" where
  "flat f \<longleftrightarrow> CHR ''/'' \<notin> set f"

lemma hextable_flat: "k < 16 \<Longrightarrow> hextable ! k \<noteq> CHR ''/''"
  by (auto simp: hextable_def less_Suc_eq numeral_eq_Suc)

lemma genID_flat [simp]: "flat (genID_String g)"
proof -
  have "CHR ''/'' \<notin> set (hex_byte b)" for b
  proof -
    have "unat b div 16 < 16" "unat b mod 16 < 16" using unat_byte_less [of b] by simp_all
    then show ?thesis using hextable_flat [of "unat b div 16"] hextable_flat [of "unat b mod 16"]
      by (auto simp: hex_byte_def)
  qed
  then show ?thesis by (auto simp: flat_def genID_String_def EncodeToString_def)
qed

lemma flat_names [simp]: "flat fileData" "flat fileMeta" "flat fileMetaTmp" "flat fileConsumed" "flat fileDeleted"
  "flat fileAborted" "flat dirClips" "flat dirQuarantine"
  by (simp_all add: flat_def fileData_def fileMeta_def fileMetaTmp_def fileConsumed_def fileDeleted_def
      fileAborted_def dirClips_def dirQuarantine_def)

lemma parent_slash: "flat f \<Longrightarrow> parent_dir (slash d f) = d"
proof -
  assume "flat f"
  then have "dropWhile (\<lambda>c. c \<noteq> CHR ''/'') (rev f @ CHR ''/'' # rev d) = CHR ''/'' # rev d"
    by (subst dropWhile_append2) (auto simp: flat_def)
  then show ?thesis by (simp add: parent_dir_def slash_def)
qed

lemma slash_inj: "flat f \<Longrightarrow> flat f' \<Longrightarrow> slash d f = slash d' f' \<longleftrightarrow> d = d' \<and> f = f'"
  by (metis append_same_eq list.inject parent_slash same_append_eq slash_def)

lemma len_id: "wf_id g \<Longrightarrow> length (genID_String g) = 32"
  by (simp add: genID_String_def length_EncodeToString wf_id_def)

lemma genPath_inj [simp]: "wf_id g \<Longrightarrow> wf_id g' \<Longrightarrow> genPath g = genPath g' \<longleftrightarrow> g = g'"
  by (auto simp: genPath_def slash_inj dest: genID_String_inj)

lemma hm_inj [simp]: "wf_id g \<Longrightarrow> wf_id g' \<Longrightarrow> flat f \<Longrightarrow> flat f' \<Longrightarrow> hm g f = hm g' f' \<longleftrightarrow> g = g' \<and> f = f'"
  by (auto simp: slash_inj)

lemma parent_hm [simp]: "flat f \<Longrightarrow> parent_dir (hm g f) = genPath g"
  by (rule parent_slash)

lemma parent_genPath [simp]: "parent_dir (genPath g) = dirClips"
  by (simp add: genPath_def parent_slash)

lemma len_path: "wf_id g \<Longrightarrow> length (genPath g) = 38"
  by (simp add: genPath_def slash_def dirClips_def len_id)

lemma genPath_not_hm [simp]: "wf_id g \<Longrightarrow> wf_id g' \<Longrightarrow> genPath g \<noteq> hm g' f" "wf_id g \<Longrightarrow> wf_id g' \<Longrightarrow> hm g' f \<noteq> genPath g"
  using len_path [of g] len_path [of g'] by (auto simp: slash_def dest!: arg_cong [where f = length])

lemma inside_hm [simp]: "wf_id g \<Longrightarrow> wf_id g' \<Longrightarrow> inside (genPath g) (hm g' f) \<longleftrightarrow> g = g'"
proof
  assume w: "wf_id g" "wf_id g'" and "inside (genPath g) (hm g' f)"
  then obtain z where "genPath g' @ CHR ''/'' # f = genPath g @ CHR ''/'' # z"
    by (auto simp: inside_def slash_def prefix_def)
  then have "genPath g' = genPath g" using w by (simp add: append_eq_append_conv len_path)
  then show "g = g'" using w by simp
qed (simp add: inside_def slash_def)

lemma not_inside_path [simp]: "wf_id g \<Longrightarrow> wf_id g' \<Longrightarrow> \<not> inside (genPath g) (genPath g')"
  using prefix_length_le len_path [of g] len_path [of g'] by (fastforce simp: inside_def slash_def)

lemma not_inside_hm [simp]: "flat f' \<Longrightarrow> wf_id g \<Longrightarrow> wf_id g' \<Longrightarrow> \<not> inside (hm g f) (hm g' f')"
proof
  assume w: "flat f'" "wf_id g" "wf_id g'" and "inside (hm g f) (hm g' f')"
  then obtain z where "genPath g' @ CHR ''/'' # f' = genPath g @ CHR ''/'' # f @ CHR ''/'' # z"
    by (auto simp: inside_def slash_def prefix_def)
  then have "f' = f @ CHR ''/'' # z" using w by (simp add: append_eq_append_conv len_path)
  then show False using w(1) by (simp add: flat_def)
qed

lemma not_inside_gp [simp]: "wf_id g \<Longrightarrow> wf_id g' \<Longrightarrow> \<not> inside (hm g f) (genPath g')"
  using prefix_length_le len_path [of g] len_path [of g'] by (fastforce simp: inside_def slash_def)

text \<open>Nothing under \<open>quarantine\<close> is in a home.\<close>

lemma quarantine_apart [simp]:
  "slash dirQuarantine x \<noteq> genPath g" "slash dirQuarantine x \<noteq> hm g f"
  "\<not> inside (slash dirQuarantine x) (genPath g)" "\<not> inside (slash dirQuarantine x) (hm g f)"
  by (auto simp: slash_def dirQuarantine_def genPath_def dirClips_def inside_def)

text \<open>Nor is another directory below \<open>clips\<close>.\<close>

lemma foreign_apart:
  assumes "flat x" "x \<noteq> genID_String g"
  shows "slash dirClips x \<noteq> genPath g" and "slash dirClips x \<noteq> hm g f"
    and "\<not> inside (slash dirClips x) (genPath g)" and "\<not> inside (slash dirClips x) (hm g f)"
proof -
  have *: "takeWhile (\<lambda>c. c \<noteq> CHR ''/'') (y @ CHR ''/'' # z) = y" "takeWhile (\<lambda>c. c \<noteq> CHR ''/'') y = y" if "flat y" for y z
    using that by (force simp: flat_def takeWhile_append takeWhile_eq_all_conv)+
  note x = * [OF assms(1)] and g = * [OF genID_flat [of g]]
  show "slash dirClips x \<noteq> genPath g" using assms by (simp add: genPath_def slash_inj)
  have "x \<noteq> genID_String g @ CHR ''/'' # f" using assms(1) by (auto simp: flat_def)
  then show "slash dirClips x \<noteq> hm g f" by (simp add: slash_def genPath_def)
  have "genID_String g \<noteq> x @ CHR ''/'' # z" for z
    using genID_flat [of g] by (auto simp: flat_def)
  then show "\<not> inside (slash dirClips x) (genPath g)"
    by (auto simp: inside_def slash_def genPath_def prefix_def)
  have "genID_String g @ CHR ''/'' # f \<noteq> x @ CHR ''/'' # z" for z
    using assms(2) x(1) [of z] g(1) [of f] by metis
  then show "\<not> inside (slash dirClips x) (hm g f)"
    by (auto simp: inside_def slash_def genPath_def prefix_def)
qed

subsection \<open>What every call keeps\<close>

definition home_path :: "genID \<Rightarrow> string \<Rightarrow> bool" where
  "home_path g p \<longleftrightarrow> p = genPath g \<or> (\<exists>f. flat f \<and> p = hm g f)"

definition owned :: "os \<Rightarrow> genID \<Rightarrow> nat \<Rightarrow> bool" where
  "owned w g i \<longleftrightarrow> (\<exists>p. home_path g p \<and> Some i \<in> ents w p)"

definition disk_ok :: "os \<Rightarrow> bool" where
  "disk_ok w \<longleftrightarrow> 0 < inext w \<and> (\<forall>p. dirent w p \<in> ents w p) \<and> (\<forall>p. dirent w p \<noteq> None \<longrightarrow> p \<in> set (paths w))
     \<and> (\<forall>p i. Some i \<in> ents w p \<longrightarrow> i < inext w)
     \<and> (\<forall>f i. fds w f = Some i \<longrightarrow> f < fnext w \<and> i < inext w)
     \<and> (\<forall>g g' i. wf_id g \<and> wf_id g' \<and> owned w g i \<and> owned w g' i \<longrightarrow> g = g')"

text \<open>The home of \<open>g\<close> is as it was, and its entries and bytes are at least as settled.\<close>

definition linked :: "os \<Rightarrow> genID \<Rightarrow> nat \<Rightarrow> bool" where
  "linked w g i \<longleftrightarrow> (\<exists>p. home_path g p \<and> dirent w p = Some i)"

definition keeps :: "genID \<Rightarrow> os \<Rightarrow> os \<Rightarrow> bool" where
  "keeps g w w' \<longleftrightarrow>
     (\<forall>p. home_path g p \<longrightarrow> dirent w' p = dirent w p \<and> ents w' p \<subseteq> ents w p)
     \<and> (\<forall>i. linked w g i \<longrightarrow> inode w' i = inode w i \<and> (clean w i \<longrightarrow> clean w' i) \<and> isdir w' i = isdir w i
          \<and> (\<forall>f. fds w f = Some i \<longrightarrow> fds w' f = Some i))"

lemma home_path_same: "wf_id g \<Longrightarrow> wf_id g' \<Longrightarrow> home_path g p \<Longrightarrow> home_path g' p \<Longrightarrow> g = g'"
  by (auto simp: home_path_def)

lemma home_path_hm [simp]: "flat f \<Longrightarrow> home_path g (hm g f)" "home_path g (genPath g)"
  by (auto simp: home_path_def)

lemma linked_owned: "disk_ok w \<Longrightarrow> linked w g i \<Longrightarrow> owned w g i"
  unfolding disk_ok_def linked_def owned_def by metis

lemma linked_apart: "disk_ok w \<Longrightarrow> wf_id g \<Longrightarrow> wf_id g' \<Longrightarrow> linked w g i \<Longrightarrow> owned w g' i \<Longrightarrow> g' = g"
  using linked_owned [of w g i] unfolding disk_ok_def by blast

lemma linked_less: "disk_ok w \<Longrightarrow> linked w g i \<Longrightarrow> i < inext w"
  unfolding disk_ok_def linked_def by metis

lemma keeps_refl [simp]: "keeps g w w"
  by (simp add: keeps_def)

lemma keeps_linked: "keeps g w w' \<Longrightarrow> linked w' g i \<longleftrightarrow> linked w g i"
  unfolding keeps_def linked_def by metis

lemma keeps_trans:
  assumes a: "keeps g w w1" and b: "keeps g w1 w2"
  shows "keeps g w w2"
proof -
  have "dirent w2 p = dirent w p \<and> ents w2 p \<subseteq> ents w p" if "home_path g p" for p
    using a b that unfolding keeps_def by (metis order_trans)
  moreover have "inode w2 i = inode w i \<and> (clean w i \<longrightarrow> clean w2 i) \<and> isdir w2 i = isdir w i
      \<and> (\<forall>f. fds w f = Some i \<longrightarrow> fds w2 f = Some i)" if "linked w g i" for i
  proof -
    have "linked w1 g i" using keeps_linked [OF a] that by simp
    then show ?thesis using a b that unfolding keeps_def by metis
  qed
  ultimately show ?thesis by (simp add: keeps_def)
qed

subsection \<open>The calls of the system, one by one\<close>

lemma ans_frame: "os_ans w = (w', a) \<Longrightarrow> \<exists>r. w' = w\<lparr>plan := r\<rparr>"
  by (auto simp: os_ans_def split: list.splits intro: exI [of _ "plan w"])

lemma ok_frame [simp]:
  "disk_ok (w\<lparr>plan := r\<rparr>) = disk_ok w" "disk_ok (w\<lparr>inode := c\<rparr>) = disk_ok w" "disk_ok (w\<lparr>clean := k\<rparr>) = disk_ok w"
  "disk_ok (w\<lparr>isdir := d\<rparr>) = disk_ok w"
  by (simp_all add: disk_ok_def owned_def)

lemma plan_frame [simp]: "linked (w\<lparr>plan := r\<rparr>) = linked w" "owned (w\<lparr>plan := r\<rparr>) = owned w"
  "keeps g w (w'\<lparr>plan := r\<rparr>) = keeps g w w'" "keeps g (w\<lparr>plan := r\<rparr>) w' = keeps g w w'"
  by (simp_all add: keeps_def linked_def owned_def fun_eq_iff)

lemma ok_next: "disk_ok w \<Longrightarrow> disk_ok (w\<lparr>inext := Suc (inext w)\<rparr>)"
  by (auto simp: disk_ok_def owned_def less_Suc_eq)

lemma ok_fd: "disk_ok w \<Longrightarrow> i < inext w \<Longrightarrow> disk_ok (w\<lparr>fds := (fds w)(fnext w := Some i), fnext := Suc (fnext w)\<rparr>)"
  by (auto simp: disk_ok_def owned_def less_Suc_eq)

lemma ok_unfd: "disk_ok w \<Longrightarrow> disk_ok (w\<lparr>fds := (fds w)(f := None)\<rparr>)"
  by (auto simp: disk_ok_def owned_def)

lemma owned_less: "disk_ok w \<Longrightarrow> owned w g i \<Longrightarrow> i < inext w"
  by (auto simp: disk_ok_def owned_def)

lemma set_ent_sel [simp]:
  "dirent (set_ent p v w) = (dirent w)(p := v)" "ents (set_ent p v w) q = (if q = p then insert v (ents w p) else ents w q)"
  "set (paths (set_ent p v w)) = insert p (set (paths w))" "inext (set_ent p v w) = inext w"
  "fds (set_ent p v w) = fds w" "fnext (set_ent p v w) = fnext w" "inode (set_ent p v w) = inode w"
  "clean (set_ent p v w) = clean w" "isdir (set_ent p v w) = isdir w"
  by (auto simp: set_ent_def)

lemma owned_set_ent: "owned (set_ent p v w) g i \<longleftrightarrow> owned w g i \<or> (home_path g p \<and> v = Some i)"
  unfolding owned_def set_ent_sel by (metis insert_iff)

lemma ok_set_ent:
  assumes "disk_ok w" and "i < inext w" and "\<And>g. \<not> owned w g i"
  shows "disk_ok (set_ent p (Some i) w)"
proof -
  have apart: "g = g'"
    if "wf_id g" "wf_id g'" "owned (set_ent p (Some i) w) g j" "owned (set_ent p (Some i) w) g' j" for g g' j
  proof (cases "j = i")
    case True
    then show ?thesis using that assms(3) home_path_same [of g g' p] by (simp add: owned_set_ent)
  next
    case False
    then have "owned w g j" "owned w g' j" using that by (simp_all add: owned_set_ent)
    then show ?thesis using assms(1) that(1,2) unfolding disk_ok_def by blast
  qed
  show ?thesis unfolding disk_ok_def
    using assms(1,2) apart by (auto simp: disk_ok_def subset_iff)
qed

lemma fresh_unowned: "disk_ok w \<Longrightarrow> \<not> owned (w\<lparr>inext := k\<rparr>) g (inext w)"
  using owned_less [of w g "inext w"] by (auto simp: owned_def)

lemma ok_new: "disk_ok w \<Longrightarrow> disk_ok (set_ent p (Some (inext w)) (w\<lparr>inext := Suc (inext w)\<rparr>))"
  by (rule ok_set_ent) (simp_all add: ok_next fresh_unowned)

lemma keeps_set_ent: "keeps g w w1 \<Longrightarrow> \<not> home_path g p \<Longrightarrow> keeps g w (set_ent p v w1)"
  by (auto simp: keeps_def)

lemma keeps_inode:
  assumes "\<And>i. linked w g i \<Longrightarrow> c i = inode w1 i \<and> (clean w1 i \<longrightarrow> k i) \<and> d i = isdir w1 i"
  shows "keeps g w w1 \<Longrightarrow> keeps g w (w1\<lparr>inode := c, clean := k, isdir := d, inext := n\<rparr>)"
  using assms by (auto simp: keeps_def)

lemma keeps_fds:
  assumes "\<And>f i. linked w g i \<Longrightarrow> fds w f = Some i \<Longrightarrow> h f = fds w1 f"
  shows "keeps g w w1 \<Longrightarrow> keeps g w (w1\<lparr>fds := h, fnext := n\<rparr>)"
  using assms by (auto simp: keeps_def)

lemma Mkdir_law:
  assumes "disk_ok w" and "root_Mkdir p w = (w', e)"
  shows "disk_ok w'" and "\<not> home_path g p \<Longrightarrow> keeps g w w'"
proof -
  obtain w1 a r where a: "os_ans w = (w1, a)" and w1: "w1 = w\<lparr>plan := r\<rparr>" using ans_frame [of w] by (metis surj_pair)
  have ok1: "disk_ok w1" using assms(1) by (simp add: w1)
  let ?n = "set_ent p (Some (inext w1)) (w1\<lparr>isdir := (isdir w1)(inext w1 := True), inext := Suc (inext w1)\<rparr>)"
  have w': "w' = w1 \<or> w' = ?n"
    using assms(2) by (auto simp: root_Mkdir_def a split: option.splits if_splits)
  have "disk_ok ?n" using ok_new [of "w1\<lparr>isdir := (isdir w1)(inext w1 := True)\<rparr>" p] ok1 by simp
  then show "disk_ok w'" using w' ok1 by auto
  assume p: "\<not> home_path g p"
  have "keeps g w (w1\<lparr>inode := inode w1, clean := clean w1, isdir := (isdir w1)(inext w1 := True), inext := Suc (inext w1)\<rparr>)"
    using linked_less [OF assms(1)] by (intro keeps_inode) (auto simp: w1)
  then have "keeps g w ?n" using p by (simp add: keeps_set_ent)
  then show "keeps g w w'" using w' by (auto simp: w1)
qed

text \<open>What a call has to do to keep the invariant: new entries only for a new inode.\<close>

lemma ok_step:
  assumes w: "disk_ok w" and n: "inext w \<le> inext w'"
    and "\<And>q. dirent w' q \<in> ents w' q" and "\<And>q i. dirent w' q = Some i \<Longrightarrow> q \<in> set (paths w')"
    and "\<And>q i. Some i \<in> ents w' q \<Longrightarrow> i < inext w'"
    and "\<And>f i. fds w' f = Some i \<Longrightarrow> f < fnext w' \<and> i < inext w'"
    and o: "\<And>g i. wf_id g \<Longrightarrow> owned w' g i \<Longrightarrow> owned w g i \<or> i = inext w \<and> home_path g p"
  shows "disk_ok w'"
proof -
  have "g = g'" if "wf_id g" "wf_id g'" "owned w' g i" "owned w' g' i" for g g' i
  proof (cases "i = inext w")
    case True
    then show ?thesis using that o [of g i] o [of g' i] owned_less [OF w, of _ i] home_path_same [of g g' p] by blast
  next
    case False
    then have "owned w g i" "owned w g' i" using that o by blast+
    then show ?thesis using w that(1,2) unfolding disk_ok_def by blast
  qed
  moreover have "0 < inext w'" using w n by (simp add: disk_ok_def)
  moreover have "f < fnext w'" "i < inext w'" if "fds w' f = Some i" for f i using assms(6) that by blast+
  ultimately show ?thesis unfolding disk_ok_def
    using assms(3-5) by (intro conjI allI impI) blast+
qed

lemmas okD = disk_ok_def [THEN iffD1]

lemma ok_sel:
  assumes "disk_ok w"
  shows "dirent w p \<in> ents w p" and "dirent w p = Some i \<Longrightarrow> p \<in> set (paths w)" and "Some i \<in> ents w p \<Longrightarrow> i < inext w"
    and "dirent w p = Some i \<Longrightarrow> i < inext w" and "fds w f = Some i \<Longrightarrow> f < fnext w" and "fds w f = Some i \<Longrightarrow> i < inext w"
  using assms unfolding disk_ok_def by (blast, blast, blast, metis, blast, blast)

lemma fd_free: "disk_ok w \<Longrightarrow> fds w (fnext w) = None"
  using ok_sel(5) [of w "fnext w"] by (cases "fds w (fnext w)") auto

lemma ans_cases:
  obtains r where "os_ans w = (w\<lparr>plan := r\<rparr>, None)" | r n c where "os_ans w = (w\<lparr>plan := r\<rparr>, Some (n, c))"
  by (metis ans_frame not_Some_eq surj_pair)

lemma Create_law:
  assumes ok: "disk_ok w" and c: "root_Create p w = (w', r)"
  shows "disk_ok w'"
    and "\<not> home_path g p \<Longrightarrow> (\<And>i. dirent w p = Some i \<Longrightarrow> \<not> linked w g i) \<Longrightarrow> keeps g w w'"
proof -
  have "disk_ok w' \<and> (\<not> home_path g p \<longrightarrow> (\<forall>i. dirent w p = Some i \<longrightarrow> \<not> linked w g i) \<longrightarrow> keeps g w w')"
  proof (cases rule: ans_cases [of w])
    case (1 q)
    show ?thesis
    proof (cases "dir_there (parent_dir p) (w\<lparr>plan := q\<rparr>)")
      case there: True
      show ?thesis
      proof (cases "dirent w p")
        case None
        then have s: "dirent w' = (dirent w)(p := Some (inext w))" "ents w' = (ents w)(p := insert (Some (inext w)) (ents w p))"
          "set (paths w') = insert p (set (paths w))" "inext w' = Suc (inext w)" "fds w' = (fds w)(fnext w := Some (inext w))"
          "fnext w' = Suc (fnext w)" "inode w' = (inode w)(inext w := [])" "clean w' = (clean w)(inext w := False)"
          "isdir w' = (isdir w)(inext w := False)"
          using c 1 there by (auto simp: root_Create_def Let_def fun_eq_iff)
        have "owned w g i \<or> i = inext w \<and> home_path g p" if "owned w' g i" for g i
          using that unfolding owned_def s by (auto split: if_splits)
        then have "disk_ok w'"
          using ok_sel [OF ok] by (intro ok_step [OF ok, where p = p]) (auto simp: s less_Suc_eq split: if_splits)
        moreover have "keeps g w w'" if "\<not> home_path g p"
          using that linked_less [OF ok, of g] ok_sel(5) [OF ok] unfolding keeps_def s by auto
        ultimately show ?thesis by blast
      next
        case (Some i)
        then have s: "dirent w' = dirent w" "ents w' = ents w" "paths w' = paths w" "inext w' = inext w" "isdir w' = isdir w"
          "w' = w\<lparr>plan := q\<rparr> \<or> fds w' = (fds w)(fnext w := Some i) \<and> fnext w' = Suc (fnext w) \<and> inode w' = (inode w)(i := []) \<and> clean w' = (clean w)(i := False)"
          using c 1 there by (auto simp: root_Create_def Let_def fun_eq_iff split: if_splits)
        have "owned w' = owned w" by (simp add: owned_def s fun_eq_iff)
        then have "disk_ok w'"
          using ok_sel [OF ok] s(6) Some
          by (intro ok_step [OF ok, where p = p]) (auto simp: s(1-5) less_Suc_eq split: if_splits)
        moreover have "keeps g w w'" if "\<not> linked w g i"
          using that s(6) fd_free [OF ok] unfolding keeps_def s(1-5) by auto
        ultimately show ?thesis using Some by blast
      qed
    qed (use c 1 ok in \<open>auto simp: root_Create_def\<close>)
  qed (use c ok in \<open>auto simp: root_Create_def\<close>)
  then show "disk_ok w'" "\<not> home_path g p \<Longrightarrow> (\<And>i. dirent w p = Some i \<Longrightarrow> \<not> linked w g i) \<Longrightarrow> keeps g w w'" by blast+
qed

lemma Open_law:
  assumes ok: "disk_ok w" and c: "os_Open p w = (w', r)"
  shows "disk_ok w'" and "keeps g w w'"
proof -
  have "disk_ok w' \<and> keeps g w w'"
  proof (cases rule: ans_cases [of w])
    case (1 q)
    show ?thesis
    proof (cases "dirent w p")
      case (Some i)
      then have w': "w' = w\<lparr>plan := q, fds := (fds w)(fnext w := Some i), fnext := Suc (fnext w)\<rparr>"
        using c 1 by (auto simp: os_Open_def)
      have "disk_ok w'" using ok_fd [of "w\<lparr>plan := q\<rparr>" i] ok ok_sel(4) [OF ok Some] by (simp add: w')
      moreover have "keeps g w w'" using fd_free [OF ok] by (auto simp: keeps_def w')
      ultimately show ?thesis by blast
    qed (use c 1 ok in \<open>auto simp: os_Open_def\<close>)
  qed (use c ok in \<open>auto simp: os_Open_def\<close>)
  then show "disk_ok w'" "keeps g w w'" by blast+
qed

lemma Close_law:
  assumes "file_Close f w = (w', e)"
  shows "disk_ok w \<Longrightarrow> disk_ok w'" and "keeps g v w \<Longrightarrow> (\<And>i. linked v g i \<Longrightarrow> fds v f \<noteq> Some i) \<Longrightarrow> keeps g v w'"
proof -
  have w': "w' = w \<or> (\<exists>q. w' = w\<lparr>plan := q, fds := (fds w)(f := None)\<rparr>)"
    using assms by (cases rule: ans_cases [of w]) (auto simp: file_Close_def split: option.splits)
  then show "disk_ok w \<Longrightarrow> disk_ok w'" using ok_unfd [of "w\<lparr>plan := _\<rparr>" f] by auto
  assume k: "keeps g v w" and f: "\<And>i. linked v g i \<Longrightarrow> fds v f \<noteq> Some i"
  have "keeps g v (w\<lparr>fds := (fds w)(f := None), fnext := fnext w\<rparr>)"
    using k f by (intro keeps_fds) auto
  moreover have "w\<lparr>plan := q, fds := (fds w)(f := None)\<rparr>
      = (w\<lparr>fds := (fds w)(f := None), fnext := fnext w\<rparr>)\<lparr>plan := q\<rparr>" for q by simp
  ultimately show "keeps g v w'" using w' k by (metis plan_frame(3))
qed

lemma Write_law:
  assumes ok: "disk_ok w" and c: "file_Write f p w = (w', n, e)"
  shows "disk_ok w'" and "(\<And>i. fds w f = Some i \<Longrightarrow> \<not> linked w g i) \<Longrightarrow> keeps g w w'"
proof -
  have w': "w' = w \<or> (\<exists>i q x. fds w f = Some i \<and> w' = w\<lparr>plan := q, inode := (inode w)(i := x), clean := (clean w)(i := False)\<rparr>)"
    using c by (cases rule: ans_cases [of w]) (auto simp: file_Write_def split: option.splits)
  then show "disk_ok w'" using ok by auto
  show "(\<And>i. fds w f = Some i \<Longrightarrow> \<not> linked w g i) \<Longrightarrow> keeps g w w'"
    using w' by (auto simp: keeps_def)
qed

lemma Sync_law:
  assumes c: "file_Sync f w = (w', e)"
  shows "disk_ok w \<Longrightarrow> disk_ok w'" and "keeps g w w'"
proof -
  have w': "w' = w \<or> (\<exists>i q x. w' = w\<lparr>plan := q\<rparr> \<or> w' = w\<lparr>plan := q, clean := (clean w)(i := True)\<rparr>)"
    using c by (cases rule: ans_cases [of w]) (auto simp: file_Sync_def split: option.splits)
  then show "disk_ok w \<Longrightarrow> disk_ok w'" by auto
  show "keeps g w w'" using w' by (auto simp: keeps_def)
qed

lemma ReadAt_law: "file_ReadAt f n off w = (w', bs, e) \<Longrightarrow> w' = w \<or> (\<exists>q. w' = w\<lparr>plan := q\<rparr>)"
  by (cases rule: ans_cases [of w]) (auto simp: file_ReadAt_def Let_def split: option.splits)

lemma Stat_law: "root_Stat p w = (w', r) \<Longrightarrow> w' = w \<or> (\<exists>q. w' = w\<lparr>plan := q\<rparr>)"
  by (cases rule: ans_cases [of w]) (auto simp: root_Stat_def Let_def split: option.splits)

lemma RemoveAll_cases:
  assumes c: "root_RemoveAll d w = (w', e)"
  obtains X q where "w' = w\<lparr>plan := q, dirent := (\<lambda>p. if X p then None else dirent w p),
      ents := (\<lambda>p. if X p then insert None (ents w p) else ents w p)\<rparr>"
    "\<And>p. X p \<Longrightarrow> p = d \<or> inside d p" "e = None \<Longrightarrow> X = (\<lambda>p. p = d \<or> inside d p)"
proof (cases rule: ans_cases [of w])
  case (1 r)
  then show ?thesis using c that [of "\<lambda>p. p = d \<or> inside d p" r] by (auto simp: root_RemoveAll_def cong: if_cong)
next
  case (2 r n m)
  then show ?thesis using c that [of "gone n d w" r] by (auto simp: root_RemoveAll_def gone_def cong: if_cong)
qed

lemma RemoveAll_law:
  assumes ok: "disk_ok w" and c: "root_RemoveAll d w = (w', e)"
  shows "disk_ok w'" and "(\<And>p. home_path g p \<Longrightarrow> p \<noteq> d \<and> \<not> inside d p) \<Longrightarrow> keeps g w w'"
proof -
  obtain X q where w': "w' = w\<lparr>plan := q, dirent := (\<lambda>p. if X p then None else dirent w p),
      ents := (\<lambda>p. if X p then insert None (ents w p) else ents w p)\<rparr>" and X: "\<And>p. X p \<Longrightarrow> p = d \<or> inside d p"
    by (rule RemoveAll_cases [OF c]) (rule that)
  have "owned w' g i \<Longrightarrow> owned w g i" for g i unfolding owned_def by (auto simp: w' split: if_splits)
  then show "disk_ok w'"
    using ok_sel [OF ok] by (intro ok_step [OF ok]) (auto simp: w' split: if_splits)
  show "(\<And>p. home_path g p \<Longrightarrow> p \<noteq> d \<and> \<not> inside d p) \<Longrightarrow> keeps g w w'"
    using X unfolding keeps_def by (auto simp: w')
qed

lemma dirSync_law:
  assumes ok: "disk_ok w" and c: "dir_Sync d w = (w', e)"
  shows "disk_ok w'" and "keeps g w w'"
proof -
  have w': "\<exists>q x. w' = w\<lparr>plan := q\<rparr> \<or> w' = settle x (w\<lparr>plan := q\<rparr>)"
    using c by (cases rule: ans_cases [of w]) (auto simp: dir_Sync_def)
  moreover have "disk_ok (settle x (w\<lparr>plan := q\<rparr>))" for x q
  proof -
    have "owned (settle x (w\<lparr>plan := q\<rparr>)) g i \<Longrightarrow> owned w g i" for g i
      using ok_sel(1) [OF ok] unfolding owned_def settle_def by (auto split: if_splits)
    then show ?thesis using ok_sel [OF ok] by (intro ok_step [OF ok]) (auto simp: settle_def split: if_splits)
  qed
  ultimately show "disk_ok w'" using ok by auto
  show "keeps g w w'" using w' ok_sel(1) [OF ok] unfolding keeps_def by (auto simp: settle_def split: if_splits)
qed

lemma moved_home:
  assumes "wf_id g" "flat a" "flat b" "flat f" "wf_id g'" "a \<noteq> b"
  shows "moved (hm g a) (hm g b) e (hm g' f)
    = (if g' = g \<and> f = b then e (hm g a) else if g' = g \<and> f = a then None else e (hm g' f))"
    and "moved (hm g a) (hm g b) e (genPath g') = e (genPath g')"
  using assms by (auto simp: moved_def)

lemma home_cases: "home_path g p \<Longrightarrow> p = genPath g \<or> (\<exists>f. flat f \<and> p = hm g f)"
  by (simp add: home_path_def)

text \<open>A rename inside a home, and one that takes a directory out of \<open>clips\<close>.\<close>

lemma Rename_cases:
  assumes "root_Rename a b w = (w', e)"
  obtains q x where "w' = w\<lparr>plan := q\<rparr>" "e = Some x"
  | q where "w' = w\<lparr>plan := q\<rparr>" "a = b" "dirent w a \<noteq> None" "e = None"
  | "e = None" "a \<noteq> b" "dirent w a \<noteq> None" "dirent w' = moved a b (dirent w)"
    "ents w' = (\<lambda>p. if p = a \<or> p = b \<or> inside a p \<or> inside b p then insert (moved a b (dirent w) p) (ents w p) else ents w p)"
    "paths w' = paths w @ map (\<lambda>p. b @ drop (length a) p) (filter (\<lambda>p. p = a \<or> inside a p) (paths w))"
    "inext w' = inext w" "fds w' = fds w" "fnext w' = fnext w" "inode w' = inode w" "clean w' = clean w" "isdir w' = isdir w"
  using assms by (cases rule: ans_cases [of w]) (auto simp: root_Rename_def split: if_splits cong: if_cong)

lemma moved_paths:
  assumes "\<And>p i. e p = Some i \<Longrightarrow> p \<in> set ps" and "moved a b e p = Some i"
  shows "p \<in> set ps \<or> p \<in> (\<lambda>p. b @ drop (length a) p) ` {q \<in> set ps. q = a \<or> inside a q}"
proof (cases "p = b \<or> inside b p")
  case True
  then obtain z where z: "p = b @ z" "z = [] \<or> (\<exists>y. z = CHR ''/'' # y)"
    by (auto simp: inside_def slash_def prefix_def)
  then have "a @ z \<in> set ps" using assms True by (auto simp: moved_def)
  moreover have "a @ z = a \<or> inside a (a @ z)" using z(2) by (auto simp: inside_def slash_def)
  ultimately show ?thesis using z(1) by (intro disjI2 image_eqI [of _ _ "a @ z"]) auto
qed (use assms in \<open>auto simp: moved_def split: if_splits\<close>)

lemma Rename_ok:
  assumes ok: "disk_ok w" and c: "root_Rename a b w = (w', e)"
    and h: "\<And>g p. wf_id g \<Longrightarrow> home_path g p \<Longrightarrow> p = b \<or> inside b p \<Longrightarrow> home_path g (a @ drop (length b) p)"
  shows "disk_ok w'"
  using c
proof (cases rule: Rename_cases)
  case 3
  have m: "moved a b (dirent w) p = None \<or> moved a b (dirent w) p = dirent w p
      \<or> (p = b \<or> inside b p) \<and> moved a b (dirent w) p = dirent w (a @ drop (length b) p)" for p
    by (simp add: moved_def)
  have "owned w g i" if wg: "wf_id g" and og: "owned w' g i" for g i
  proof -
    obtain p where p: "home_path g p" "Some i \<in> ents w' p" using og by (auto simp: owned_def)
    then consider "Some i \<in> ents w p" | "p = b \<or> inside b p" "dirent w (a @ drop (length b) p) = Some i"
      using m [of p] ok_sel(1) [OF ok, of p] unfolding 3 by (auto split: if_splits)
    then show ?thesis using p(1) h [OF wg p(1)] ok_sel(1) [OF ok, of "a @ drop (length b) p"]
      unfolding owned_def by cases metis+
  qed
  moreover have "q \<in> set (paths w')" if "dirent w' q = Some i" for q i
    using moved_paths [of "dirent w" "paths w" a b q i] ok_sel(2) [OF ok] that unfolding 3 by auto
  moreover have "dirent w' q \<in> ents w' q" for q
    using ok_sel(1) [OF ok, of q] unfolding 3 by (auto simp: moved_def)
  moreover have "i < inext w" if "Some i \<in> ents w' q" for q i
    using that m [of q] ok_sel(3,4) [OF ok] unfolding 3 by (auto split: if_splits)
  ultimately show ?thesis using ok_sel(5,6) [OF ok] by (intro ok_step [OF ok]) (auto simp: 3(7-9))
qed (use ok in auto)

lemma Rename_keeps:
  assumes "root_Rename a b w = (w', e)"
    and "\<And>p. home_path g p \<Longrightarrow> p \<noteq> a \<and> p \<noteq> b \<and> \<not> inside a p \<and> \<not> inside b p"
  shows "keeps g w w'"
  using assms(1)
proof (cases rule: Rename_cases)
  case 3
  then show ?thesis using assms(2) by (auto simp: keeps_def moved_def)
qed auto

subsection \<open>The medium's calls\<close>

lemma syncDir_law:
  assumes ok: "disk_ok w" and c: "syncDir p w = (w', e)"
  shows "disk_ok w'" and "keeps g w w'"
proof -
  have O: "disk_ok w1 \<and> keeps g w w1 \<and> (\<forall>f. r = Inr f \<longrightarrow> f = fnext w)" if "os_OpenRoot w = (w1, r)" for w1 r
  proof (cases rule: ans_cases [of w])
    case (1 q)
    then have w1: "w1 = w\<lparr>plan := q, fds := (fds w)(fnext w := Some 0), fnext := Suc (fnext w)\<rparr>" "r = Inr (fnext w)"
      using that by (auto simp: os_OpenRoot_def)
    have "0 < inext w" using ok unfolding disk_ok_def by blast
    then have "disk_ok w1" using ok_fd [of "w\<lparr>plan := q\<rparr>" 0] ok by (simp add: w1)
    moreover have "keeps g w w1" using fd_free [OF ok] by (auto simp: keeps_def w1)
    ultimately show ?thesis using w1 by blast
  qed (use that ok in \<open>auto simp: os_OpenRoot_def\<close>)
  have P: "\<forall>f. r = Inr f \<longrightarrow> f = fnext w" if "os_Open p w = (w1, r)" for w1 r
    using that by (cases rule: ans_cases [of w]) (auto simp: os_Open_def split: option.splits)
  obtain w1 r where r: "(if p = ''.'' then os_OpenRoot w else os_Open p w) = (w1, r)" by (metis surj_pair)
  have 1: "disk_ok w1" "keeps g w w1" "\<And>f. r = Inr f \<Longrightarrow> f = fnext w"
    using r O P Open_law [OF ok] by (auto split: if_splits)
  have "disk_ok w' \<and> keeps g w w'"
  proof (cases r)
    case (Inr f)
    obtain w2 e2 where 2: "dir_Sync p w1 = (w2, e2)" by (metis surj_pair)
    have w': "file_Close f w2 = (w', snd (file_Close f w2))"
      using c by (auto simp: syncDir_def r Inr 2)
    have "disk_ok w2" "keeps g w w2"
      using dirSync_law [OF 1(1) 2] keeps_trans [OF 1(2)] by blast+
    then show ?thesis using Close_law(1) [OF w'] Close_law(2) [OF w', of g w] 1(3) Inr fd_free [OF ok] by simp
  qed (use c 1 in \<open>auto simp: syncDir_def r\<close>)
  then show "disk_ok w'" "keeps g w w'" by blast+
qed

text \<open>The two together, as the calls are composed.\<close>

definition stays :: "genID \<Rightarrow> os \<Rightarrow> os \<Rightarrow> bool" where
  "stays g w w' \<longleftrightarrow> (disk_ok w \<longrightarrow> disk_ok w' \<and> keeps g w w')"

lemma stays_refl [simp]: "stays g w w"
  by (simp add: stays_def)

lemma stays_trans: "stays g w w1 \<Longrightarrow> stays g w1 w2 \<Longrightarrow> stays g w w2"
  unfolding stays_def using keeps_trans by blast

lemma home_apart:
  assumes "home_path g p" "wf_id g" "wf_id g'" "g' \<noteq> g"
  shows "p \<noteq> genPath g'" "\<not> inside (genPath g') p" "flat f \<Longrightarrow> p \<noteq> hm g' f" "\<not> inside (hm g' f) p"
  using assms by (auto simp: home_path_def)

lemma home_within:
  assumes "home_path g p" "wf_id g" "wf_id g'" "flat b" "p = hm g' b \<or> inside (hm g' b) p"
  shows "p = hm g' b \<and> g = g'"
  using assms by (auto simp: home_path_def)

lemma Rename_stays:
  assumes c: "root_Rename (hm g' a) (hm g' b) w = (w', e)" and h: "wf_id g'" "flat a" "flat b"
  shows "disk_ok w \<Longrightarrow> disk_ok w'" and "wf_id g \<Longrightarrow> g' \<noteq> g \<Longrightarrow> keeps g w w'"
proof -
  assume ok: "disk_ok w"
  show "disk_ok w'"
  proof (rule Rename_ok [OF ok c])
    fix v p assume "wf_id v" "home_path v p" "p = hm g' b \<or> inside (hm g' b) p"
    then have "p = hm g' b \<and> v = g'" using home_within [of v p g' b] h by blast
    then show "home_path v (hm g' a @ drop (length (hm g' b)) p)" using h by simp
  qed
next
  assume "wf_id g" "g' \<noteq> g"
  then show "keeps g w w'" using home_apart [of g _ g'] h by (intro Rename_keeps [OF c]) blast
qed

lemma commit_stays:
  assumes "commit m (genPath g') a b w = (w', ok, e)" and "wf_id g'" "wf_id g" "g' \<noteq> g" "flat a" "flat b"
  shows "stays g w w'"
proof -
  obtain w1 e1 where 1: "root_Rename (hm g' a) (hm g' b) w = (w1, e1)" by (metis surj_pair)
  have "stays g w w1"
    unfolding stays_def using Rename_stays [OF 1] assms(2-) by blast
  moreover have "stays g w1 w'"
    using assms(1) unfolding commit_def 1 stays_def
    by (auto split: option.splits if_splits prod.splits dest: syncDir_law)
  ultimately show ?thesis by (rule stays_trans)
qed

lemma Create_own:
  assumes "root_Create p w = (w', Inr f)"
  obtains i where "f = fnext w" "fds w' = (fds w)(f := Some i)" "fnext w' = Suc (fnext w)" "dirent w' = (dirent w)(p := Some i)"
    "ents w' = (if dirent w p = None then (ents w)(p := insert (Some i) (ents w p)) else ents w)"
    "i = (case dirent w p of None \<Rightarrow> inext w | Some j \<Rightarrow> j)" "inode w' = (inode w)(i := [])" "clean w' = (clean w)(i := False)"
    "isdir w' = (isdir w)(i := False)" "inext w' = (if dirent w p = None then Suc (inext w) else inext w)"
proof (cases rule: ans_cases [of w])
  case (1 q)
  show ?thesis
  proof (cases "dirent w p")
    case None
    then show ?thesis
      using assms 1 by (intro that [of "inext w"]) (auto simp: root_Create_def Let_def fun_eq_iff split: if_splits)
  next
    case (Some i)
    moreover from this have "\<not> isdir w i" using assms 1 by (auto simp: root_Create_def split: if_splits)
    ultimately show ?thesis
      using assms 1 by (intro that [of i]) (auto simp: root_Create_def Let_def fun_eq_iff split: if_splits)
  qed
qed (use assms in \<open>simp add: root_Create_def\<close>)

lemma Create_stays:
  assumes "root_Create (hm g' f) w = (w', r)" "wf_id g'" "flat f" "wf_id g" "g' \<noteq> g"
  shows "stays g w w'"
proof -
  have "\<not> linked w g i" if "disk_ok w" "dirent w (hm g' f) = Some i" for i
  proof -
    have "linked w g' i" using that(2) assms(3) unfolding linked_def by (metis home_path_hm(1))
    then show ?thesis using linked_apart [OF that(1) assms(4,2)] linked_owned [OF that(1)] assms(5) by blast
  qed
  moreover have "\<not> home_path g (hm g' f)" using home_apart(3) [of g "hm g' f" g' f] assms by auto
  ultimately show ?thesis unfolding stays_def using Create_law [OF _ assms(1)] by blast
qed

lemma makeGenDir_stays:
  assumes "makeGenDir m (genPath g') w = (w', e)" "wf_id g'" "wf_id g" "g' \<noteq> g"
  shows "stays g w w'"
proof -
  have n: "\<not> home_path g (genPath g')" using home_apart(1) [of g "genPath g'" g'] assms by auto
  obtain w1 e1 where 1: "root_Mkdir (genPath g') w = (w1, e1)" by (metis surj_pair)
  obtain w2 e2 where 2: "syncDir dirClips w1 = (w2, e2)" by (metis surj_pair)
  have s1: "stays g w w1" using Mkdir_law [OF _ 1] n by (auto simp: stays_def)
  have "stays g w1 w2" using syncDir_law [OF _ 2] by (auto simp: stays_def)
  then have "stays g w w2" by (rule stays_trans [OF s1])
  then show ?thesis using assms(1) s1 by (auto simp: makeGenDir_def 1 2 split: option.splits if_splits)
qed

lemma RemoveAll_stays:
  assumes "root_RemoveAll (genPath g') w = (w', e)" "wf_id g'" "wf_id g" "g' \<noteq> g"
  shows "stays g w w'"
  using RemoveAll_law [OF _ assms(1)] home_apart(1,2) [of g _ g'] assms(2-) unfolding stays_def by blast

lemma create_stays:
  assumes "disk_create m g' w = (w', r)" "wf_id g'" "wf_id g" "g' \<noteq> g"
  shows "stays g w w'"
proof -
  have O: "stays g w w1" if o: "openGen m (genPath g') w = (w1, q)" for w1 q
  proof -
    obtain v e where v: "makeGenDir m (genPath g') w = (v, e)" by (metis surj_pair)
    then have a: "stays g w v" using makeGenDir_stays assms(2-) by blast
    obtain v1 f where c: "root_Create (hm g' fileData) v = (v1, f)" by (metis surj_pair)
    then have "stays g v v1" using Create_stays assms(2-) by auto
    then have "stays g w v1" by (rule stays_trans [OF a])
    then show ?thesis using o a by (auto simp: openGen_def v c split: option.splits sum.splits)
  qed
  obtain w1 q where o: "openGen m (genPath g') w = (w1, q)" by (metis surj_pair)
  obtain w2 e where r: "root_RemoveAll (genPath g') w1 = (w2, e)" by (metis surj_pair)
  have "stays g w w2" by (rule stays_trans [OF O [OF o] RemoveAll_stays [OF r assms(2-)]])
  then show ?thesis using assms(1) O [OF o] by (auto simp: disk_create_def o r split: sum.splits)
qed

text \<open>A file opened and closed again within a call: its descriptor was free before.\<close>

lemma Close_stays:
  assumes "stays g w w1" "file_Close f w1 = (w2, e)" "disk_ok w \<Longrightarrow> fds w f = None"
  shows "stays g w w2"
  using assms Close_law(1) [OF assms(2)] Close_law(2) [OF assms(2), of g w] unfolding stays_def by auto

lemma closed_fst: "fst (file_Close f w) = w' \<Longrightarrow> \<exists>e. file_Close f w = (w', e)"
  by (metis fst_conv surj_pair)

lemma ReadFile_stays:
  assumes "root_ReadFile p limit w = (w', r)"
  shows "stays g w w'"
proof -
  obtain w1 q where o: "os_Open p w = (w1, q)" by (metis surj_pair)
  have 1: "stays g w w1" using Open_law [OF _ o] by (auto simp: stays_def)
  show ?thesis
  proof (cases q)
    case (Inr f)
    then have f: "f = fnext w" using o by (cases rule: ans_cases [of w]) (auto simp: os_Open_def split: option.splits)
    obtain w2 bs e n where 2: "file_ReadAt f n 0 w1 = (w2, bs, e)" "w' = fst (file_Close f w2)"
      using assms by (auto simp: root_ReadFile_def o Inr Let_def split: prod.splits)
    have "stays g w w2" using 1 ReadAt_law [OF 2(1)] by (auto simp: stays_def)
    then show ?thesis using Close_stays fd_free f 2(2) closed_fst by metis
  qed (use assms 1 in \<open>auto simp: root_ReadFile_def o\<close>)
qed

lemma checksumData_stays: "checksumData p w = (w', r) \<Longrightarrow> stays g w w'"
  by (auto simp: checksumData_def split: prod.splits sum.splits dest: ReadFile_stays)

lemma own_fd_apart:
  assumes "disk_ok w" "fds w f = Some i" "linked w g' i" "wf_id g'" "wf_id g" "g' \<noteq> g"
  shows "fds w f = Some j \<Longrightarrow> \<not> linked w g j"
  using assms linked_apart [of w g g' i] linked_owned [of w g' i] by auto

lemma writeMeta_stays:
  assumes "writeMeta m J (genPath g') mf w = (w', e)" "wf_id g'" "wf_id g" "g' \<noteq> g"
  shows "stays g w w'"
proof (cases "json_Marshal J mf")
  case (Inr b)
  obtain w1 q where c: "root_Create (hm g' fileMetaTmp) w = (w1, q)" by (metis surj_pair)
  have 1: "stays g w w1" using Create_stays [OF c] assms(2-) by simp
  show ?thesis
  proof (cases q)
    case q: (Inr f)
    obtain i where i: "f = fnext w" "fds w1 f = Some i" "dirent w1 (hm g' fileMetaTmp) = Some i"
      using c q by (auto elim!: Create_own)
    have l: "linked w1 g' i" using i(3) unfolding linked_def by (metis flat_names(3) home_path_hm(1))
    obtain w2 n e2 where 2: "file_Write f b w1 = (w2, n, e2)" by (metis surj_pair)
    have "stays g w1 w2"
      using Write_law(1) [OF _ 2] Write_law(2) [OF _ 2, of g] own_fd_apart [OF _ i(2) l assms(2-4)] unfolding stays_def by blast
    then have s2: "stays g w w2" using 1 stays_trans by blast
    obtain w3 e3 where 3: "(if dm_fsync m then file_Sync f w2 else (w2, None)) = (w3, e3)" by (metis surj_pair)
    have "stays g w2 w3" using 3 Sync_law [of f w2] by (auto simp: stays_def split: if_splits)
    then have s3: "stays g w w3" using s2 stays_trans by blast
    have "\<exists>x. x \<in> {w2, w3} \<and> fst (file_Close f x) = w'"
      using assms(1) by (auto simp: writeMeta_def Inr c q 2 3 split: option.splits)
    then show ?thesis using Close_stays s2 s3 fd_free i(1) closed_fst by (metis empty_iff insert_iff)
  qed (use assms(1) 1 in \<open>auto simp: writeMeta_def Inr c\<close>)
qed (use assms(1) in \<open>auto simp: writeMeta_def\<close>)

lemma finalize_stays:
  assumes "disk_finalize m J gn w = (w', ok, e)" "wf_id (g_id gn)" "wf_id g" "g_id gn \<noteq> g"
  shows "stays g w w'"
proof -
  obtain w1 q where c: "(if dm_checksum m then checksumData (hm (g_id gn) fileData) w else (w, Inr [])) = (w1, q)"
    by (metis surj_pair)
  have 1: "stays g w w1" using c checksumData_stays by (auto split: if_splits)
  show ?thesis
  proof (cases q)
    case (Inr cs)
    obtain w2 e2 where 2: "writeMeta m J (genPath (g_id gn)) (meta_of gn\<lparr>mf_Checksum := cs\<rparr>) w1 = (w2, e2)"
      by (metis surj_pair)
    have s2: "stays g w w2" using stays_trans [OF 1 writeMeta_stays [OF 2 assms(2-)]] .
    obtain w3 o3 e3 where 3: "commit m (genPath (g_id gn)) fileMetaTmp fileMeta w2 = (w3, o3, e3)" by (metis surj_pair)
    have "stays g w w3" using stays_trans [OF s2 commit_stays [OF 3 assms(2-)]] by simp
    then show ?thesis using assms(1) s2 by (auto simp: disk_finalize_def Let_def c Inr 2 3 split: option.splits)
  qed (use assms(1) 1 in \<open>auto simp: disk_finalize_def Let_def c\<close>)
qed

end
