(* ===== verification/DiskSpec.thy ===== *)
theory DiskSpec imports DiskInv begin

text \<open>
  What the disk medium promises, and that it keeps the promise: a disk is a map from generation ids to
  published generations (their record and bytes), publication and retirement change one entry of it at
  once, and no other call changes it.  \<open>published\<close> is the abstraction function, \<open>disk_call\<close> the calls of
  the medium and of its logs, \<open>spec_step\<close> the promise.
\<close>

definition published :: "codec \<Rightarrow> os \<Rightarrow> genID \<Rightarrow> (metaFile \<times> byte list) option" where
  "published J w g =
     (if \<not> wf_id g \<or> \<not> dir_there (genPath g) w then None
      else case dirent w (hm g fileMeta) of None \<Rightarrow> None | Some i \<Rightarrow>
        (case loadMeta J (take maxMetaBytes (inode w i)) of Inl e \<Rightarrow> None | Inr mf \<Rightarrow>
          (case dirent w (hm g fileData) of None \<Rightarrow> None | Some j \<Rightarrow> Some (mf, inode w j))))"

lemma genPath_ne [simp]: "genPath g \<noteq> []"
  by (simp add: genPath_def slash_def)

lemma linkedI: "home_path g p \<Longrightarrow> dirent w p = Some i \<Longrightarrow> linked w g i"
  by (auto simp: linked_def)

lemma published_keeps:
  assumes "keeps g w w'"
  shows "published J w' g = published J w g"
proof -
  have d: "dirent w' (genPath g) = dirent w (genPath g)" "dirent w' (hm g fileMeta) = dirent w (hm g fileMeta)"
    "dirent w' (hm g fileData) = dirent w (hm g fileData)"
    using assms by (simp_all add: keeps_def)
  have i: "inode w' i = inode w i" "isdir w' i = isdir w i" if "home_path g p" "dirent w p = Some i" for p i
    using assms linkedI [OF that] by (simp_all add: keeps_def)
  show ?thesis unfolding published_def dir_there_def d
    by (auto simp: i [of "genPath g"] i [of "hm g fileMeta"] i [of "hm g fileData"] split: option.splits sum.splits)
qed

text \<open>A call for one generation leaves the others' entries of the map alone.\<close>

lemma published_stays:
  assumes "disk_ok w" and "\<And>v. wf_id v \<Longrightarrow> v \<noteq> g \<Longrightarrow> stays v w w'"
  shows "published J w' = (published J w)(g := published J w' g)"
proof
  fix v
  show "published J w' v = ((published J w)(g := published J w' g)) v"
  proof (cases "v = g \<or> \<not> wf_id v")
    case False
    then show ?thesis using published_keeps assms unfolding stays_def by auto
  qed (auto simp: published_def)
qed

lemma published_none: "dirent w (hm g fileMeta) = None \<Longrightarrow> published J w g = None"
  by (simp add: published_def)

datatype call = Begin genID | Grow genID | Shut genID | Look | Publish genID "metaFile \<times> byte list" bool
  | Retire genID bool | Erase genID

fun call_gen :: "call \<Rightarrow> genID option" where
  "call_gen (Begin g) = Some g"
| "call_gen (Grow g) = Some g"
| "call_gen (Shut g) = Some g"
| "call_gen Look = None"
| "call_gen (Publish g r c) = Some g"
| "call_gen (Retire g c) = Some g"
| "call_gen (Erase g) = Some g"

inductive spec_step ::
  "(genID \<Rightarrow> (metaFile \<times> byte list) option) \<Rightarrow> call \<Rightarrow> (genID \<Rightarrow> (metaFile \<times> byte list) option) \<Rightarrow> bool" where
  "P g = None \<Longrightarrow> spec_step P (Begin g) P"
| "P g = None \<Longrightarrow> spec_step P (Grow g) P"
| "spec_step P (Shut g) P"
| "spec_step P Look P"
| "P g = None \<Longrightarrow> spec_step P (Publish g r True) (P(g \<mapsto> r))"
| "P g = None \<Longrightarrow> spec_step P (Publish g r False) P"
| "spec_step P (Retire g True) (P(g := None))"
| "spec_step P (Retire g False) P"
| "v = None \<or> v = P g \<Longrightarrow> spec_step P (Erase g) (P(g := v))"

text \<open>A home nothing uses, and the home of a generation that is still written through \<open>d\<close>.\<close>

definition vacant :: "os \<Rightarrow> genID \<Rightarrow> bool" where
  "vacant w g \<longleftrightarrow> (\<forall>p. home_path g p \<longrightarrow> dirent w p = None)"

definition live_home :: "os \<Rightarrow> genID \<Rightarrow> nat \<Rightarrow> nat \<Rightarrow> bool" where
  "live_home w g d j \<longleftrightarrow> dirent w (genPath g) = Some d \<and> isdir w d \<and> dirent w (hm g fileData) = Some j
     \<and> (\<forall>f. flat f \<and> f \<noteq> fileData \<longrightarrow> dirent w (hm g f) = None)"

definition writes_to :: "diskLog buffer \<Rightarrow> os \<Rightarrow> nat \<Rightarrow> bool" where
  "writes_to b w j \<longleftrightarrow> (\<exists>d. bback b = LogDisk d \<and> fds w (appendFD d) = Some j)"

text \<open>\<open>encoding/json\<close> on this record: what it writes it reads back, and it is short.\<close>

definition codec_fits :: "codec \<Rightarrow> metaFile \<Rightarrow> bool" where
  "codec_fits J mf \<longleftrightarrow> mf_Version mf \<le> metaVersion \<and> (case json_Marshal J mf of Inl e \<Rightarrow> True
     | Inr b \<Rightarrow> json_Unmarshal J b = Inr mf \<and> length b \<le> maxMetaBytes)"

definition record_of :: "diskMedium \<Rightarrow> diskLog generation \<Rightarrow> byte list \<Rightarrow> metaFile" where
  "record_of m gn bs = (meta_of gn)\<lparr>mf_Checksum := if dm_checksum m then checksum_text bs else ''''\<rparr>"

inductive disk_call :: "diskMedium \<Rightarrow> codec \<Rightarrow> os \<Rightarrow> call \<Rightarrow> os \<Rightarrow> bool" for m J where
  create: "wf_id g \<Longrightarrow> vacant w g \<Longrightarrow> disk_create m g w = (w', r) \<Longrightarrow> disk_call m J w (Begin g) w'"
| append: "wf_id g \<Longrightarrow> live_home w g d j \<Longrightarrow> writes_to b w j \<Longrightarrow> buf_Append diskLogB p b w = (b', w', n, e)
    \<Longrightarrow> disk_call m J w (Grow g) w'"
| fsync: "wf_id g \<Longrightarrow> live_home w g d j \<Longrightarrow> writes_to b w j \<Longrightarrow> buf_Sync diskLogB b w = (b', w', e)
    \<Longrightarrow> disk_call m J w (Grow g) w'"
| finish: "wf_id g \<Longrightarrow> linked w g j \<Longrightarrow> writes_to b w j \<Longrightarrow> buf_Finish diskLogB b w = (b', w', e)
    \<Longrightarrow> disk_call m J w (Shut g) w'"
| failed: "wf_id g \<Longrightarrow> linked w g j \<Longrightarrow> writes_to b w j \<Longrightarrow> buf_Fail diskLogB b w = (b', w', e)
    \<Longrightarrow> disk_call m J w (Shut g) w'"
| openRead: "log_openRead k w = (k', w', r) \<Longrightarrow> disk_call m J w Look w'"
| pread: "log_ReadAt h k len off w = (w', bs, e) \<Longrightarrow> disk_call m J w Look w'"
| finalize: "wf_id (g_id gn) \<Longrightarrow> live_home w (g_id gn) d j \<Longrightarrow> codec_fits J (record_of m gn (inode w j))
    \<Longrightarrow> disk_finalize m J gn w = (w', c, e)
    \<Longrightarrow> disk_call m J w (Publish (g_id gn) (record_of m gn (inode w j), inode w j) c) w'"
| claim: "wf_id (g_id gn) \<Longrightarrow> disk_claim m gn w = (w', c, e) \<Longrightarrow> disk_call m J w (Retire (g_id gn) c) w'"
| unpublish: "wf_id (g_id gn) \<Longrightarrow> disk_unpublish m gn w = (w', c, e) \<Longrightarrow> disk_call m J w (Retire (g_id gn) c) w'"
| abort: "wf_id (g_id gn) \<Longrightarrow> commit m (genPath (g_id gn)) fileMeta fileAborted w = (w', c, e)
    \<Longrightarrow> disk_abortPublish m gn w = w' \<Longrightarrow> disk_call m J w (Retire (g_id gn) c) w'"
| remove: "wf_id (g_id gn) \<Longrightarrow> disk_remove gn w = w' \<Longrightarrow> disk_call m J w (Erase (g_id gn)) w'"

subsection \<open>Other generations\<close>

lemma other_id: "\<exists>v. wf_id v \<and> v \<noteq> g"
proof -
  have "replicate 16 0 \<noteq> (replicate 16 1 :: genID)" by simp
  moreover have "wf_id (replicate 16 0)" "wf_id (replicate 16 1)" by (simp_all add: wf_id_def)
  ultimately show ?thesis by metis
qed

lemma append_stays:
  assumes "buf_Append diskLogB p b w = (b', w', n, e)" "linked w g' j" "writes_to b w j" "wf_id g'" "wf_id g" "g' \<noteq> g"
  shows "stays g w w'"
proof -
  obtain d where d: "bback b = LogDisk d" "fds w (appendFD d) = Some j" using assms(3) by (auto simp: writes_to_def)
  obtain w1 n1 e1 where 1: "file_Write (appendFD d) p w = (w1, n1, e1)" by (metis surj_pair)
  have "stays g w w1"
    using Write_law(1) [OF _ 1] Write_law(2) [OF _ 1, of g] own_fd_apart [OF _ d(2) assms(2,4-6)]
    unfolding stays_def by blast
  then show ?thesis
    using assms(1) by (auto simp: buf_Append_def diskLogB_def d(1) disk_append_def 1 Let_def split: if_splits)
qed

lemma sync_stays:
  assumes "buf_Sync diskLogB b w = (b', w', e)" "bback b = LogDisk d"
  shows "stays g w w'"
  using assms Sync_law [of "appendFD d" w]
  by (auto simp: buf_Sync_def diskLogB_def disk_sync_def stays_def split: if_splits prod.splits)

lemma closeWrite_stays:
  assumes "log_closeWrite (LogDisk d) w = (k, w', e)" "fds w (appendFD d) = Some j" "linked w g' j"
    "wf_id g'" "wf_id g" "g' \<noteq> g"
  shows "stays g w w'"
proof (cases "wOnce d")
  case False
  obtain w1 e1 where 1: "file_Close (appendFD d) w = (w1, e1)" by (metis surj_pair)
  have "stays g w w1"
    using Close_law(1) [OF 1] Close_law(2) [OF 1, of g w] own_fd_apart [OF _ assms(2-6)] unfolding stays_def by auto
  then show ?thesis using assms(1) by (auto simp: disk_closeWrite_def False 1)
qed (use assms(1) in \<open>auto simp: disk_closeWrite_def\<close>)

lemma share_stays: "share_openRead s w = (s', w', r) \<Longrightarrow> stays g w w'"
  using Open_law [of w "rs_open s"]
  by (auto simp: share_openRead_def stays_def split: if_splits prod.splits sum.splits)

lemma openRead_stays: "log_openRead k w = (k', w', r) \<Longrightarrow> stays g w w'"
  by (cases k) (auto split: prod.splits dest: share_stays)

lemma pread_stays: "log_ReadAt h k len off w = (w', bs, e) \<Longrightarrow> stays g w w'"
  using ReadAt_law [of "sh_fd h" len off w]
  by (cases k) (auto simp: share_ReadAt_def stays_def split: if_splits)

lemma linked_live: "live_home w g d j \<Longrightarrow> linked w g j"
  by (auto simp: live_home_def linked_def intro!: exI [of _ "hm g fileData"])

lemma disk_call_stays:
  assumes "disk_call m J w c w'" and "wf_id g" and "call_gen c \<noteq> Some g"
  shows "stays g w w'"
  using assms
proof (cases rule: disk_call.cases)
  case (create g' r)
  then show ?thesis using create_stays assms(2,3) by auto
next
  case (append g' d j b p b' n e)
  then have "g' \<noteq> g" using assms(3) by auto
  then show ?thesis using append_stays [OF append(5) linked_live [OF append(3)] append(4,2) assms(2)] by blast
next
  case (fsync g' d j b b' e)
  then show ?thesis using sync_stays by (auto simp: writes_to_def)
next
  case (finish g' j b b' e)
  then obtain d where d: "bback b = LogDisk d" "fds w (appendFD d) = Some j" by (auto simp: writes_to_def)
  obtain k w1 e1 where k: "log_closeWrite (LogDisk d) w = (k, w1, e1)" by (metis surj_pair)
  have "w' = w1" using finish(5) k by (auto simp: buf_Finish_def diskLogB_def wakeLocked_def d(1) Let_def)
  then show ?thesis using closeWrite_stays [OF k d(2)] finish assms(2,3) by auto
next
  case (failed g' j b b' e)
  then obtain d where d: "bback b = LogDisk d" "fds w (appendFD d) = Some j" by (auto simp: writes_to_def)
  obtain k w1 e1 where k: "log_closeWrite (LogDisk d) w = (k, w1, e1)" by (metis surj_pair)
  have "w' = w1" using failed(5) k by (auto simp: buf_Fail_def diskLogB_def wakeLocked_def d(1) Let_def)
  then show ?thesis using closeWrite_stays [OF k d(2)] failed assms(2,3) by auto
next
  case (finalize gn d j c' e)
  then show ?thesis using finalize_stays assms(2,3) by auto
next
  case (claim gn c' e)
  then show ?thesis using commit_stays [of m "g_id gn"] assms(2,3) by (auto simp: disk_claim_def)
next
  case (unpublish gn c' e)
  then show ?thesis using commit_stays [of m "g_id gn"] assms(2,3) by (auto simp: disk_unpublish_def)
next
  case (abort gn c' e)
  then show ?thesis using commit_stays [of m "g_id gn"] assms(2,3) by (auto simp: disk_abortPublish_def)
next
  case (remove gn)
  then show ?thesis
    using RemoveAll_stays [of "g_id gn" w] assms(2,3) by (auto simp: disk_remove_def) (metis fst_conv surj_pair)
qed (use openRead_stays pread_stays in blast)+

end
