(* ===== verification/DiskOwn.thy ===== *)
theory DiskOwn imports DiskSpec begin

text \<open>
  What each of the medium's calls does to the home of its own generation, on every outcome: the entries it leaves,
  the bytes they name, and what of them is on stable storage.
\<close>

subsection \<open>The generation's own home\<close>

text \<open>What a call that only looks leaves alone.\<close>

definition looked :: "os \<Rightarrow> os \<Rightarrow> bool" where
  "looked w w' \<longleftrightarrow> dirent w' = dirent w \<and> inode w' = inode w \<and> isdir w' = isdir w \<and> clean w' = clean w \<and> inext w' = inext w
     \<and> (\<forall>p. ents w' p = ents w p \<or> ents w' p = {dirent w p}) \<and> (\<forall>f < fnext w. fds w' f = fds w f)"

lemma looked_refl [simp]: "looked w w" "looked w (w'\<lparr>plan := r\<rparr>) = looked w w'" "looked (w\<lparr>plan := r\<rparr>) w' = looked w w'"
  by (simp_all add: looked_def)

lemma Open_looked:
  assumes "os_Open p w = (w', r)"
  shows "looked w w' \<and> (\<forall>f. r = Inr f \<longrightarrow> f = fnext w \<and> (\<exists>i. dirent w p = Some i \<and> fds w' f = Some i)) \<and> ents w' = ents w"
  using assms by (cases rule: ans_cases [of w]) (auto simp: os_Open_def looked_def split: option.splits)

lemma Close_looked: "looked w w1 \<Longrightarrow> fnext w \<le> f \<Longrightarrow> looked w (fst (file_Close f w1)) \<and> ents (fst (file_Close f w1)) = ents w1"
  by (cases rule: ans_cases [of w1]) (auto simp: file_Close_def looked_def split: option.splits)

lemma syncDir_looked:
  assumes "syncDir p w = (w', e)"
  shows "looked w w'" and "e = None \<Longrightarrow> p \<noteq> ''.'' \<Longrightarrow> parent_dir q = p \<Longrightarrow> ents w' q = {dirent w q}"
proof -
  obtain w1 r where r: "(if p = ''.'' then os_OpenRoot w else os_Open p w) = (w1, r)" by (metis surj_pair)
  have O: "looked w v \<and> (\<forall>f. q = Inr f \<longrightarrow> f = fnext w) \<and> ents v = ents w" if "os_OpenRoot w = (v, q)" for v q
    using that by (cases rule: ans_cases [of w]) (auto simp: os_OpenRoot_def looked_def)
  have 1: "looked w w1 \<and> (\<forall>f. r = Inr f \<longrightarrow> f = fnext w) \<and> ents w1 = ents w"
    using r O Open_looked [of p w w1 r] by (auto split: if_splits)
  have "looked w w' \<and> (e = None \<longrightarrow> p \<noteq> ''.'' \<longrightarrow> (\<forall>q. parent_dir q = p \<longrightarrow> ents w' q = {dirent w q}))"
  proof (cases r)
    case (Inr f)
    obtain w2 e2 where 2: "dir_Sync p w1 = (w2, e2)" by (metis surj_pair)
    have s2: "looked w w2 \<and> (e2 = None \<longrightarrow> p \<noteq> ''.'' \<longrightarrow> (\<forall>q. parent_dir q = p \<longrightarrow> ents w2 q = {dirent w q}))"
      using 2 1 by (cases rule: ans_cases [of w1]) (auto simp: dir_Sync_def settle_def looked_def split: if_splits)
    have "w' = fst (file_Close f w2)" "e = e2" using assms by (auto simp: syncDir_def r Inr 2)
    then show ?thesis using Close_looked [of w w2 f] s2 1 Inr by simp
  qed (use assms 1 in \<open>auto simp: syncDir_def r\<close>)
  then show "looked w w'" "e = None \<Longrightarrow> p \<noteq> ''.'' \<Longrightarrow> parent_dir q = p \<Longrightarrow> ents w' q = {dirent w q}" by blast+
qed

lemma ReadFile_looked:
  assumes "root_ReadFile p limit w = (w', r)"
  shows "looked w w'" and "r = Inr bs \<Longrightarrow> \<exists>i. dirent w p = Some i \<and> bs = (case limit of None \<Rightarrow> inode w i | Some k \<Rightarrow> take k (inode w i))"
proof -
  obtain w1 q where o: "os_Open p w = (w1, q)" by (metis surj_pair)
  note O = Open_looked [OF o]
  have "looked w w' \<and> (\<forall>bs. r = Inr bs \<longrightarrow> (\<exists>i. dirent w p = Some i \<and> bs = (case limit of None \<Rightarrow> inode w i | Some k \<Rightarrow> take k (inode w i))))"
  proof (cases q)
    case (Inr f)
    then obtain i where i: "f = fnext w" "dirent w p = Some i" "fds w1 f = Some i" using O by auto
    define n where "n = (case limit of Some k \<Rightarrow> k | None \<Rightarrow> Suc (length (inode w1 i)))"
    obtain w2 bs e where 2: "file_ReadAt f n 0 w1 = (w2, bs, e)" by (metis surj_pair)
    have n: "(case limit of Some k \<Rightarrow> k | None \<Rightarrow> Suc (length (inode w1 (the (fds w1 f))))) = n"
      using i(3) by (simp add: n_def split: option.splits)
    have res: "w' = fst (file_Close f w2)" "r = (if e = None \<or> e = Some (Leaf IoEOF) then Inr bs else Inl (the e))"
      using assms by (auto simp: root_ReadFile_def o Inr n 2)
    have "looked w w2" using ReadAt_law [OF 2] O by auto
    then have l: "looked w w'" using Close_looked i(1) res(1) by simp
    have "bs = take n (inode w i)" if "e = None \<or> e = Some (Leaf IoEOF)"
      using that 2 i(3) O by (cases rule: ans_cases [of w1]) (auto simp: file_ReadAt_def Let_def looked_def)
    then show ?thesis using l res(2) i(2) O by (auto simp: n_def looked_def split: option.splits if_splits)
  qed (use assms O in \<open>auto simp: root_ReadFile_def o\<close>)
  then show "looked w w'" "r = Inr bs \<Longrightarrow> \<exists>i. dirent w p = Some i \<and> bs = (case limit of None \<Rightarrow> inode w i | Some k \<Rightarrow> take k (inode w i))"
    by blast+
qed

lemma checksumData_looked:
  assumes "checksumData p w = (w', r)"
  shows "looked w w'" and "r = Inr cs \<Longrightarrow> \<exists>i. dirent w p = Some i \<and> cs = checksum_text (inode w i)"
  using assms ReadFile_looked [of p None w] by (auto simp: checksumData_def split: prod.splits sum.splits)

lemma commit_own:
  assumes c: "commit m (genPath g) a b w = (w', ok, e)" and h: "wf_id g" "flat a" "flat b" "a \<noteq> b"
  shows "\<not> ok \<Longrightarrow> looked w w'"
    and "ok \<Longrightarrow> dirent w (hm g a) \<noteq> None"
    and "ok \<Longrightarrow> flat f \<Longrightarrow> dirent w' (hm g f) = (if f = b then dirent w (hm g a) else if f = a then None else dirent w (hm g f))"
    and "ok \<Longrightarrow> dirent w' (genPath g) = dirent w (genPath g) \<and> inode w' = inode w \<and> isdir w' = isdir w \<and> clean w' = clean w
      \<and> (ents w' (genPath g) = ents w (genPath g) \<or> ents w' (genPath g) = {dirent w (genPath g)})"
    and "ok \<Longrightarrow> e = None \<Longrightarrow> dm_fsync m \<Longrightarrow> flat f \<Longrightarrow> ents w' (hm g f) = {dirent w' (hm g f)}"
proof -
  obtain w1 e1 where r: "root_Rename (hm g a) (hm g b) w = (w1, e1)" by (metis surj_pair)
  obtain w2 e2 where s: "syncDir (genPath g) w1 = (w2, e2)" by (metis surj_pair)
  note S = syncDir_looked [OF s]
  have dot: "genPath g \<noteq> ''.''" by (simp add: genPath_def slash_def dirClips_def)
  show "\<not> ok \<Longrightarrow> looked w w'"
    using c r by (auto simp: commit_def s elim!: Rename_cases split: option.splits if_splits)
  assume ok: ok
  then have e1: "e1 = None" using c by (auto simp: commit_def r s split: option.splits)
  have ab: "hm g a \<noteq> hm g b" using h by simp
  from r e1 ab have R: "dirent w (hm g a) \<noteq> None" "dirent w1 = moved (hm g a) (hm g b) (dirent w)" "inode w1 = inode w"
    "isdir w1 = isdir w" "clean w1 = clean w" "ents w1 (genPath g) = ents w (genPath g)"
    using h by (auto elim!: Rename_cases)
  have w': "w' = (if dm_fsync m then w2 else w1)" "dm_fsync m \<Longrightarrow> e = e2"
    using c e1 by (auto simp: commit_def r s split: if_splits)
  have d: "dirent w' = dirent w1" "inode w' = inode w1" "isdir w' = isdir w1" "clean w' = clean w1"
    using S(1) w' by (auto simp: looked_def)
  show "dirent w (hm g a) \<noteq> None" by (rule R(1))
  show "dirent w' (hm g f) = (if f = b then dirent w (hm g a) else if f = a then None else dirent w (hm g f))" if "flat f"
    using moved_home(1) [OF h(1,2,3) that h(1) h(4)] by (simp add: d R)
  show "dirent w' (genPath g) = dirent w (genPath g) \<and> inode w' = inode w \<and> isdir w' = isdir w \<and> clean w' = clean w
      \<and> (ents w' (genPath g) = ents w (genPath g) \<or> ents w' (genPath g) = {dirent w (genPath g)})"
  proof -
    have "ents w2 (genPath g) = ents w1 (genPath g) \<or> ents w2 (genPath g) = {dirent w1 (genPath g)}"
      using S(1) unfolding looked_def by blast
    moreover have n: "dirent w1 (genPath g) = dirent w (genPath g)"
      unfolding R(2) by (rule moved_home(2) [OF h(1,2,3) h(2,1,4)])
    ultimately have "ents w' (genPath g) = ents w (genPath g) \<or> ents w' (genPath g) = {dirent w (genPath g)}"
      using R(6) w'(1) by (cases "dm_fsync m") simp_all
    then show ?thesis using n unfolding d R(3-5) by simp
  qed
  show "ents w' (hm g f) = {dirent w' (hm g f)}" if "e = None" "dm_fsync m" "flat f"
    using S(2) [of "hm g f"] w' that dot d(1) by simp
qed

lemma published_looked: "looked w w' \<Longrightarrow> published J w' g = published J w g"
proof -
  assume "looked w w'"
  then have e: "dirent w' = dirent w" "inode w' = inode w" "isdir w' = isdir w" by (simp_all add: looked_def)
  show ?thesis unfolding published_def dir_there_def e ..
qed

lemma published_commit:
  assumes "commit m (genPath g) fileMeta b w = (w', c, e)" "wf_id g" "flat b" "b \<noteq> fileMeta"
  shows "published J w' g = (if c then None else published J w g)"
proof (cases c)
  case True
  then have "dirent w' (hm g fileMeta) = None"
    using commit_own(3) [OF assms(1-2) _ assms(3), of fileMeta] assms(4) by auto
  then show ?thesis using True by (simp add: published_none)
next
  case False
  then have "looked w w'" using commit_own(1) [OF assms(1-2) _ assms(3)] assms(4) by auto
  then show ?thesis using False published_looked by auto
qed

lemma create_own:
  assumes c: "disk_create m g w = (w', r)" and g: "wf_id g" and v: "vacant w g"
  shows "dirent w' (hm g fileMeta) = None"
    and "r = Inr b \<Longrightarrow> \<exists>d j. live_home w' g d j \<and> writes_to b w' j \<and> inode w' j = [] \<and> bsize b = 0 \<and> \<not> terminated b
      \<and> (\<forall>l. bback b = LogDisk l \<longrightarrow> fsync l = dm_fsync m) \<and> (dm_fsync m \<longrightarrow> ents w' (genPath g) = {Some d})"
proof -
  have n: "dirent w (genPath g) = None" "\<And>f. flat f \<Longrightarrow> dirent w (hm g f) = None" using v by (auto simp: vacant_def)
  obtain w1 e1 where 1: "root_Mkdir (genPath g) w = (w1, e1)" by (metis surj_pair)
  have d1: "dirent w1 = (if e1 = None then (dirent w)(genPath g := Some (inext w)) else dirent w)"
    "e1 = None \<Longrightarrow> isdir w1 (inext w)" "e1 = None \<Longrightarrow> inext w1 = Suc (inext w)"
    using 1 by (cases rule: ans_cases [of w]; auto simp: root_Mkdir_def split: if_splits)+
  obtain w2 e2 where 2: "syncDir dirClips w1 = (w2, e2)" by (metis surj_pair)
  note S = syncDir_looked [OF 2]
  have dc: "dirClips \<noteq> ''.''" by (simp add: dirClips_def)
  obtain w3 e3 where 3: "makeGenDir m (genPath g) w = (w3, e3)" by (metis surj_pair)
  have d3: "dirent w3 = dirent w1" "isdir w3 = isdir w1" "e3 = None \<Longrightarrow> e1 = None"
    "e3 = None \<Longrightarrow> dm_fsync m \<Longrightarrow> ents w3 (genPath g) = {dirent w1 (genPath g)}" "inext w3 = inext w1"
    using 3 S(1) S(2) [of "genPath g"] dc by (auto simp: makeGenDir_def 1 2 looked_def split: option.splits if_splits)
  obtain w4 q where 4: "root_Create (hm g fileData) w3 = (w4, q)" by (metis surj_pair)
  have meta4: "dirent w4 (hm g fileMeta) = dirent w3 (hm g fileMeta)"
  proof (cases q)
    case (Inl e)
    then show ?thesis using 4
      by (cases rule: ans_cases [of w3]) (auto simp: root_Create_def Let_def split: if_splits option.splits)
  next
    case (Inr f)
    then obtain i where "dirent w4 = (dirent w3)(hm g fileData := Some i)" using 4 by (auto elim!: Create_own)
    moreover have "fileMeta \<noteq> fileData" by (simp add: fileData_def fileMeta_def)
    ultimately show ?thesis using g by simp
  qed
  have meta3: "dirent w3 (hm g fileMeta) = None" using g n by (simp add: d3 d1)
  obtain w5 p5 where 5: "openGen m (genPath g) w = (w5, p5)" by (metis surj_pair)
  have "dirent w5 (hm g fileMeta) = None"
    using 5 meta3 meta4 by (auto simp: openGen_def 3 4 split: option.splits sum.splits)
  moreover have "dirent (fst (root_RemoveAll (genPath g) w5)) (hm g fileMeta) = None" if "dirent w5 (hm g fileMeta) = None"
    using that by (cases rule: ans_cases [of w5]) (auto simp: root_RemoveAll_def)
  ultimately show "dirent w' (hm g fileMeta) = None"
    using c by (auto simp: disk_create_def 5 split: sum.splits)
  assume r: "r = Inr b"
  then have o: "openGen m (genPath g) w = (w', Inr b)" using c by (auto simp: disk_create_def split: prod.splits sum.splits)
  then have e3: "e3 = None" by (auto simp: openGen_def 3 split: option.splits)
  with o obtain f where f: "q = Inr f" "w4 = w'" "b = newBuffer (LogDisk (newDiskBacking f (hm g fileData) (dm_fsync m)))"
    by (auto simp: openGen_def 3 4 split: sum.splits)
  obtain i where i: "fds w4 = (fds w3)(f := Some i)" "dirent w4 = (dirent w3)(hm g fileData := Some i)"
    "ents w4 = (if dirent w3 (hm g fileData) = None then (ents w3)(hm g fileData := insert (Some i) (ents w3 (hm g fileData))) else ents w3)"
    "inode w4 = (inode w3)(i := [])" "isdir w4 = (isdir w3)(i := False)" 
    "i = (case dirent w3 (hm g fileData) of None \<Rightarrow> inext w3 | Some j \<Rightarrow> j)"
    using 4 f(1) by (auto elim!: Create_own)
  note i = i [unfolded f(2)]
  show "\<exists>d j. live_home w' g d j \<and> writes_to b w' j \<and> inode w' j = [] \<and> bsize b = 0 \<and> \<not> terminated b
      \<and> (\<forall>l. bback b = LogDisk l \<longrightarrow> fsync l = dm_fsync m) \<and> (dm_fsync m \<longrightarrow> ents w' (genPath g) = {Some d})"
  proof (intro exI conjI)
    have e1: "e1 = None" using d3(3) e3 .
    have D: "dirent w3 = (dirent w)(genPath g := Some (inext w))" using d1(1) e1 by (simp add: d3)
    have none: "dirent w3 (hm g fileData) = None" using g n by (simp add: D)
    have "inext w3 = Suc (inext w)" using d3(5) d1(3) [OF e1] by simp
    then have i': "i = Suc (inext w)" using i(6) none by simp
    show "live_home w' g (inext w) i"
      using g n d1(2) [OF e1] i' none by (auto simp: live_home_def D i(2,5) d3(2))
    show "writes_to b w' i" using i(1) by (simp add: f(3) writes_to_def newBuffer_def newDiskBacking_def)
    show "inode w' i = []" using i(4) by simp
    show "bsize b = 0" "\<not> terminated b" by (simp_all add: f(3) newBuffer_def terminated_def)
    show "\<forall>l. bback b = LogDisk l \<longrightarrow> fsync l = dm_fsync m" by (simp add: f(3) newBuffer_def newDiskBacking_def)
    show "dm_fsync m \<longrightarrow> ents w' (genPath g) = {Some (inext w)}"
      using d3(4) [OF e3] i(3) g e1 none by (simp add: d1(1))
  qed
qed

text \<open>What a call that makes one new file changes.\<close>

definition made :: "string \<Rightarrow> nat \<Rightarrow> os \<Rightarrow> os \<Rightarrow> bool" where
  "made p i w w' \<longleftrightarrow> (\<forall>q. q \<noteq> p \<longrightarrow> dirent w' q = dirent w q \<and> ents w' q = ents w q)
     \<and> (\<forall>k. k \<noteq> i \<longrightarrow> inode w' k = inode w k \<and> clean w' k = clean w k \<and> isdir w' k = isdir w k)"

lemma made_Close: "made p i w w1 \<Longrightarrow> made p i w (fst (file_Close f w1))"
  "dirent (fst (file_Close f w1)) = dirent w1" "inode (fst (file_Close f w1)) = inode w1" "clean (fst (file_Close f w1)) = clean w1"
  by (cases rule: ans_cases [of w1]; auto simp: file_Close_def made_def split: option.splits)+

lemma made_Write:
  assumes "file_Write f b w1 = (w2, n, e)" "fds w1 f = Some i"
  shows "made p i w w1 \<Longrightarrow> made p i w w2" and "dirent w2 = dirent w1" and "fds w2 = fds w1"
    and "e = None \<Longrightarrow> inode w2 i = inode w1 i @ b"
  using assms by (cases rule: ans_cases [of w1]; auto simp: file_Write_def made_def)+

lemma made_Sync:
  assumes "file_Sync f w1 = (w2, e)" "fds w1 f = Some i"
  shows "made p i w w1 \<Longrightarrow> made p i w w2" and "dirent w2 = dirent w1" and "inode w2 = inode w1"
    and "e = None \<Longrightarrow> clean w2 i"
  using assms by (cases rule: ans_cases [of w1]; auto simp: file_Sync_def made_def)+

lemma writeMeta_own:
  assumes c: "writeMeta m J (genPath g) mf w = (w', e)" and n: "dirent w (hm g fileMetaTmp) = None"
  shows "made (hm g fileMetaTmp) (inext w) w w'"
    and "e = None \<Longrightarrow> \<exists>b. json_Marshal J mf = Inr b \<and> dirent w' (hm g fileMetaTmp) = Some (inext w) \<and> inode w' (inext w) = b
      \<and> (dm_fsync m \<longrightarrow> clean w' (inext w))"
proof -
  let ?t = "hm g fileMetaTmp" and ?i = "inext w"
  have "made ?t ?i w w' \<and> (e = None \<longrightarrow> (\<exists>b. json_Marshal J mf = Inr b \<and> dirent w' ?t = Some ?i \<and> inode w' ?i = b
      \<and> (dm_fsync m \<longrightarrow> clean w' ?i)))"
  proof (cases "json_Marshal J mf")
    case (Inr b)
    obtain w1 q where 1: "root_Create ?t w = (w1, q)" by (metis surj_pair)
    show ?thesis
    proof (cases q)
      case (Inl x)
      then have "made ?t ?i w w1" using 1 n
        by (cases rule: ans_cases [of w]) (auto simp: root_Create_def Let_def made_def split: if_splits option.splits)
      then show ?thesis using c Inl by (auto simp: writeMeta_def Inr 1)
    next
      case q: (Inr f)
      have C: "fds w1 f = Some ?i" "dirent w1 ?t = Some ?i" "inode w1 ?i = []" "made ?t ?i w w1"
        using 1 q n by (auto elim!: Create_own simp: made_def)
      obtain w2 k e2 where 2: "file_Write f b w1 = (w2, k, e2)" by (metis surj_pair)
      note W = made_Write [OF 2 C(1)]
      have f2: "fds w2 f = Some ?i" using W(3) C(1) by simp
      obtain w3 e3 where 3: "(if dm_fsync m then file_Sync f w2 else (w2, None)) = (w3, e3)" by (metis surj_pair)
      have S: "made ?t ?i w w3" "dirent w3 = dirent w2" "inode w3 = inode w2" "e3 = None \<Longrightarrow> dm_fsync m \<Longrightarrow> clean w3 ?i"
        using 3 made_Sync [of f w2 w3 e3 ?i, OF _ f2] W(1) C(4) by (auto split: if_splits)
      show ?thesis
      proof (cases "e2 = None \<and> e3 = None")
        case True
        then have w': "w' = fst (file_Close f w3)" using c by (auto simp: writeMeta_def Inr 1 q 2 3) 
        show ?thesis
          using made_Close(1) [of ?t ?i w w3 f] made_Close(2-4) [of f w3] S W(2) W(4) C True Inr by (simp add: w')
      next
        case False
        then have "e \<noteq> None" "w' = fst (file_Close f w2) \<or> w' = fst (file_Close f w3)"
          using c by (auto simp: writeMeta_def Inr 1 q 2 3 split: option.splits)
        then show ?thesis using made_Close(1) W(1) C(4) S(1) by blast
      qed
    qed
  qed (use c in \<open>auto simp: writeMeta_def made_def\<close>)
  then show "made ?t ?i w w'" "e = None \<Longrightarrow> \<exists>b. json_Marshal J mf = Inr b \<and> dirent w' ?t = Some ?i \<and> inode w' ?i = b
      \<and> (dm_fsync m \<longrightarrow> clean w' ?i)" by blast+
qed

lemma names_distinct [simp]:
  "fileMetaTmp \<noteq> fileMeta" "fileMetaTmp \<noteq> fileData" "fileMeta \<noteq> fileData" "fileMeta \<noteq> fileConsumed" "fileMeta \<noteq> fileDeleted"
  "fileMeta \<noteq> fileAborted" "fileMeta \<noteq> fileMetaTmp" "fileData \<noteq> fileMetaTmp" "fileData \<noteq> fileMeta"
  "fileConsumed \<noteq> fileMeta" "fileDeleted \<noteq> fileMeta" "fileAborted \<noteq> fileMeta"
  by (simp_all add: fileData_def fileMeta_def fileMetaTmp_def fileConsumed_def fileDeleted_def fileAborted_def)

lemma loadMeta_fits:
  "codec_fits J mf \<Longrightarrow> json_Marshal J mf = Inr b \<Longrightarrow> loadMeta J (take maxMetaBytes b) = Inr mf"
  by (auto simp: codec_fits_def loadMeta_def)

lemma finalize_own:
  assumes c: "disk_finalize m J gn w = (w', ok, e)" and ok: "disk_ok w" and g: "g = g_id gn" "wf_id g"
    and l: "live_home w g d j" and J: "codec_fits J (record_of m gn (inode w j))"
  shows "published J w' g = (if ok then Some (record_of m gn (inode w j), inode w j) else None)"
    and "ok \<Longrightarrow> e = None \<Longrightarrow> dm_fsync m \<Longrightarrow> clean w j \<Longrightarrow>
      ents w (genPath g) = {Some d} \<Longrightarrow> ents w' (genPath g) = {Some d} \<and> isdir w' d
      \<and> (\<exists>i. ents w' (hm g fileMeta) = {Some i} \<and> clean w' i) \<and> ents w' (hm g fileData) = {Some j} \<and> clean w' j"
proof -
  obtain w1 q where 1: "(if dm_checksum m then checksumData (hm g fileData) w else (w, Inr [])) = (w1, q)"
    by (metis surj_pair)
  have L: "looked w w1" "\<And>cs. q = Inr cs \<Longrightarrow> (meta_of gn)\<lparr>mf_Checksum := cs\<rparr> = record_of m gn (inode w j)"
    using 1 checksumData_looked [of "hm g fileData" w w1 q] l
    by (auto simp: record_of_def live_home_def split: if_splits)
  let ?r = "record_of m gn (inode w j)"
  obtain w2 e2 where 2: "writeMeta m J (genPath g) ?r w1 = (w2, e2)" by (metis surj_pair)
  obtain w3 o3 e3 where 3: "commit m (genPath g) fileMetaTmp fileMeta w2 = (w3, o3, e3)" by (metis surj_pair)
  have L': "dirent w1 = dirent w" "inode w1 = inode w" "isdir w1 = isdir w" "clean w1 = clean w" "inext w1 = inext w"
    using L(1) by (simp_all add: looked_def)
  have n: "dirent w1 (hm g fileMetaTmp) = None" using l by (simp add: L' live_home_def)
  note M = writeMeta_own [OF 2 n]
  have less: "d \<noteq> inext w" "j \<noteq> inext w" using l ok_sel(4) [OF ok] by (auto simp: live_home_def)
  have m2: "dirent w2 (hm g fileMeta) = None" "dirent w2 (hm g fileData) = Some j" "dirent w2 (genPath g) = Some d"
    "isdir w2 d" "inode w2 j = inode w j" "clean w2 j = clean w j" "ents w2 (genPath g) = ents w1 (genPath g)"
    using M(1) l g(2) less by (auto simp: made_def live_home_def L')
  note C = commit_own [OF 3 g(2) flat_names(3,2) names_distinct(1)]
  have cases: "(ok = False \<and> w' \<in> {w1, w2}) \<or> (e2 = None \<and> (\<exists>cs. q = Inr cs) \<and> w' = w3 \<and> ok = o3 \<and> e = e3)"
    using c L(2) 2 by (auto simp: disk_finalize_def Let_def g(1) [symmetric] 1 3 split: sum.splits option.splits)
  have none: "published J w' g = None" if "\<not> ok"
  proof -
    have "dirent w' (hm g fileMeta) = None" if "w' \<in> {w1, w2}"
      using that m2(1) l by (auto simp: L' live_home_def)
    moreover have "dirent w3 (hm g fileMeta) = None" if "\<not> o3" using C(1) that m2(1) by (simp add: looked_def)
    ultimately show ?thesis using cases that by (auto intro!: published_none)
  qed
  have yes: "e2 = None" "w' = w3" "o3" "e = e3" if "ok" using cases that by auto
  have meta: "\<exists>b. json_Marshal J ?r = Inr b \<and> dirent w3 (hm g fileMeta) = Some (inext w) \<and> inode w3 (inext w) = b
      \<and> (dm_fsync m \<longrightarrow> clean w3 (inext w))"
    and data: "dirent w3 (hm g fileData) = Some j" "inode w3 j = inode w j" "clean w3 j = clean w j"
      "dirent w3 (genPath g) = Some d" "isdir w3 d" if "ok"
    using M(2) C(3) [of fileMeta] C(3) [of fileData] C(4) yes [OF that] m2 by (auto simp: L')
  show "published J w' g = (if ok then Some (?r, inode w j) else None)"
  proof (cases ok)
    case True
    then show ?thesis using meta data yes [OF True] g(2) loadMeta_fits [OF J]
      by (auto simp: published_def dir_there_def)
  qed (use none in simp)
  assume s: "ok" "e = None" "dm_fsync m" "clean w j" "ents w (genPath g) = {Some d}"
  have e1: "ents w1 (genPath g) = {Some d}"
    using L(1) s(5) l unfolding looked_def live_home_def by metis
  show "ents w' (genPath g) = {Some d} \<and> isdir w' d
      \<and> (\<exists>i. ents w' (hm g fileMeta) = {Some i} \<and> clean w' i) \<and> ents w' (hm g fileData) = {Some j} \<and> clean w' j"
    using C(4) C(5) [of fileMeta] C(5) [of fileData] yes [OF s(1)] meta data m2 e1 s by auto
qed

end
