(* ===== verification/DiskRefine.thy ===== *)
theory DiskRefine imports DiskOwn begin

text \<open>The disk medium refines its specification, call by call and over every run of calls.\<close>

lemma remove_own:
  assumes "root_RemoveAll (genPath g) w = (w', e)"
  shows "published J w' g = None \<or> published J w' g = published J w g"
proof -
  obtain X where X: "dirent w' = (\<lambda>p. if X p then None else dirent w p)" "inode w' = inode w" "isdir w' = isdir w"
    by (rule RemoveAll_cases [OF assms]) auto
  show ?thesis
    unfolding published_def dir_there_def X
    by (auto split: option.splits sum.splits)
qed

lemma append_own:
  assumes "buf_Append diskLogB p b w = (b', w', n, e)" "writes_to b w j"
  shows "dirent w' = dirent w" and "isdir w' = isdir w" and "ents w' = ents w" and "fds w' = fds w"
    and "e = None \<Longrightarrow> inode w' j = inode w j @ p" and "e = None \<Longrightarrow> bsize b' = bsize b + word_of_nat (length p)"
    and "bback b' = bback b" and "terminated b' = terminated b"
proof -
  obtain d where d: "bback b = LogDisk d" "fds w (appendFD d) = Some j" using assms(2) by (auto simp: writes_to_def)
  obtain w1 n1 e1 where 1: "file_Write (appendFD d) p w = (w1, n1, e1)" by (metis surj_pair)
  have W: "dirent w1 = dirent w \<and> isdir w1 = isdir w \<and> ents w1 = ents w \<and> fds w1 = fds w
      \<and> (e1 = None \<longrightarrow> inode w1 j = inode w j @ p \<and> n1 = length p)"
    using 1 d(2) by (cases rule: ans_cases [of w]) (auto simp: file_Write_def)
  have r: "terminated b \<and> w' = w \<and> e \<noteq> None \<and> b' = b
      \<or> w' = w1 \<and> e = e1 \<and> b' = (if 0 < n1 then advance (word_of_nat n1) (b\<lparr>bback := LogDisk d\<rparr>) else b\<lparr>bback := LogDisk d\<rparr>)"
    using assms(1) by (auto simp: buf_Append_def diskLogB_def d(1) disk_append_def 1 Let_def split: if_splits)
  show "dirent w' = dirent w" "isdir w' = isdir w" "ents w' = ents w" "fds w' = fds w"
    "e = None \<Longrightarrow> inode w' j = inode w j @ p"
    using r W by auto
  show "e = None \<Longrightarrow> bsize b' = bsize b + word_of_nat (length p)" "bback b' = bback b" "terminated b' = terminated b"
    using r W d(1) by (auto simp: advance_def wakeLocked_def terminated_def split: if_splits)
qed

lemma sync_own:
  assumes "buf_Sync diskLogB b w = (b', w', e)" "writes_to b w j"
  shows "dirent w' = dirent w" and "isdir w' = isdir w" and "ents w' = ents w" and "fds w' = fds w" and "inode w' = inode w"
    and "e = None \<Longrightarrow> bback b = LogDisk l \<Longrightarrow> fsync l \<Longrightarrow> clean w' j" and "b' = b"
proof -
  obtain d where d: "bback b = LogDisk d" "fds w (appendFD d) = Some j" using assms(2) by (auto simp: writes_to_def)
  show "dirent w' = dirent w" "isdir w' = isdir w" "ents w' = ents w" "fds w' = fds w" "inode w' = inode w"
    "e = None \<Longrightarrow> bback b = LogDisk l \<Longrightarrow> fsync l \<Longrightarrow> clean w' j" "b' = b"
    using assms(1) d
    by (cases rule: ans_cases [of w]; auto simp: buf_Sync_def diskLogB_def disk_sync_def file_Sync_def split: if_splits)+
qed

lemma call_ok: "disk_ok w \<Longrightarrow> disk_call m J w c w' \<Longrightarrow> disk_ok w'"
proof -
  assume ok: "disk_ok w" and c: "disk_call m J w c w'"
  obtain v where "wf_id v" "call_gen c \<noteq> Some v" using other_id [of "the (call_gen c)"] by (metis option.sel)
  then have "stays v w w'" by (rule disk_call_stays [OF c])
  then show ?thesis using ok by (simp add: stays_def)
qed

lemma Look_published: "disk_ok w \<Longrightarrow> disk_call m J w Look w' \<Longrightarrow> published J w' = published J w"
proof
  fix v assume "disk_ok w" "disk_call m J w Look w'"
  then have "keeps v w w'" if "wf_id v" using disk_call_stays [of m J w Look w' v] that by (simp add: stays_def)
  then show "published J w' v = published J w v"
    using published_keeps [of v w w' J] by (cases "wf_id v") (simp, simp add: published_def)
qed

lemma closeWrite_frame:
  "disk_closeWrite d w = (k, w', e) \<Longrightarrow> dirent w' = dirent w \<and> inode w' = inode w \<and> isdir w' = isdir w"
  by (cases rule: ans_cases [of w]) (auto simp: disk_closeWrite_def file_Close_def split: if_splits option.splits)

lemma Shut_published: "disk_call m J w (Shut g) w' \<Longrightarrow> published J w' = published J w"
proof -
  assume "disk_call m J w (Shut g) w'"
  then have "dirent w' = dirent w \<and> inode w' = inode w \<and> isdir w' = isdir w"
    by (cases rule: disk_call.cases)
      (auto simp: buf_Finish_def buf_Fail_def diskLogB_def wakeLocked_def writes_to_def Let_def
        dest: closeWrite_frame split: prod.splits)
  then have e: "dirent w' = dirent w" "inode w' = inode w" "isdir w' = isdir w" by simp_all
  show ?thesis by (rule ext) (simp only: published_def dir_there_def e)
qed

lemma spec_own:
  assumes c: "disk_call m J w c w'" and ok: "disk_ok w" and g: "call_gen c = Some g"
    and s: "\<And>P P'. P = published J w \<Longrightarrow> P' = P(g := published J w' g) \<Longrightarrow> spec_step P c P'"
  shows "spec_step (published J w) c (published J w')"
proof -
  have "published J w' = (published J w)(g := published J w' g)"
    by (rule published_stays [OF ok]) (use disk_call_stays [OF c] g in auto)
  then show ?thesis using s [OF refl refl] by simp
qed

lemma disk_call_step:
  assumes ok: "disk_ok w" and c: "disk_call m J w c w'"
  shows "spec_step (published J w) c (published J w')"
  using c
proof (cases rule: disk_call.cases)
  case (create g r)
  have "published J w g = None" "published J w' g = None"
    using create create_own(1) by (auto intro!: published_none simp: vacant_def)
  then show ?thesis using create(1) by (intro spec_own [OF c ok, of g]) (auto simp: spec_step.simps)
next
  case (append g d j b p b' n e)
  have "published J w g = None" "published J w' g = None"
    using append append_own(1) by (auto intro!: published_none simp: live_home_def)
  then show ?thesis using append(1) by (intro spec_own [OF c ok, of g]) (auto simp: spec_step.simps)
next
  case (fsync g d j b b' e)
  have "published J w g = None" "published J w' g = None"
    using fsync sync_own(1) by (auto intro!: published_none simp: live_home_def)
  then show ?thesis using fsync(1) by (intro spec_own [OF c ok, of g]) (auto simp: spec_step.simps)
next
  case (finish g j b b' e)
  then show ?thesis using Shut_published c by (auto simp: spec_step.simps)
next
  case (failed g j b b' e)
  then show ?thesis using Shut_published c by (auto simp: spec_step.simps)
next
  case (openRead k k' r)
  then show ?thesis using Look_published [OF ok] c by (auto simp: spec_step.simps)
next
  case (pread h k len off bs e)
  then show ?thesis using Look_published [OF ok] c by (auto simp: spec_step.simps)
next
  case (finalize gn d j cm e)
  have "published J w (g_id gn) = None" using finalize by (auto intro!: published_none simp: live_home_def)
  moreover note finalize_own(1) [OF finalize(5) ok refl finalize(2,3,4)]
  ultimately show ?thesis using finalize(1)
    by (intro spec_own [OF c ok, of "g_id gn"]) (auto simp: spec_step.simps fun_upd_idem)
next
  case (claim gn cm e)
  then have "published J w' (g_id gn) = (if cm then None else published J w (g_id gn))"
    using published_commit [of m "g_id gn" fileConsumed] by (simp add: disk_claim_def)
  then show ?thesis using claim(1) by (intro spec_own [OF c ok, of "g_id gn"]) (auto simp: spec_step.simps)
next
  case (unpublish gn cm e)
  then have "published J w' (g_id gn) = (if cm then None else published J w (g_id gn))"
    using published_commit [of m "g_id gn" fileDeleted] by (simp add: disk_unpublish_def)
  then show ?thesis using unpublish(1) by (intro spec_own [OF c ok, of "g_id gn"]) (auto simp: spec_step.simps)
next
  case (abort gn cm e)
  then have "published J w' (g_id gn) = (if cm then None else published J w (g_id gn))"
    using published_commit [of m "g_id gn" fileAborted] by simp
  then show ?thesis using abort(1) by (intro spec_own [OF c ok, of "g_id gn"]) (auto simp: spec_step.simps)
next
  case (remove gn)
  then have "published J w' (g_id gn) = None \<or> published J w' (g_id gn) = published J w (g_id gn)"
    using remove_own [of "g_id gn" w] by (auto simp: disk_remove_def) (metis fst_conv surj_pair)
  then show ?thesis using remove(1) by (intro spec_own [OF c ok, of "g_id gn"]) (auto simp: spec_step.simps)
qed

inductive spec_run ::
  "(genID \<Rightarrow> (metaFile \<times> byte list) option) \<Rightarrow> call list \<Rightarrow> (genID \<Rightarrow> (metaFile \<times> byte list) option) \<Rightarrow> bool" where
  "spec_run P [] P"
| "spec_step P c P1 \<Longrightarrow> spec_run P1 cs P' \<Longrightarrow> spec_run P (c # cs) P'"

inductive disk_run :: "diskMedium \<Rightarrow> codec \<Rightarrow> os \<Rightarrow> call list \<Rightarrow> os \<Rightarrow> bool" for m J where
  "disk_run m J w [] w"
| "disk_call m J w c w1 \<Longrightarrow> disk_run m J w1 cs w' \<Longrightarrow> disk_run m J w (c # cs) w'"


end
