(* ===== verification/Recovery.thy ===== *)
theory Recovery imports DiskMedium Store begin

text \<open>
  Startup recovery, \<open>store/recovery.go\<close>: the medium's scan of what the last process left on disk, and the store's
  restoration from the survivors.  Go lists a map's groups in an arbitrary order; here they come in the order their
  names first occur.
\<close>

record recovered =
  rc_id :: genID
  rc_name :: string
  rc_meta :: Meta
  rc_created :: time
  rc_finalized :: time
  rc_expires :: time
  rc_consume :: bool
  rc_size :: int64
  rc_open :: string

record candidate =
  cd_id :: genID
  cd_mf :: metaFile
  cd_size :: int64

record recovery =
  survivors :: "recovered list"
  quarantined :: nat
  reclaimed :: nat

definition readMeta :: "string \<Rightarrow> os \<Rightarrow> os \<times> (err + byte list)" where
  "readMeta path w = root_ReadFile path (Some maxMetaBytes) w"

definition removeGenDir :: "string \<Rightarrow> recovery \<Rightarrow> os \<Rightarrow> os \<times> recovery" where
  "removeGenDir genDir rec w =
     (case root_RemoveAll genDir w of
        (w, Some e) \<Rightarrow> (w, rec)
      | (w, None) \<Rightarrow> (w, rec\<lparr>reclaimed := reclaimed rec + 1\<rparr>))"

text \<open>
  The search for a free name under \<open>quarantine\<close>: \<open>dst\<close> is the name tried in this turn.  The loop has no bound of
  its own; \<open>fuel\<close> is the number of turns.
\<close>

definition numbered :: "string \<Rightarrow> nat \<Rightarrow> string" where
  "numbered base i = (if i = 0 then base else base @ CHR ''.'' # dec i)"

fun free_name :: "nat \<Rightarrow> string \<Rightarrow> nat \<Rightarrow> os \<Rightarrow> os \<times> string option" where
  "free_name 0 base i w = (w, None)"
| "free_name (Suc fuel) base i w =
     (case root_Stat (numbered base i) w of
        (w, Inl e) \<Rightarrow> (w, Some (numbered base i))
      | (w, Inr _) \<Rightarrow> free_name fuel base (Suc i) w)"

definition quarantine :: "string \<Rightarrow> recovery \<Rightarrow> os \<Rightarrow> os \<times> recovery" where
  "quarantine dirname rec w =
     (let src = slash dirClips dirname; base = slash dirQuarantine dirname
      in case free_name (Suc (length (paths w))) base 0 w of
           (w, None) \<Rightarrow> (w, rec)
         | (w, Some dst) \<Rightarrow>
             (case root_Rename src dst w of
                (w, Some e) \<Rightarrow> (w, rec)
              | (w, None) \<Rightarrow> (w, rec\<lparr>quarantined := quarantined rec + 1\<rparr>)))"

text \<open>What is left of \<open>classify\<close> once the record is known to fit its directory and its bytes.\<close>

definition classify_sum ::
  "bool \<Rightarrow> string \<Rightarrow> genID \<Rightarrow> metaFile \<Rightarrow> int64 \<Rightarrow> recovery \<Rightarrow> os \<Rightarrow> os \<times> recovery \<times> candidate option" where
  "classify_sum verify dirname gid mf sz rec w =
     (let ok = Some \<lparr>cd_id = gid, cd_mf = mf, cd_size = sz\<rparr>
      in if verify \<and> mf_Checksum mf \<noteq> '''' then
           (case checksumData (slash (genPath gid) fileData) w of
              (w, Inl e) \<Rightarrow> (case quarantine dirname rec w of (w, rec) \<Rightarrow> (w, rec, None))
            | (w, Inr cs) \<Rightarrow>
                (if cs \<noteq> mf_Checksum mf then (case quarantine dirname rec w of (w, rec) \<Rightarrow> (w, rec, None))
                 else (w, rec, ok)))
         else (w, rec, ok))"

text \<open>The part behind the record: the name, the data file, and the record against both.\<close>

definition classify_meta ::
  "bool \<Rightarrow> string \<Rightarrow> genID \<Rightarrow> metaFile \<Rightarrow> recovery \<Rightarrow> os \<Rightarrow> os \<times> recovery \<times> candidate option" where
  "classify_meta verify dirname gid mf rec w =
     (if ValidName (mf_Name mf) \<noteq> None then (case quarantine dirname rec w of (w, rec) \<Rightarrow> (w, rec, None))
      else case root_Stat (slash (genPath gid) fileData) w of
        (w, Inl e) \<Rightarrow>
          (if is_err e OsErrNotExist then (case removeGenDir (genPath gid) rec w of (w, rec) \<Rightarrow> (w, rec, None))
           else (case quarantine dirname rec w of (w, rec) \<Rightarrow> (w, rec, None)))
      | (w, Inr sz) \<Rightarrow>
          (if validate mf gid sz \<noteq> None then (case quarantine dirname rec w of (w, rec) \<Rightarrow> (w, rec, None))
           else classify_sum verify dirname gid mf sz rec w))"

definition classify ::
  "codec \<Rightarrow> bool \<Rightarrow> string \<Rightarrow> recovery \<Rightarrow> os \<Rightarrow> os \<times> recovery \<times> candidate option" where
  "classify J verify dirname rec w =
     (case parseGenID dirname of
        None \<Rightarrow> (case quarantine dirname rec w of (w, rec) \<Rightarrow> (w, rec, None))
      | Some gid \<Rightarrow>
          (case readMeta (slash (genPath gid) fileMeta) w of
             (w, Inl e) \<Rightarrow>
               (if is_err e OsErrNotExist then (case removeGenDir (genPath gid) rec w of (w, rec) \<Rightarrow> (w, rec, None))
                else (case quarantine dirname rec w of (w, rec) \<Rightarrow> (w, rec, None)))
           | (w, Inr b) \<Rightarrow>
               (case loadMeta J b of
                  Inl e \<Rightarrow> (case quarantine dirname rec w of (w, rec) \<Rightarrow> (w, rec, None))
                | Inr mf \<Rightarrow> classify_meta verify dirname gid mf rec w)))"

definition toRecovered :: "candidate \<Rightarrow> recovered" where
  "toRecovered c =
     (let mf = cd_mf c
      in \<lparr>rc_id = cd_id c, rc_name = mf_Name mf,
          rc_meta = Normalized \<lparr>Kind = mf_Kind mf, Filename = mf_Filename mf, Executable = mf_Executable mf\<rparr>,
          rc_created = mf_CreatedAt mf, rc_finalized = mf_FinalizedAt mf, rc_expires = mf_ExpiresAt mf,
          rc_consume = mf_ConsumeOnce mf, rc_size = cd_size c,
          rc_open = slash (genPath (cd_id c)) fileData\<rparr>)"

text \<open>The first loop of \<open>scan\<close>: every directory of \<open>clips\<close> classified, the candidates in their order.\<close>

fun scan_dirs ::
  "codec \<Rightarrow> bool \<Rightarrow> (string \<times> bool) list \<Rightarrow> candidate list \<Rightarrow> recovery \<Rightarrow> os \<Rightarrow> os \<times> recovery \<times> candidate list" where
  "scan_dirs J verify [] cs rec w = (w, rec, cs)"
| "scan_dirs J verify ((n, d) # es) cs rec w =
     (if \<not> d then scan_dirs J verify es cs rec w
      else case classify J verify n rec w of
        (w, rec, None) \<Rightarrow> scan_dirs J verify es cs rec w
      | (w, rec, Some c) \<Rightarrow> scan_dirs J verify es (cs @ [c]) rec w)"

text \<open>The second: per name, the greatest id is kept and the others are reclaimed.\<close>

fun keep_of :: "candidate \<Rightarrow> candidate list \<Rightarrow> candidate" where
  "keep_of k [] = k"
| "keep_of k (c # cs) = keep_of (if id_after (cd_id c) (cd_id k) then c else k) cs"

fun reclaim_losers :: "genID \<Rightarrow> candidate list \<Rightarrow> recovery \<Rightarrow> os \<Rightarrow> os \<times> recovery" where
  "reclaim_losers keep [] rec w = (w, rec)"
| "reclaim_losers keep (c # cs) rec w =
     (if cd_id c \<noteq> keep
      then (case removeGenDir (genPath (cd_id c)) rec w of (w, rec) \<Rightarrow> reclaim_losers keep cs rec w)
      else reclaim_losers keep cs rec w)"

fun resolve_names :: "string list \<Rightarrow> candidate list \<Rightarrow> recovery \<Rightarrow> os \<Rightarrow> os \<times> recovery" where
  "resolve_names [] cs rec w = (w, rec)"
| "resolve_names (n # ns) cs rec w =
     (let group = filter (\<lambda>c. mf_Name (cd_mf c) = n) cs; keep = keep_of (hd group) (tl group)
      in case reclaim_losers (cd_id keep) group rec w of
           (w, rec) \<Rightarrow> resolve_names ns cs (rec\<lparr>survivors := survivors rec @ [toRecovered keep]\<rparr>) w)"

definition no_recovery :: recovery where
  "no_recovery = \<lparr>survivors = [], quarantined = 0, reclaimed = 0\<rparr>"

definition scan :: "codec \<Rightarrow> bool \<Rightarrow> os \<Rightarrow> os \<times> (err + recovery)" where
  "scan J verify w =
     (case listDir dirClips w of
        (w, Inl e) \<Rightarrow> (w, Inl (Wrapf ''recovery: list clips'' [e]))
      | (w, Inr es) \<Rightarrow>
          (case scan_dirs J verify es [] no_recovery w of
             (w, rec, cs) \<Rightarrow>
               (case resolve_names (remdups (map (\<lambda>c. mf_Name (cd_mf c)) cs)) cs rec w of (w, rec) \<Rightarrow> (w, Inr rec))))"

subsection \<open>Restoration\<close>

definition recovered_gen :: "recovered \<Rightarrow> diskLog generation" where
  "recovered_gen r =
     \<lparr>g_id = rc_id r, g_name = rc_name r, g_meta = rc_meta r, g_created = rc_created r, g_ttl = 0,
      g_finalized = rc_finalized r, g_expires = rc_expires r, g_consume = rc_consume r, g_state = genFinalized,
      g_buf = newSealedBuffer (LogSealed (newSealedBacking (rc_open r))) (rc_size r)\<rparr>"

definition restore_one :: "recovered \<Rightarrow> (diskLog, os) store \<Rightarrow> (diskLog, os) store" where
  "restore_one r s =
     (let g = gnext s;
          s = s\<lparr>gs := (gs s)(g := recovered_gen r), gnext := Suc g\<rparr>;
          (s, h) = acquire (rc_name r) s;
          s = upd_h h (\<lambda>x. x\<lparr>h_current := Some g\<rparr>) s;
          s = upd_h h (\<lambda>x. x\<lparr>h_lastPrefix := prefix_of (rc_id r)\<rparr>) s
      in release h s)"

definition restore :: "recovery \<Rightarrow> (diskLog, os) store \<Rightarrow> (diskLog, os) store" where
  "restore rec s =
     (let s = fold restore_one (survivors rec) s
      in s\<lparr>squota := quota_restore (sum_list (map rc_size (survivors rec)))
                      (word_of_nat (length (survivors rec))) (squota s)\<rparr>)"

text \<open>\<open>NewDisk\<close>: the caller's root is the world; \<open>blank\<close> fills the heap's unused addresses.\<close>

definition store_NewDisk ::
  "diskMedium \<Rightarrow> codec \<Rightarrow> Config \<Rightarrow> diskLog generation \<Rightarrow> os \<Rightarrow> os \<times> (err + (diskLog, os) store)" where
  "store_NewDisk m J c blank w =
     (case ensureDirs m w of
        (w, Some e) \<Rightarrow> (w, Inl e)
      | (w, None) \<Rightarrow>
          (case scan J (dm_checksum m) w of
             (w, Inl e) \<Rightarrow> (w, Inl e)
           | (w, Inr rec) \<Rightarrow> (w, Inr (restore rec (newStore w blank c)))))"

end
