(* ===== verification/ScanProps.thy ===== *)
theory ScanProps imports DiskSpec DiskOwn Recovery begin

text \<open>
  The scan's verdicts: what it accepts, whatever fails; that it accepts all it should when nothing fails; and
  that a home it accepts is left as it was.
\<close>

text \<open>The record fits its name's rules, its directory and its bytes.\<close>

definition fits :: "bool \<Rightarrow> genID \<Rightarrow> metaFile \<Rightarrow> byte list \<Rightarrow> bool" where
  "fits verify g mf bs \<longleftrightarrow> ValidName (mf_Name mf) = None \<and> validate mf g (word_of_nat (length bs)) = None
     \<and> \<not> (verify \<and> mf_Checksum mf \<noteq> '''' \<and> checksum_text bs \<noteq> mf_Checksum mf)"

definition recoverable :: "codec \<Rightarrow> bool \<Rightarrow> os \<Rightarrow> genID \<Rightarrow> candidate option" where
  "recoverable J verify w g =
     (case published J w g of None \<Rightarrow> None | Some (mf, bs) \<Rightarrow>
        if fits verify g mf bs then Some \<lparr>cd_id = g, cd_mf = mf, cd_size = word_of_nat (length bs)\<rparr> else None)"

lemma recoverable_id: "recoverable J v w g = Some c \<Longrightarrow> cd_id c = g \<and> wf_id g"
  by (auto simp: recoverable_def published_def Let_def split: option.splits if_splits)

lemma recoverable_keeps: "keeps g w w' \<Longrightarrow> recoverable J v w' g = recoverable J v w g"
  by (simp add: recoverable_def published_keeps)

lemma looked_keeps: "looked w w' \<Longrightarrow> disk_ok w \<Longrightarrow> keeps g w w'"
proof -
  assume l: "looked w w'" and ok: "disk_ok w"
  have "ents w' p \<subseteq> ents w p" for p using l ok_sel(1) [OF ok, of p] unfolding looked_def by (metis empty_subsetI insert_subset order_refl)
  moreover have "fds w' f = Some i" if "fds w f = Some i" for f i
    using l ok_sel(5) [OF ok that] that by (simp add: looked_def)
  ultimately show ?thesis using l by (simp add: keeps_def looked_def)
qed

text \<open>What recovery does to the disk: it takes directories out of \<open>clips\<close>, and reads.\<close>

lemma free_name_looks: "free_name k base i w = (w', r) \<Longrightarrow> \<exists>q. w' = w\<lparr>plan := q\<rparr>"
proof (induction k arbitrary: i w)
  case 0
  then show ?case by (auto intro: exI [of _ "plan w"])
next
  case (Suc k)
  obtain w1 a where 1: "root_Stat (numbered base i) w = (w1, a)" by (metis surj_pair)
  then obtain q where q: "w1 = w\<lparr>plan := q\<rparr>" using Stat_law by (metis os.surjective os.update_convs(10))
  show ?case
  proof (cases a)
    case (Inl e)
    then show ?thesis using Suc.prems 1 q by auto
  next
    case (Inr n)
    then have "free_name k base (Suc i) w1 = (w', r)" using Suc.prems 1 by simp
    then obtain q' where "w' = w1\<lparr>plan := q'\<rparr>" using Suc.IH by blast
    then show ?thesis using q by auto
  qed
qed

lemma free_name_base: "free_name k base i w = (w', Some dst) \<Longrightarrow> \<exists>n. dst = numbered base n"
  by (induction k arbitrary: i w) (auto split: prod.splits sum.splits)

lemma numbered_quarantine: "\<exists>y. numbered (slash dirQuarantine x) n = slash dirQuarantine y"
  by (auto simp: numbered_def slash_def)

lemma quarantine_stays:
  assumes "quarantine x rec w = (w', rec')" "flat x" "wf_id g" "genID_String g \<noteq> x"
  shows "stays g w w'" and "survivors rec' = survivors rec"
proof -
  obtain w1 r where 1: "free_name (Suc (length (paths w))) (slash dirQuarantine x) 0 w = (w1, r)" by (metis surj_pair)
  obtain q where q: "w1 = w\<lparr>plan := q\<rparr>" using free_name_looks [OF 1] by blast
  have s1: "stays g w w1" by (simp add: stays_def q)
  have "stays g w w' \<and> survivors rec' = survivors rec"
  proof (cases r)
    case (Some dst)
    obtain y where y: "dst = slash dirQuarantine y"
      using free_name_base 1 Some numbered_quarantine by metis
    obtain w2 e where 2: "root_Rename (slash dirClips x) dst w1 = (w2, e)" by (metis surj_pair)
    have away: "p \<noteq> dst \<and> \<not> inside dst p" if "home_path v p" for v p
      using home_cases [OF that] quarantine_apart [of y v] y by metis
    have "disk_ok w2" if "disk_ok w1"
      using Rename_ok [OF that 2] away by blast
    moreover have "keeps g w1 w2"
    proof (rule Rename_keeps [OF 2])
      fix p assume p: "home_path g p"
      show "p \<noteq> slash dirClips x \<and> p \<noteq> dst \<and> \<not> inside (slash dirClips x) p \<and> \<not> inside dst p"
        using home_cases [OF p] foreign_apart [OF assms(2) assms(4) [symmetric]] away [OF p] by metis
    qed
    ultimately have "stays g w1 w2" by (simp add: stays_def)
    then have "stays g w w2" by (rule stays_trans [OF s1])
    then show ?thesis using assms(1) by (auto simp: quarantine_def 1 Some 2 Let_def simp del: free_name.simps split: option.splits)
  qed (use assms(1) s1 in \<open>auto simp: quarantine_def 1 Let_def simp del: free_name.simps\<close>)
  then show "stays g w w'" "survivors rec' = survivors rec" by blast+
qed

lemma removeGenDir_stays:
  assumes "removeGenDir (genPath g') rec w = (w', rec')" "wf_id g'" "wf_id g" "g' \<noteq> g"
  shows "stays g w w'" and "survivors rec' = survivors rec"
  using assms RemoveAll_stays [of g' w _ _ g] by (auto simp: removeGenDir_def split: prod.splits option.splits)

subsection \<open>One directory\<close>

text \<open>Every verdict but acceptance touches the directory classified and no other.\<close>

lemma settled_stays:
  assumes "quarantine x rec w = (w', rec') \<or> (\<exists>v. parseGenID x = Some v \<and> removeGenDir (genPath v) rec w = (w', rec'))"
    and "flat x" "wf_id g" "genID_String g \<noteq> x"
  shows "stays g w w' \<and> survivors rec' = survivors rec"
proof -
  have "wf_id v \<and> v \<noteq> g" if "parseGenID x = Some v" for v using that assms(4) by (auto simp: parseGenID_iff)
  then show ?thesis using assms quarantine_stays [of x rec w w' rec' g] removeGenDir_stays [of _ rec w w' rec' g] by metis
qed

lemma Stat_looked: "root_Stat p w = (w', r) \<Longrightarrow> looked w w' \<and> (\<forall>n. r = Inr n \<longrightarrow> (\<exists>i. dirent w p = Some i \<and> n = word_of_nat (length (inode w i))))"
  by (cases rule: ans_cases [of w]) (auto simp: root_Stat_def split: option.splits)

lemma looked_trans: "looked w w1 \<Longrightarrow> looked w1 w2 \<Longrightarrow> fnext w \<le> fnext w1 \<Longrightarrow> looked w w2"
proof -
  assume a: "looked w w1" "looked w1 w2" and n: "fnext w \<le> fnext w1"
  have "ents w2 p = ents w p \<or> ents w2 p = {dirent w p}" for p using a unfolding looked_def by metis
  then show ?thesis using a n by (simp add: looked_def)
qed

text \<open>A step without faults in a plan that has none left.\<close>

lemma calm_ans: "plan w = [] \<Longrightarrow> os_ans w = (w, None)"
  by (simp add: os_ans_def)

lemma calm_Close: "plan w = [] \<Longrightarrow> plan (fst (file_Close f w)) = []"
  by (auto simp: file_Close_def calm_ans split: option.splits)

lemma calm_ReadFile_plan: "plan w = [] \<Longrightarrow> root_ReadFile p k w = (w', r) \<Longrightarrow> plan w' = []"
  by (auto simp: root_ReadFile_def os_Open_def calm_ans file_ReadAt_def Let_def calm_Close split: option.splits if_splits)

lemma calm_Stat_plan: "plan w = [] \<Longrightarrow> root_Stat p w = (w', r) \<Longrightarrow> plan w' = []"
  by (auto simp: root_Stat_def calm_ans split: option.splits)

definition reads :: "os \<Rightarrow> os \<Rightarrow> bool" where
  "reads w w' \<longleftrightarrow> looked w w' \<and> fnext w \<le> fnext w' \<and> (disk_ok w \<longrightarrow> disk_ok w')
     \<and> (plan w = [] \<longrightarrow> plan w' = [])"

lemma reads_refl [simp]: "reads w w"
  by (simp add: reads_def)

lemma reads_trans: "reads w w1 \<Longrightarrow> reads w1 w2 \<Longrightarrow> reads w w2"
  using looked_trans by (auto simp: reads_def)

lemma reads_stays: "reads w w' \<Longrightarrow> stays g w w'"
  using looked_keeps by (auto simp: reads_def stays_def)

lemma Stat_reads: "root_Stat p w = (w', r) \<Longrightarrow> reads w w'"
  using Stat_looked [of p w w' r] Stat_law [of p w w' r] calm_Stat_plan [of w p w' r] by (auto simp: reads_def)

lemma ReadFile_reads: "root_ReadFile p k w = (w', r) \<Longrightarrow> reads w w'"
proof -
  assume r: "root_ReadFile p k w = (w', r)"
  obtain w1 q where o: "os_Open p w = (w1, q)" by (metis surj_pair)
  have "fnext w \<le> fnext w1" using o by (cases rule: ans_cases [of w]) (auto simp: os_Open_def split: option.splits)
  moreover have "fnext (fst (file_Close f v)) = fnext v" for f v
    by (cases rule: ans_cases [of v]) (auto simp: file_Close_def split: option.splits)
  moreover have "file_ReadAt f n off v = (v', bs, e) \<Longrightarrow> fnext v' = fnext v" for f n off v v' bs e
    using ReadAt_law [of f n off v v' bs e] by auto
  ultimately have "fnext w \<le> fnext w'"
    using r by (auto simp: root_ReadFile_def o Let_def split: prod.splits sum.splits if_splits)
  then show ?thesis using ReadFile_looked(1) [OF r] ReadFile_stays [OF r] calm_ReadFile_plan [OF _ r] by (simp add: reads_def stays_def)
qed

lemma checksumData_reads: "checksumData p w = (w', r) \<Longrightarrow> reads w w'"
  by (auto simp: checksumData_def split: prod.splits sum.splits dest: ReadFile_reads)

lemma reads_sel: "reads w w' \<Longrightarrow> dirent w' = dirent w \<and> inode w' = inode w \<and> isdir w' = isdir w"
  by (simp add: reads_def looked_def)

text \<open>A rejected directory is dealt with after some reading; an accepted one is only read.\<close>

definition rejects :: "string \<Rightarrow> recovery \<Rightarrow> os \<Rightarrow> os \<times> recovery \<times> candidate option \<Rightarrow> bool" where
  "rejects x rec w r \<longleftrightarrow> (\<exists>w1. reads w w1 \<and> snd (snd r) = None \<and>
     (quarantine x rec w1 = (fst r, fst (snd r))
      \<or> (\<exists>v. parseGenID x = Some v \<and> removeGenDir (genPath v) rec w1 = (fst r, fst (snd r)))))"

lemma rejects_quarantine: "reads w w1 \<Longrightarrow> quarantine x rec w1 = (w2, rec2) \<Longrightarrow> rejects x rec w (w2, rec2, None)"
  by (auto simp: rejects_def)

lemma rejects_remove: "reads w w1 \<Longrightarrow> parseGenID x = Some v \<Longrightarrow> removeGenDir (genPath v) rec w1 = (w2, rec2) \<Longrightarrow> rejects x rec w (w2, rec2, None)"
  by (auto simp: rejects_def)

lemma classify_sum_cases:
  assumes "classify_sum v x g mf sz rec w = r"
  shows "rejects x rec w r \<or> (\<exists>w'. r = (w', rec, Some \<lparr>cd_id = g, cd_mf = mf, cd_size = sz\<rparr>) \<and> reads w w'
    \<and> (v \<and> mf_Checksum mf \<noteq> '''' \<longrightarrow> (\<exists>j. dirent w (hm g fileData) = Some j \<and> checksum_text (inode w j) = mf_Checksum mf)))"
proof (cases "v \<and> mf_Checksum mf \<noteq> ''''")
  case True
  obtain w1 a where 1: "checksumData (hm g fileData) w = (w1, a)" by (metis surj_pair)
  note R = checksumData_reads [OF 1] checksumData_looked(2) [OF 1]
  obtain w2 rec2 where 2: "quarantine x rec w1 = (w2, rec2)" by (metis surj_pair)
  show ?thesis
    using assms R True rejects_quarantine [OF R(1) 2]
    by (cases a) (auto simp: classify_sum_def Let_def 1 2 split: if_splits)
qed (use assms in \<open>auto simp: classify_sum_def Let_def\<close>)

lemma rejects_reads: "reads w w1 \<Longrightarrow> rejects x rec w1 r \<Longrightarrow> rejects x rec w r"
  using reads_trans by (fastforce simp: rejects_def)

lemma classify_meta_cases:
  assumes "classify_meta v x g mf rec w = r" and "parseGenID x = Some g"
  shows "rejects x rec w r \<or> (\<exists>w' j. dirent w (hm g fileData) = Some j
    \<and> r = (w', rec, Some \<lparr>cd_id = g, cd_mf = mf, cd_size = word_of_nat (length (inode w j))\<rparr>) \<and> reads w w'
    \<and> fits v g mf (inode w j))"
proof (cases "ValidName (mf_Name mf)")
  case None
  obtain w1 a where 1: "root_Stat (hm g fileData) w = (w1, a)" by (metis surj_pair)
  note R = Stat_reads [OF 1] Stat_looked [OF 1]
  obtain w2 rec2 where 2: "quarantine x rec w1 = (w2, rec2)" by (metis surj_pair)
  obtain w3 rec3 where 3: "removeGenDir (genPath g) rec w1 = (w3, rec3)" by (metis surj_pair)
  note J = rejects_quarantine [OF R(1) 2] rejects_remove [OF R(1) assms(2) 3]
  show ?thesis
  proof (cases a)
    case (Inl e)
    then show ?thesis using assms(1) J by (auto simp: classify_meta_def None 1 2 3)
  next
    case (Inr n)
    then obtain j where j: "dirent w (hm g fileData) = Some j" "n = word_of_nat (length (inode w j))" using R(2) by auto
    show ?thesis
    proof (cases "validate mf g n")
      case valid: None
      have "r = classify_sum v x g mf n rec w1" using assms(1) valid by (simp add: classify_meta_def None 1 Inr)
      then consider "rejects x rec w1 r" | w' where "r = (w', rec, Some \<lparr>cd_id = g, cd_mf = mf, cd_size = n\<rparr>)" "reads w1 w'"
          "v \<and> mf_Checksum mf \<noteq> '''' \<longrightarrow> (\<exists>j. dirent w1 (hm g fileData) = Some j \<and> checksum_text (inode w1 j) = mf_Checksum mf)"
        using classify_sum_cases [of v x g mf n rec w1 r] by blast
      then show ?thesis
      proof cases
        case 1
        then show ?thesis using rejects_reads [OF R(1)] by blast
      next
        case 2
        then show ?thesis using reads_trans [OF R(1) 2(2)] reads_sel [OF R(1)] j None valid
          by (intro disjI2 exI [of _ w'] exI [of _ j]) (auto simp: fits_def)
      qed
    qed (use assms(1) J in \<open>auto simp: classify_meta_def None 1 2 Inr\<close>)
  qed
next
  case (Some e)
  then show ?thesis using assms(1) rejects_quarantine [OF reads_refl]
    by (auto simp: classify_meta_def split: prod.splits)
qed

lemma classify_cases:
  assumes "classify J v x rec w = r" and "\<And>g. parseGenID x = Some g \<Longrightarrow> dir_there (genPath g) w"
  shows "rejects x rec w r \<or> (\<exists>w' g c. r = (w', rec, Some c) \<and> reads w w' \<and> parseGenID x = Some g \<and> recoverable J v w g = Some c)"
proof (cases "parseGenID x")
  case (Some g)
  then have g: "wf_id g" by (simp add: parseGenID_iff)
  obtain w1 a where 1: "readMeta (hm g fileMeta) w = (w1, a)" by (metis surj_pair)
  note R = ReadFile_reads [OF 1 [unfolded readMeta_def]] ReadFile_looked(2) [OF 1 [unfolded readMeta_def]]
  obtain w2 rec2 where 2: "quarantine x rec w1 = (w2, rec2)" by (metis surj_pair)
  obtain w3 rec3 where 3: "removeGenDir (genPath g) rec w1 = (w3, rec3)" by (metis surj_pair)
  note J = rejects_quarantine [OF R(1) 2] rejects_remove [OF R(1) Some 3]
  show ?thesis
  proof (cases a)
    case (Inl e)
    then show ?thesis using assms(1) J by (auto simp: classify_def Some 1 2 3 split: if_splits)
  next
    case (Inr b)
    then obtain i where i: "dirent w (hm g fileMeta) = Some i" "b = take maxMetaBytes (inode w i)" using R(2) by force
    show ?thesis
    proof (cases "loadMeta J b")
      case l: (Inr mf)
      have r: "classify_meta v x g mf rec w1 = r" using assms(1) by (simp add: classify_def Some 1 Inr l)
      have "recoverable J v w g = Some \<lparr>cd_id = g, cd_mf = mf, cd_size = word_of_nat (length (inode w j))\<rparr>"
        if "dirent w (hm g fileData) = Some j" "fits v g mf (inode w j)" for j
        using that i l g assms(2) [OF Some] by (simp add: recoverable_def published_def)
      moreover from classify_meta_cases [OF r Some] reads_sel [OF R(1)]
      have "rejects x rec w1 r \<or> (\<exists>w' j. dirent w (hm g fileData) = Some j
        \<and> r = (w', rec, Some \<lparr>cd_id = g, cd_mf = mf, cd_size = word_of_nat (length (inode w j))\<rparr>) \<and> reads w1 w'
        \<and> fits v g mf (inode w j))" by simp
      ultimately show ?thesis
        using reads_trans [OF R(1)] rejects_reads [OF R(1)] Some by blast
    qed (use assms(1) J in \<open>auto simp: classify_def Some 1 2 Inr\<close>)
  qed
next
  case None
  then show ?thesis using assms(1) rejects_quarantine [OF reads_refl]
    by (auto simp: classify_def split: prod.splits)
qed

subsection \<open>Without faults\<close>

lemma calm_ReadFile:
  assumes "plan w = []" "dirent w p = Some i" "limit = None \<Longrightarrow> bs = inode w i" "\<And>k. limit = Some k \<Longrightarrow> bs = take k (inode w i)"
  shows "\<exists>w'. root_ReadFile p limit w = (w', Inr bs) \<and> plan w' = []"
  using assms
  by (cases limit) (auto simp: root_ReadFile_def os_Open_def calm_ans file_ReadAt_def Let_def calm_Close)

lemma calm_Stat: "plan w = [] \<Longrightarrow> dirent w p = Some i \<Longrightarrow> root_Stat p w = (w, Inr (word_of_nat (length (inode w i))))"
  by (simp add: root_Stat_def calm_ans)

lemma classify_accepts:
  assumes "plan w = []" and "recoverable J v w g = Some c"
  shows "\<exists>w'. classify J v (genID_String g) rec w = (w', rec, Some c) \<and> plan w' = []"
proof -
  obtain mf bs where P: "published J w g = Some (mf, bs)" and F: "fits v g mf bs"
    and c: "c = \<lparr>cd_id = g, cd_mf = mf, cd_size = word_of_nat (length bs)\<rparr>"
    using assms(2) by (auto simp: recoverable_def split: option.splits if_splits)
  from P obtain i j where g: "wf_id g" and i: "dirent w (hm g fileMeta) = Some i" "loadMeta J (take maxMetaBytes (inode w i)) = Inr mf"
    and j: "dirent w (hm g fileData) = Some j" "bs = inode w j"
    by (auto simp: published_def split: option.splits sum.splits if_splits)
  obtain w1 where 1: "root_ReadFile (hm g fileMeta) (Some maxMetaBytes) w = (w1, Inr (take maxMetaBytes (inode w i)))" "plan w1 = []"
    using calm_ReadFile [OF assms(1) i(1), of "Some maxMetaBytes"] by force
  have s1: "dirent w1 = dirent w" "inode w1 = inode w" using reads_sel [OF ReadFile_reads [OF 1(1)]] by simp_all
  obtain w2 where 2: "root_ReadFile (hm g fileData) None w1 = (w2, Inr bs)" "plan w2 = []"
    using calm_ReadFile [OF 1(2), of "hm g fileData" j None bs] j s1 by force
  have p: "parseGenID (genID_String g) = Some g" using g by (simp add: parseGenID_iff)
  show ?thesis
    using F 1 2 calm_Stat [OF 1(2), of "hm g fileData" j] j s1
    by (auto simp: classify_def p readMeta_def i(2) classify_meta_def fits_def classify_sum_def c Let_def checksumData_def)
qed

lemma calm_RemoveAll: "plan w = [] \<Longrightarrow> root_RemoveAll d w = (w', e) \<Longrightarrow> plan w' = [] \<and> e = None"
  by (auto simp: root_RemoveAll_def calm_ans)

lemma calm_free_name: "plan w = [] \<Longrightarrow> free_name k base i w = (w', r) \<Longrightarrow> w' = w"
  by (induction k arbitrary: i) (auto simp: root_Stat_def calm_ans split: option.splits)

lemma calm_quarantine: "plan w = [] \<Longrightarrow> quarantine x rec w = (w', rec') \<Longrightarrow> plan w' = []"
  using calm_free_name [of w "Suc (length (paths w))" "slash dirQuarantine x" 0]
  by (auto simp: quarantine_def Let_def root_Rename_def calm_ans simp del: free_name.simps
      split: prod.splits option.splits if_splits)

lemma calm_removeGenDir: "plan w = [] \<Longrightarrow> removeGenDir d rec w = (w', rec') \<Longrightarrow> plan w' = []"
  by (auto simp: removeGenDir_def split: prod.splits option.splits dest: calm_RemoveAll)

lemma calm_rejects: "plan w = [] \<Longrightarrow> rejects x rec w (w', rec', c) \<Longrightarrow> plan w' = []"
  by (auto simp: rejects_def reads_def dest: calm_quarantine calm_removeGenDir)

subsection \<open>All directories\<close>

lemma rejects_stays:
  assumes "rejects x rec w (w', rec', c)" "flat x" "wf_id g" "genID_String g \<noteq> x"
  shows "stays g w w'" and "survivors rec' = survivors rec" and "c = None"
proof -
  obtain w1 where 1: "reads w w1" "c = None"
    "quarantine x rec w1 = (w', rec') \<or> (\<exists>v. parseGenID x = Some v \<and> removeGenDir (genPath v) rec w1 = (w', rec'))"
    using assms(1) by (auto simp: rejects_def)
  show "stays g w w'" "survivors rec' = survivors rec"
    using settled_stays [OF 1(3) assms(2-)] stays_trans [OF reads_stays [OF 1(1)]] by blast+
  show "c = None" by (rule 1(2))
qed

lemma dir_there_keeps: "keeps g w w' \<Longrightarrow> dir_there (genPath g) w' = dir_there (genPath g) w"
  using linkedI [of g "genPath g" w] by (auto simp: keeps_def dir_there_def split: option.splits)

definition listed :: "(string \<times> bool) list \<Rightarrow> os \<Rightarrow> bool" where
  "listed es w \<longleftrightarrow> distinct (map fst es) \<and> (\<forall>e \<in> set es. flat (fst e))
     \<and> (\<forall>g. wf_id g \<and> (genID_String g, True) \<in> set es \<longrightarrow> dir_there (genPath g) w)"

text \<open>The candidates \<open>new\<close> that the directories \<open>es\<close> of \<open>w\<close> give.\<close>

definition verdicts :: "codec \<Rightarrow> bool \<Rightarrow> (string \<times> bool) list \<Rightarrow> os \<Rightarrow> os \<Rightarrow> candidate list \<Rightarrow> bool" where
  "verdicts J v es w w' new \<longleftrightarrow> distinct (map cd_id new)
     \<and> (\<forall>c \<in> set new. (genID_String (cd_id c), True) \<in> set es \<and> recoverable J v w (cd_id c) = Some c)
     \<and> (\<forall>g. wf_id g \<and> (g \<in> cd_id ` set new \<or> genID_String g \<notin> fst ` set es) \<longrightarrow> keeps g w w')
     \<and> (plan w = [] \<longrightarrow> plan w' = [] \<and>
          (\<forall>g c. (genID_String g, True) \<in> set es \<and> recoverable J v w g = Some c \<longrightarrow> c \<in> set new))"

lemma verdictsI:
  assumes "distinct (map cd_id new)"
    and "\<And>c. c \<in> set new \<Longrightarrow> (genID_String (cd_id c), True) \<in> set es \<and> recoverable J v w (cd_id c) = Some c"
    and "\<And>g. wf_id g \<Longrightarrow> g \<in> cd_id ` set new \<or> genID_String g \<notin> fst ` set es \<Longrightarrow> keeps g w w'"
    and "plan w = [] \<Longrightarrow> plan w' = []"
    and "\<And>g c. plan w = [] \<Longrightarrow> (genID_String g, True) \<in> set es \<Longrightarrow> recoverable J v w g = Some c \<Longrightarrow> c \<in> set new"
  shows "verdicts J v es w w' new"
  unfolding verdicts_def
  by (intro conjI ballI allI impI) (use assms in \<open>blast+\<close>)

lemma verdicts_later:
  assumes v: "verdicts J v es w1 w' new" and l: "listed ((n, d) # es) w"
    and s: "\<And>g. wf_id g \<Longrightarrow> genID_String g \<noteq> n \<Longrightarrow> keeps g w w1" and c: "plan w = [] \<Longrightarrow> plan w1 = []"
    and r: "\<And>g c. d \<Longrightarrow> plan w = [] \<Longrightarrow> genID_String g = n \<Longrightarrow> recoverable J v w g \<noteq> Some c"
  shows "verdicts J v ((n, d) # es) w w' new"
proof -
  have n: "n \<notin> fst ` set es" using l by (auto simp: listed_def)
  have k: "keeps g w w1" if "wf_id g" "genID_String g \<in> fst ` set es" for g using s that n by metis
  have R: "recoverable J v w1 g = recoverable J v w g" if "(genID_String g, True) \<in> set es" for g
  proof (cases "wf_id g")
    case True
    have "fst (genID_String g, True) \<in> fst ` set es" using that by (rule imageI)
    then show ?thesis using recoverable_keeps [OF k [OF True]] by simp
  qed (auto simp: recoverable_def published_def)
  show ?thesis
  proof (rule verdictsI)
    show "distinct (map cd_id new)" using v by (simp add: verdicts_def)
    show "(genID_String (cd_id c), True) \<in> set ((n, d) # es) \<and> recoverable J v w (cd_id c) = Some c" if "c \<in> set new" for c
      using v that R unfolding verdicts_def by auto
    show "keeps g w w'" if "wf_id g" "g \<in> cd_id ` set new \<or> genID_String g \<notin> fst ` set ((n, d) # es)" for g
    proof -
      have "genID_String g \<noteq> n"
        using that(2) v n unfolding verdicts_def by force
      moreover have "keeps g w1 w'" using that v unfolding verdicts_def by auto
      ultimately show ?thesis using keeps_trans s that(1) by blast
    qed
    assume p: "plan w = []"
    show "plan w' = []" using v c [OF p] unfolding verdicts_def by blast
    have a: "\<And>g c. (genID_String g, True) \<in> set es \<Longrightarrow> recoverable J v w1 g = Some c \<Longrightarrow> c \<in> set new"
      using v c [OF p] unfolding verdicts_def by blast
    show "c \<in> set new" if "(genID_String g, True) \<in> set ((n, d) # es)" "recoverable J v w g = Some c" for g c
      using that r [OF _ p, of g c] a [of g c] R [of g] by auto
  qed
qed

lemma verdicts_accept:
  assumes v: "verdicts J v es w1 w' new" and l: "listed ((n, True) # es) w" and ok: "disk_ok w"
    and s: "reads w w1" and c: "recoverable J v w g = Some c" "genID_String g = n"
  shows "verdicts J v ((n, True) # es) w w' (c # new)"
proof -
  note g = recoverable_id [OF c(1)]
  have n: "n \<notin> fst ` set es" using l by (auto simp: listed_def)
  have k: "keeps h w w1" for h using reads_stays [OF s, of h] ok by (simp add: stays_def)
  have R: "recoverable J v w1 h = recoverable J v w h" for h using recoverable_keeps [OF k] by simp
  have ids: "cd_id c \<notin> cd_id ` set new" using v n g c(2) unfolding verdicts_def by force
  show ?thesis
  proof (rule verdictsI)
    show "distinct (map cd_id (c # new))" using v ids by (simp add: verdicts_def)
    show "(genID_String (cd_id c'), True) \<in> set ((n, True) # es) \<and> recoverable J v w (cd_id c') = Some c'"
      if "c' \<in> set (c # new)" for c'
      using that v c g R unfolding verdicts_def by auto
    show "keeps h w w'" if "wf_id h" "h \<in> cd_id ` set (c # new) \<or> genID_String h \<notin> fst ` set ((n, True) # es)" for h
    proof -
      have "h \<in> cd_id ` set new \<or> genID_String h \<notin> fst ` set es" using that(2) g c(2) n by auto
      then have "keeps h w1 w'" using v that(1) unfolding verdicts_def by blast
      then show ?thesis using keeps_trans k by blast
    qed
    assume p: "plan w = []"
    have p1: "plan w1 = []" using s p by (simp add: reads_def)
    then show "plan w' = []" using v by (simp add: verdicts_def)
    fix h c' assume h: "(genID_String h, True) \<in> set ((n, True) # es)" "recoverable J v w h = Some c'"
    show "c' \<in> set (c # new)"
    proof (cases "genID_String h = n")
      case True
      then have "h = g" using genID_String_inj [of h g] recoverable_id [OF h(2)] g c(2) by simp
      then show ?thesis using h(2) c(1) by simp
    next
      case False
      then show ?thesis using h v p1 R unfolding verdicts_def by auto
    qed
  qed
qed

lemma listed_later:
  assumes "listed ((n, d) # es) w" "\<And>g. wf_id g \<Longrightarrow> genID_String g \<noteq> n \<Longrightarrow> keeps g w w1"
  shows "listed es w1"
  unfolding listed_def
proof (intro conjI allI impI)
  fix g assume g: "wf_id g \<and> (genID_String g, True) \<in> set es"
  have "genID_String g \<noteq> n" using assms(1) g by (force simp: listed_def)
  then show "dir_there (genPath g) w1" using dir_there_keeps [OF assms(2)] assms(1) g by (simp add: listed_def)
qed (use assms(1) in \<open>auto simp: listed_def\<close>)

lemma scan_dirs_verdicts:
  assumes "scan_dirs J v es cs rec w = (w', rec', cs')" "disk_ok w" "listed es w"
  shows "disk_ok w' \<and> survivors rec' = survivors rec \<and> (\<exists>new. cs' = cs @ new \<and> verdicts J v es w w' new)"
  using assms
proof (induction es arbitrary: cs rec w)
  case Nil
  then show ?case by (auto intro!: exI [of _ "[]"] verdictsI)
next
  case (Cons e es)
  obtain n d where e: "e = (n, d)" by (metis surj_pair)
  have l: "listed ((n, d) # es) w" and ok: "disk_ok w" using Cons.prems by (simp_all add: e)
  have flat: "flat n" using l by (simp add: listed_def)
  show ?case
  proof (cases d)
    case False
    then have "scan_dirs J v es cs rec w = (w', rec', cs')" using Cons.prems by (simp add: e)
    from Cons.IH [OF this ok listed_later [OF l]]
    obtain new where "disk_ok w'" "survivors rec' = survivors rec" "cs' = cs @ new" "verdicts J v es w w' new" by auto
    moreover from verdicts_later [OF this(4) l] False have "verdicts J v ((n, d) # es) w w' new" by auto
    ultimately show ?thesis by (auto simp: e)
  next
    case True
    obtain w1 rec1 c where c: "classify J v n rec w = (w1, rec1, c)" by (metis surj_pair)
    have there: "dir_there (genPath g) w" if "parseGenID n = Some g" for g
      using l that True by (auto simp: listed_def parseGenID_iff)
    note C = classify_cases [OF c there]
    show ?thesis
    proof (cases "rejects n rec w (w1, rec1, c)")
      case r: True
      have s: "stays g w w1" if "wf_id g" "genID_String g \<noteq> n" for g
        using rejects_stays(1) [OF r flat that] .
      obtain u where u: "wf_id u" "genID_String u \<noteq> n" using other_id [of "the (parseGenID n)"] parseGenID_iff by (metis option.sel)
      have s': "survivors rec1 = survivors rec" "c = None" "disk_ok w1"
        using rejects_stays(2,3) [OF r flat u] s [OF u] ok by (simp_all add: stays_def)
      have k: "keeps g w w1" if "wf_id g" "genID_String g \<noteq> n" for g using s [OF that] ok by (simp add: stays_def)
      have "scan_dirs J v es cs rec1 w1 = (w', rec', cs')" using Cons.prems c s' by (simp add: e True)
      from Cons.IH [OF this s'(3) listed_later [OF l k]]
      obtain new where N: "disk_ok w'" "survivors rec' = survivors rec" "cs' = cs @ new" "verdicts J v es w1 w' new" using s'(1) by auto
      have no: "recoverable J v w g \<noteq> Some x" if "plan w = []" "genID_String g = n" for g x
        using classify_accepts [OF that(1), of J v g x rec] c s'(2) that(2) by auto
      have "verdicts J v ((n, d) # es) w w' new"
        by (rule verdicts_later [OF N(4) l k calm_rejects [OF _ r] no])
      then show ?thesis using N by (auto simp: e)
    next
      case False
      then obtain g c' where g: "c = Some c'" "rec1 = rec" "reads w w1" "genID_String g = n" "recoverable J v w g = Some c'"
        using C by (auto simp: parseGenID_iff)
      have ok1: "disk_ok w1" using g(3) ok by (simp add: reads_def)
      have k: "keeps h w w1" for h using reads_stays [OF g(3), of h] ok by (simp add: stays_def)
      have "scan_dirs J v es (cs @ [c']) rec w1 = (w', rec', cs')" using Cons.prems c g(1,2) by (simp add: e True)
      from Cons.IH [OF this ok1 listed_later [OF l k]]
      obtain new where N: "disk_ok w'" "survivors rec' = survivors rec" "cs' = (cs @ [c']) @ new" "verdicts J v es w1 w' new" by blast
      have "verdicts J v ((n, d) # es) w w' (c' # new)"
        using verdicts_accept [OF N(4) _ ok g(3,5,4)] l True by simp
      then show ?thesis using N by (auto simp: e)
    qed
  qed
qed

subsection \<open>The contest of one name\<close>

abbreviation cd_name :: "candidate \<Rightarrow> string" where
  "cd_name c \<equiv> mf_Name (cd_mf c)"

lemma keep_of_in: "keep_of k cs \<in> set (k # cs)"
proof (induction cs arbitrary: k)
  case (Cons x xs)
  show ?case using Cons [of "if id_after (cd_id x) (cd_id k) then x else k"] by (auto split: if_splits)
qed simp

lemma keep_of_greatest:
  "\<forall>c \<in> set (k # cs). wf_id (cd_id c) \<Longrightarrow> c \<in> set (k # cs) \<Longrightarrow> \<not> id_after (cd_id c) (cd_id (keep_of k cs))"
proof (induction cs arbitrary: k c)
  case Nil
  then show ?case by (simp add: id_after_irrefl)
next
  case (Cons x xs)
  define k' where "k' = (if id_after (cd_id x) (cd_id k) then x else k)"
  have wf: "wf_id (cd_id x)" "wf_id (cd_id k)" "wf_id (cd_id k')" "\<forall>c \<in> set (k' # xs). wf_id (cd_id c)"
    using Cons.prems(1) by (auto simp: k'_def)
  have m: "wf_id (cd_id (keep_of k' xs))" using keep_of_in [of k' xs] wf(4) by blast
  have "\<not> id_after (cd_id k') (cd_id (keep_of k' xs))" using Cons.IH [OF wf(4), of k'] by simp
  moreover have lex: "id_after (cd_id a) (cd_id b) \<longleftrightarrow> cd_id b < cd_id a" if "wf_id (cd_id a)" "wf_id (cd_id b)" for a b
    using that by (rule id_after_lex)
  moreover have "cd_id k \<le> cd_id k'" "cd_id x \<le> cd_id k'"
    by (simp_all add: k'_def lex [OF wf(1,2)] less_imp_le not_less)
  ultimately have "\<not> id_after (cd_id k) (cd_id (keep_of k' xs))" "\<not> id_after (cd_id x) (cd_id (keep_of k' xs))"
    using lex [OF wf(3) m] lex [OF wf(2) m] lex [OF wf(1) m] by (meson le_less_trans not_less)+
  moreover have "\<not> id_after (cd_id c) (cd_id (keep_of k' xs))" if "c \<in> set xs" using Cons.IH [OF wf(4)] that by simp
  moreover have "c = k \<or> c = x \<or> c \<in> set xs" using Cons.prems(2) by simp
  ultimately have "\<not> id_after (cd_id c) (cd_id (keep_of k' xs))" by blast
  then show ?case by (simp add: k'_def)
qed

definition winner :: "string \<Rightarrow> candidate list \<Rightarrow> candidate" where
  "winner n cs = (let group = filter (\<lambda>c. cd_name c = n) cs in keep_of (hd group) (tl group))"

lemma winner_in: "\<exists>c \<in> set cs. cd_name c = n \<Longrightarrow> winner n cs \<in> set cs \<and> cd_name (winner n cs) = n"
proof -
  assume "\<exists>c \<in> set cs. cd_name c = n"
  then obtain k ks where g: "filter (\<lambda>c. cd_name c = n) cs = k # ks"
    by (metis (mono_tags, lifting) filter_empty_conv list.exhaust)
  then have "winner n cs \<in> set (filter (\<lambda>c. cd_name c = n) cs)" using keep_of_in [of k ks] by (simp add: winner_def)
  then show ?thesis by simp
qed

lemma winner_greatest:
  assumes "\<forall>c \<in> set cs. wf_id (cd_id c)" and "c \<in> set cs"
  shows "\<not> id_after (cd_id c) (cd_id (winner (cd_name c) cs))"
proof -
  let ?G = "filter (\<lambda>x. cd_name x = cd_name c) cs"
  have c: "c \<in> set ?G" using assms(2) by simp
  then obtain k ks where g: "?G = k # ks" by (cases ?G) auto
  have "\<forall>x \<in> set (k # ks). wf_id (cd_id x)" using assms(1) unfolding g [symmetric] by auto
  from keep_of_greatest [OF this, of c] show ?thesis using c by (simp add: winner_def g)
qed

lemma reclaim_stays:
  assumes "reclaim_losers keep cs rec w = (w', rec')" "\<forall>c \<in> set cs. wf_id (cd_id c)" "wf_id g"
    "g = keep \<or> g \<notin> cd_id ` set cs"
  shows "stays g w w' \<and> survivors rec' = survivors rec"
  using assms
proof (induction cs arbitrary: rec w)
  case (Cons c cs)
  show ?case
  proof (cases "cd_id c = keep")
    case False
    obtain w1 rec1 where 1: "removeGenDir (genPath (cd_id c)) rec w = (w1, rec1)" by (metis surj_pair)
    have "stays g w w1 \<and> survivors rec1 = survivors rec"
      using removeGenDir_stays [OF 1, of g] Cons.prems False by auto
    moreover have "stays g w1 w' \<and> survivors rec' = survivors rec1"
      using Cons.IH [of rec1 w1] Cons.prems False 1 by auto
    ultimately show ?thesis using stays_trans by auto
  next
    case True
    have "g = keep \<or> g \<notin> cd_id ` set cs" using Cons.prems(4) by auto
    then show ?thesis using Cons.IH [of rec w] Cons.prems(1-3) True by simp
  qed
qed simp

lemma calm_reclaim: "plan w = [] \<Longrightarrow> reclaim_losers keep cs rec w = (w', rec') \<Longrightarrow> plan w' = []"
  by (induction cs arbitrary: rec w) (auto split: if_splits prod.splits dest: calm_removeGenDir)

lemma resolve_stays:
  assumes "resolve_names ns cs rec w = (w', rec')" "\<forall>c \<in> set cs. wf_id (cd_id c)" "wf_id g"
    "\<And>n c. n \<in> set ns \<Longrightarrow> c \<in> set cs \<Longrightarrow> cd_name c = n \<Longrightarrow> cd_id c = g \<Longrightarrow> g = cd_id (winner n cs)"
  shows "stays g w w' \<and> survivors rec' = survivors rec @ map (\<lambda>n. toRecovered (winner n cs)) ns"
  using assms
proof (induction ns arbitrary: rec w)
  case (Cons n ns)
  let ?G = "filter (\<lambda>c. cd_name c = n) cs"
  obtain w1 rec1 where 1: "reclaim_losers (cd_id (winner n cs)) ?G rec w = (w1, rec1)" by (metis surj_pair)
  have "g = cd_id (winner n cs) \<or> g \<notin> cd_id ` set ?G" using Cons.prems(4) [of n] by auto
  from reclaim_stays [OF 1 _ Cons.prems(3) this] have s: "stays g w w1" "survivors rec1 = survivors rec"
    using Cons.prems(2) by auto
  have r: "resolve_names ns cs (rec1\<lparr>survivors := survivors rec1 @ [toRecovered (winner n cs)]\<rparr>) w1 = (w', rec')"
    using Cons.prems(1) 1 by (simp add: winner_def Let_def)
  have "stays g w1 w' \<and> survivors rec' = survivors rec1 @ [toRecovered (winner n cs)] @ map (\<lambda>n. toRecovered (winner n cs)) ns"
    using Cons.IH [OF r Cons.prems(2,3)] Cons.prems(4) by auto
  then show ?case using s stays_trans by auto
qed simp

subsection \<open>The whole scan\<close>

lemma parent_flat: "parent_dir (slash d x) = d \<Longrightarrow> flat x"
proof (rule ccontr)
  assume p: "parent_dir (slash d x) = d" and "\<not> flat x"
  then obtain y z where "x = y @ CHR ''/'' # z" "CHR ''/'' \<notin> set z"
    using split_list_last [of "CHR ''/''" x] by (auto simp: flat_def)
  then have "slash d x = slash (slash d y) z" "flat z" by (simp_all add: slash_def flat_def)
  then have "parent_dir (slash d x) = slash d y" using parent_slash by simp
  then show False using p by (simp add: slash_def)
qed

lemma slash_split: "inside d p \<Longrightarrow> p = slash d (drop (length (slash d [])) p)"
  by (auto simp: inside_def slash_def prefix_def)

lemma children_iff:
  assumes "disk_ok w" "d \<noteq> []"
  shows "(x, t) \<in> set (children d w) \<longleftrightarrow> flat x \<and> (\<exists>i. dirent w (slash d x) = Some i \<and> t = isdir w i)"
proof
  assume "(x, t) \<in> set (children d w)"
  then obtain p i where p: "inside d p" "parent_dir p = d" "dirent w p = Some i" "x = drop (length (slash d [])) p" "t = isdir w i"
    by (auto simp: children_def)
  then have x: "p = slash d x" using slash_split by simp
  then have "flat x" using p(2) parent_flat by metis
  then show "flat x \<and> (\<exists>i. dirent w (slash d x) = Some i \<and> t = isdir w i)" using p(3,5) x by blast
next
  assume h: "flat x \<and> (\<exists>i. dirent w (slash d x) = Some i \<and> t = isdir w i)"
  then obtain i where i: "dirent w (slash d x) = Some i" "t = isdir w i" by blast
  then have "slash d x \<in> set (paths w)" using ok_sel(2) [OF assms(1)] by blast
  moreover have "inside d (slash d x)" by (simp add: inside_def slash_def)
  moreover have "drop (length (slash d [])) (slash d x) = x" by (simp add: slash_def)
  ultimately show "(x, t) \<in> set (children d w)"
    using i parent_slash h by (auto simp: children_def intro!: image_eqI [of _ _ "slash d x"])
qed

lemma children_distinct: "distinct (map fst (children d w))"
proof -
  have "inj_on (\<lambda>p. drop (length (slash d [])) p) {p. inside d p}"
    by (rule inj_onI) (metis mem_Collect_eq slash_split)
  then show ?thesis
    by (auto simp: children_def comp_def distinct_map intro: inj_on_subset)
qed

lemma children_listed:
  assumes "disk_ok w"
  shows "listed (children dirClips w) w"
    and "wf_id g \<Longrightarrow> dir_there (genPath g) w \<Longrightarrow> (genID_String g, True) \<in> set (children dirClips w)"
proof -
  have c: "dirClips \<noteq> []" by (simp add: dirClips_def)
  have "flat (fst e)" if "e \<in> set (children dirClips w)" for e
    using that children_iff [OF assms c, of "fst e" "snd e"] by simp
  then show "listed (children dirClips w) w"
    using children_distinct children_iff [OF assms c]
    by (auto simp: listed_def dir_there_def genPath_def [symmetric] split: option.splits)
  show "wf_id g \<Longrightarrow> dir_there (genPath g) w \<Longrightarrow> (genID_String g, True) \<in> set (children dirClips w)"
    using children_iff [OF assms c, of "genID_String g" True]
    by (auto simp: dir_there_def genPath_def [symmetric] split: option.splits)
qed

lemma ReadDir_cases:
  assumes "listDir d w = (w', Inr es)" and ok: "disk_ok w"
  obtains w1 where "reads w w1" "es = children d w1" "reads w w'" "dirent w' = dirent w1" "isdir w' = isdir w1" "disk_ok w1" "disk_ok w'"
proof -
  obtain w0 q where 0: "os_Open d w = (w0, q)" by (metis surj_pair)
  have "fnext w \<le> fnext w0" "plan w = [] \<Longrightarrow> plan w0 = []"
    using 0 by (cases rule: ans_cases [of w]; auto simp: os_Open_def calm_ans split: option.splits)+
  then have r0: "reads w w0" using Open_looked [OF 0] Open_law(1) [OF _ 0] by (simp add: reads_def)
  obtain f where f: "q = Inr f" using assms(1) by (cases q) (auto simp: listDir_def 0)
  obtain w1 where 1: "os_ans w0 = (w1, None)" "es = children d w1" "w' = fst (file_Close f w1)"
    using assms(1) by (auto simp: listDir_def 0 f split: prod.splits option.splits)
  have "fnext w = f" using Open_looked [OF 0] f by simp
  obtain p where p: "w1 = w0\<lparr>plan := p\<rparr>" using ans_frame 1(1) by blast
  have r1: "reads w w1" using r0 p calm_ans [of w0] 1(1) by (auto simp: reads_def)
  have cl: "looked w w'" using Close_looked [of w w1 f] r1 1(3) \<open>fnext w = f\<close> by (simp add: reads_def)
  have "fnext w' = fnext w1" unfolding 1(3)
    by (cases rule: ans_cases [of w1]) (auto simp: file_Close_def split: option.splits)
  then have r': "reads w w'"
    using cl r1 Close_law(1) [of f w1 w' "snd (file_Close f w1)"] calm_Close [of w1 f] 1(3) by (simp add: reads_def)
  have d: "dirent w' = dirent w1" "isdir w' = isdir w1" using cl r1 by (simp_all add: reads_def looked_def)
  have "disk_ok w1" "disk_ok w'" using r1 r' ok by (simp_all add: reads_def)
  then show ?thesis using that r1 1(2) r' d by blast
qed

lemma scan_spec:
  assumes s: "scan J v w = (w', Inr rec)" and ok: "disk_ok w"
  obtains cs where "survivors rec = map (\<lambda>n. toRecovered (winner n cs)) (remdups (map cd_name cs))"
    "\<And>c. c \<in> set cs \<Longrightarrow> recoverable J v w (cd_id c) = Some c" "distinct (map cd_id cs)"
    "\<And>g c. plan w = [] \<Longrightarrow> recoverable J v w g = Some c \<Longrightarrow> c \<in> set cs"
    "\<And>c. c \<in> set cs \<Longrightarrow> keeps (cd_id (winner (cd_name c) cs)) w w'" "disk_ok w'"
proof -
  obtain w1 q where 1: "listDir dirClips w = (w1, q)" by (metis surj_pair)
  then obtain es where q: "q = Inr es" using s by (cases q) (auto simp: scan_def)
  obtain v1 where v1: "es = children dirClips v1" "reads w w1" "dirent w1 = dirent v1" "isdir w1 = isdir v1" "disk_ok v1" "disk_ok w1"
    using ReadDir_cases [OF 1 [unfolded q] ok] by metis
  have there: "dir_there p v1 = dir_there p w1" for p unfolding dir_there_def v1(3,4) ..
  have l: "listed es w1" using children_listed(1) [OF v1(5)] by (simp add: listed_def v1(1) there)
  obtain w2 rec2 cs where 2: "scan_dirs J v es [] no_recovery w1 = (w2, rec2, cs)" by (metis surj_pair)
  have r2: "disk_ok w2" "survivors rec2 = []" and V: "verdicts J v es w1 w2 cs"
    using scan_dirs_verdicts [OF 2 v1(6) l] by (simp_all add: no_recovery_def)
  obtain w3 rec3 where 3: "resolve_names (remdups (map cd_name cs)) cs rec2 w2 = (w3, rec3)" by (metis surj_pair)
  have w3: "w' = w3" "rec = rec3" using s by (simp_all add: scan_def 1 q 2 3)
  have k1: "keeps g w w1" for g using reads_stays [OF v1(2), of g] ok by (simp add: stays_def)
  have R: "recoverable J v w1 g = recoverable J v w g" for g by (rule recoverable_keeps [OF k1])
  have cs: "recoverable J v w (cd_id c) = Some c" if "c \<in> set cs" for c
    using V that R unfolding verdicts_def by simp
  have wf: "\<forall>c \<in> set cs. wf_id (cd_id c)" using cs recoverable_id by blast
  have dist: "distinct (map cd_id cs)" using V by (simp add: verdicts_def)
  have inj: "c = c'" if "c \<in> set cs" "c' \<in> set cs" "cd_id c = cd_id c'" for c c'
    using cs [OF that(1)] cs [OF that(2)] unfolding that(3) by (metis option.inject)
  have win: "stays (cd_id (winner (cd_name c) cs)) w2 w' \<and> survivors rec = map (\<lambda>n. toRecovered (winner n cs)) (remdups (map cd_name cs))"
    and kw: "keeps (cd_id (winner (cd_name c) cs)) w w2" if c: "c \<in> set cs" for c
  proof -
    let ?W = "winner (cd_name c) cs"
    have W: "?W \<in> set cs" "cd_name ?W = cd_name c" using winner_in [of cs "cd_name c"] c by blast+
    have "cd_id ?W = cd_id (winner n cs)" if "x \<in> set cs" "cd_name x = n" "cd_id x = cd_id ?W" for n x
      using that inj [of x ?W] W by simp
    then show "stays (cd_id ?W) w2 w' \<and> survivors rec = map (\<lambda>n. toRecovered (winner n cs)) (remdups (map cd_name cs))"
      using resolve_stays [OF 3 wf, of "cd_id ?W"] wf W(1) r2(2) w3 by auto
    have "keeps (cd_id ?W) w1 w2" using V W(1) wf unfolding verdicts_def by blast
    then show "keeps (cd_id ?W) w w2" using keeps_trans k1 by blast
  qed
  have "survivors rec = map (\<lambda>n. toRecovered (winner n cs)) (remdups (map cd_name cs)) \<and> disk_ok w'"
  proof (cases cs)
    case Nil
    then show ?thesis using 3 w3 r2 by simp
  next
    case (Cons c cs')
    then show ?thesis using win [of c] r2(1) by (simp add: stays_def)
  qed
  moreover have "c \<in> set cs" if "plan w = []" "recoverable J v w g = Some c" for g c
  proof -
    have "plan w1 = []" using v1(2) that(1) by (simp add: reads_def)
    moreover have "dir_there (genPath g) v1"
      using that(2) dir_there_keeps [OF k1] there by (auto simp: recoverable_def published_def split: option.splits if_splits)
    then have "(genID_String g, True) \<in> set es"
      using children_listed(2) [OF v1(5)] recoverable_id [OF that(2)] v1(1) by simp
    ultimately show ?thesis using V that(2) R unfolding verdicts_def by simp
  qed
  moreover have "keeps (cd_id (winner (cd_name c) cs)) w w'" if "c \<in> set cs" for c
    using keeps_trans [OF kw [OF that]] win [OF that] r2(1) by (simp add: stays_def)
  ultimately show ?thesis using that [of cs] cs dist by blast
qed

lemma scan_returns: "plan w = [] \<Longrightarrow> dirent w dirClips \<noteq> None \<Longrightarrow> \<exists>w' rec. scan J v w = (w', Inr rec)"
  by (auto simp: scan_def listDir_def os_Open_def calm_ans split: prod.splits)

end
