(* ===== verification/Durability.thy ===== *)
theory Durability imports DiskRefine ScanProps begin

text \<open>
  Crashes: what an acknowledged upload and an acknowledged retirement leave on stable storage, through any calls
  for other generations before the crash, and what the recovery that follows makes of it.
\<close>

subsection \<open>Crashes and the specification\<close>

lemma crash_ok:
  assumes "disk_ok w" "crash w w'"
  shows "disk_ok w'"
proof (rule ok_step [OF assms(1)])
  show "inext w \<le> inext w'" using assms(2) by (simp add: crash_def)
  show "dirent w' q \<in> ents w' q" for q using assms(2) by (simp add: crash_def)
  show "q \<in> set (paths w')" if "dirent w' q = Some i" for q i using assms(2) that by (simp add: crash_def)
  show "i < inext w'" if "Some i \<in> ents w' q" for q i
    using assms(2) that ok_sel(3) [OF assms(1)] unfolding crash_def by (metis singletonD)
  show "f < fnext w' \<and> i < inext w'" if "fds w' f = Some i" for f i using assms(2) that by (simp add: crash_def)
  show "owned w g i \<or> i = inext w \<and> home_path g []" if "owned w' g i" for g i
    using assms(2) that unfolding owned_def crash_def by (metis singletonD)
qed

text \<open>The published generation \<open>g\<close> is on stable storage, with inodes \<open>d\<close>, \<open>i\<close> and \<open>j\<close>.\<close>

definition stable_home :: "os \<Rightarrow> genID \<Rightarrow> nat \<Rightarrow> nat \<Rightarrow> nat \<Rightarrow> bool" where
  "stable_home w g d i j \<longleftrightarrow> ents w (genPath g) = {Some d} \<and> isdir w d \<and> ents w (hm g fileMeta) = {Some i} \<and> clean w i
     \<and> ents w (hm g fileData) = {Some j} \<and> clean w j"

lemma stable_dirent:
  assumes "disk_ok w" "stable_home w g d i j"
  shows "dirent w (genPath g) = Some d" "dirent w (hm g fileMeta) = Some i" "dirent w (hm g fileData) = Some j"
  using assms(2) ok_sel(1) [OF assms(1), of "genPath g"] ok_sel(1) [OF assms(1), of "hm g fileMeta"]
    ok_sel(1) [OF assms(1), of "hm g fileData"] by (simp_all add: stable_home_def)

lemma crash_published:
  assumes ok: "disk_ok w" and s: "stable_home w g d i j" and c: "crash w w'"
  shows "published J w' g = published J w g"
proof -
  have e: "dirent w' p = dirent w p" if "ents w p = {x}" for p x
    using c that ok_sel(1) [OF ok, of p] unfolding crash_def by (metis singletonD)
  have "dirent w' (genPath g) = dirent w (genPath g)" "dirent w' (hm g fileMeta) = dirent w (hm g fileMeta)"
    "dirent w' (hm g fileData) = dirent w (hm g fileData)"
    using s e unfolding stable_home_def by blast+
  moreover have "inode w' i = inode w i" "inode w' j = inode w j" "isdir w' d = isdir w d"
    using c s by (simp_all add: crash_def stable_home_def)
  ultimately show ?thesis using stable_dirent [OF ok s] by (simp add: published_def dir_there_def split: sum.splits)
qed

lemma stable_keeps:
  assumes "stable_home w g d i j" "keeps g w w'" "disk_ok w" "disk_ok w'"
  shows "stable_home w' g d i j"
proof -
  note D = stable_dirent [OF assms(3,1)]
  have sub: "ents w' p = {x}" if "home_path g p" "ents w p = {x}" for p x
  proof -
    have "ents w' p \<subseteq> {x}" using assms(2) that unfolding keeps_def by metis
    then show ?thesis using ok_sel(1) [OF assms(4), of p] by auto
  qed
  have "linked w g d" "linked w g i" "linked w g j" using linkedI [OF _ D(1)] linkedI [OF _ D(2)] linkedI [OF _ D(3)] by simp_all
  then show ?thesis using assms(1,2) sub unfolding stable_home_def keeps_def by auto
qed

text \<open>Any calls for other generations.\<close>

definition others :: "diskMedium \<Rightarrow> codec \<Rightarrow> genID \<Rightarrow> os \<Rightarrow> os \<Rightarrow> bool" where
  "others m J g = (\<lambda>w w'. \<exists>c. disk_call m J w c w' \<and> call_gen c \<noteq> Some g)\<^sup>*\<^sup>*"

lemma others_stays: "others m J g w w' \<Longrightarrow> wf_id g \<Longrightarrow> stays g w w'"
  unfolding others_def
  by (induction rule: rtranclp_induct) (auto intro: stays_trans disk_call_stays)

subsection \<open>An upload, up to its acknowledgement\<close>

text \<open>The upload of \<open>g\<close> so far: its log \<open>b\<close>, the bytes \<open>bs\<close> appended, other generations' calls in between.\<close>

inductive uploading :: "diskMedium \<Rightarrow> codec \<Rightarrow> genID \<Rightarrow> os \<Rightarrow> diskLog buffer \<Rightarrow> byte list \<Rightarrow> bool" for m J g where
  start: "disk_ok w0 \<Longrightarrow> vacant w0 g \<Longrightarrow> disk_create m g w0 = (w, Inr b) \<Longrightarrow> uploading m J g w b []"
| append: "uploading m J g w b bs \<Longrightarrow> buf_Append diskLogB p b w = (b', w', n, None) \<Longrightarrow> uploading m J g w' b' (bs @ p)"
| between: "uploading m J g w b bs \<Longrightarrow> others m J g w w' \<Longrightarrow> uploading m J g w' b bs"

definition in_progress :: "diskMedium \<Rightarrow> genID \<Rightarrow> os \<Rightarrow> diskLog buffer \<Rightarrow> byte list \<Rightarrow> nat \<Rightarrow> nat \<Rightarrow> bool" where
  "in_progress m g w b bs d j \<longleftrightarrow> disk_ok w \<and> live_home w g d j \<and> writes_to b w j \<and> inode w j = bs
     \<and> (\<forall>l. bback b = LogDisk l \<longrightarrow> fsync l = dm_fsync m) \<and> (dm_fsync m \<longrightarrow> ents w (genPath g) = {Some d})
     \<and> \<not> terminated b \<and> bsize b = word_of_nat (length bs)"

lemma live_keeps:
  assumes "live_home w g d j" "keeps g w w'"
  shows "live_home w' g d j"
proof -
  have "linked w g d" using assms(1) linkedI [of g "genPath g" w d] by (simp add: live_home_def)
  then show ?thesis using assms by (auto simp: live_home_def keeps_def)
qed

lemma progress_keeps:
  assumes p: "in_progress m g w b bs d j" and s: "stays g w w'"
  shows "in_progress m g w' b bs d j"
proof -
  have ok: "disk_ok w" "disk_ok w'" and k: "keeps g w w'" and l: "live_home w g d j"
    using p s by (simp_all add: in_progress_def stays_def)
  have lj: "linked w g j" using l by (rule linked_live)
  have "ents w' (genPath g) = {Some d}" if "ents w (genPath g) = {Some d}"
  proof -
    have "ents w' (genPath g) \<subseteq> {Some d}" using k that unfolding keeps_def by (metis home_path_hm(2))
    then show ?thesis using ok_sel(1) [OF ok(2), of "genPath g"] by auto
  qed
  moreover have "writes_to b w' j" "inode w' j = inode w j" using k lj p by (auto simp: keeps_def in_progress_def writes_to_def)
  ultimately show ?thesis using p ok(2) live_keeps [OF l k] by (auto simp: in_progress_def)
qed

lemma uploading_progress: "uploading m J g w b bs \<Longrightarrow> wf_id g \<Longrightarrow> \<exists>d j. in_progress m g w b bs d j"
proof (induction rule: uploading.induct)
  case (start w0 w b)
  obtain u where "wf_id u" "g \<noteq> u" using other_id by metis
  then have "disk_ok w" using create_stays [OF start(3,4)] start(1) by (auto simp: stays_def)
  then show ?case using create_own(2) [OF start(3,4,2) refl] by (auto simp: in_progress_def)
next
  case (append w b bs p b' w' n)
  then obtain d j where i: "in_progress m g w b bs d j" by blast
  then have wr: "writes_to b w j" by (simp add: in_progress_def)
  note A = append_own [OF append(2) wr]
  obtain u where "wf_id u" "g \<noteq> u" using other_id by metis
  then have "disk_ok w'"
    using append_stays [OF append(2) linked_live [of w g d j] wr append(4)] i by (auto simp: stays_def in_progress_def)
  moreover have "writes_to b' w' j" using wr A(4,7) by (simp add: writes_to_def)
  ultimately have "in_progress m g w' b' (bs @ p) d j"
    using i A by (auto simp: in_progress_def live_home_def)
  then show ?case by blast
next
  case (between w b bs w')
  then show ?case using progress_keeps others_stays by metis
qed

lemma finalized_stable:
  assumes fs: "dm_fsync m" and g: "wf_id g" and up: "uploading m J g w b bs"
    and sy: "buf_Sync diskLogB b w = (b', w1, None)" and o: "others m J g w1 w2"
    and gn: "g_id gn = g" and J: "codec_fits J (record_of m gn bs)"
    and fin: "disk_finalize m J gn w2 = (w3, True, None)"
  shows "\<exists>d i j. stable_home w3 g d i j" and "published J w3 g = Some (record_of m gn bs, bs)" and "disk_ok w3"
    and "bsize b = word_of_nat (length bs)"
proof -
  obtain d j where p: "in_progress m g w b bs d j" using uploading_progress [OF up g] by blast
  then have wr: "writes_to b w j" and f: "\<And>l. bback b = LogDisk l \<Longrightarrow> fsync l" and size: "bsize b = word_of_nat (length bs)"
    using fs by (simp_all add: in_progress_def)
  obtain l where l: "bback b = LogDisk l" using wr by (auto simp: writes_to_def)
  have p1: "in_progress m g w1 b bs d j" and c1: "clean w1 j"
    using progress_keeps [OF p sync_stays [OF sy l]] sync_own(6) [OF sy wr refl l f [OF l]] by simp_all
  have s2: "stays g w1 w2" by (rule others_stays [OF o g])
  have p2: "in_progress m g w2 b bs d j" by (rule progress_keeps [OF p1 s2])
  have "linked w1 g j" using p1 linked_live by (auto simp: in_progress_def)
  then have c2: "clean w2 j" using c1 s2 p1 by (simp add: stays_def keeps_def in_progress_def)
  have ok2: "disk_ok w2" and h2: "live_home w2 g d j" "inode w2 j = bs" "ents w2 (genPath g) = {Some d}"
    using p2 fs by (simp_all add: in_progress_def)
  note F = finalize_own [OF fin ok2 gn [symmetric] g h2(1)]
  show "published J w3 g = Some (record_of m gn bs, bs)" using F(1) J h2(2) by simp
  show "\<exists>d i j. stable_home w3 g d i j"
    using F(2) [OF _ TrueI refl fs c2 h2(3)] J h2(2) by (auto simp: stable_home_def)
  obtain u where "wf_id u" "g \<noteq> u" using other_id by metis
  then show "disk_ok w3" using finalize_stays [OF fin] g gn ok2 by (auto simp: stays_def)
  show "bsize b = word_of_nat (length bs)" by (rule size)
qed

lemma record_fits:
  assumes "g_id gn = g" "bsize (g_buf gn) = word_of_nat (length bs)" "ValidName (g_name gn) = None"
  shows "fits v g (record_of m gn bs) bs"
  using assms by (simp add: fits_def record_of_def meta_of_def validate_def)

lemma recovered_or_later:
  assumes s: "scan J v w = (w', Inr rec)" and ok: "disk_ok w" and p: "plan w = []" and c: "recoverable J v w g = Some c"
  shows "\<exists>r \<in> set (survivors rec). rc_name r = cd_name c
    \<and> (r = toRecovered c \<and> published J w' g = published J w g \<or> id_after (rc_id r) g)"
proof -
  obtain cs where cs: "survivors rec = map (\<lambda>n. toRecovered (winner n cs)) (remdups (map cd_name cs))"
    "\<And>c. c \<in> set cs \<Longrightarrow> recoverable J v w (cd_id c) = Some c" "c \<in> set cs"
    "keeps (cd_id (winner (cd_name c) cs)) w w'"
    using scan_spec [OF s ok] p c by metis
  let ?W = "winner (cd_name c) cs"
  have W: "?W \<in> set cs" "cd_name ?W = cd_name c" using winner_in [of cs "cd_name c"] cs(3) by blast+
  have wf: "\<forall>x \<in> set cs. wf_id (cd_id x)" using cs(2) recoverable_id by blast
  have r: "toRecovered ?W \<in> set (survivors rec)" "rc_name (toRecovered ?W) = cd_name c" "rc_id (toRecovered ?W) = cd_id ?W"
    using cs(1,3) W by (auto simp: toRecovered_def Let_def)
  have gid: "cd_id c = g" using recoverable_id [OF c] by simp
  show ?thesis
  proof (cases "cd_id ?W = g")
    case True
    then have "?W = c" using cs(2) [OF W(1)] c by simp
    then show ?thesis using r published_keeps [OF cs(4)] gid by metis
  next
    case False
    have "\<not> id_after g (cd_id ?W)" using winner_greatest [OF wf cs(3)] gid by simp
    then have "id_after (cd_id ?W) g" using False id_after_lex wf W(1) cs(3) gid by (metis not_less_iff_gr_or_eq)
    then show ?thesis using r by metis
  qed
qed

text \<open>
  C6. An acknowledged upload survives a crash.  With \<open>fsync\<close> on, when \<open>create\<close>, every append, \<open>Sync\<close> and \<open>finalize\<close>
  of a generation have returned without an error, with any calls for other generations between and after, then
  whatever a crash leaves of the disk, the next start's scan, if nothing fails in it and \<open>clips\<close> is there, brings back a generation of that name: this one with
  its record and exactly its bytes, or one with a later id.
\<close>

theorem acknowledged_upload_survives_crash:
  assumes "dm_fsync m" and "wf_id g" and "uploading m J g w b bs" and "buf_Sync diskLogB b w = (b', w1, None)"
    and "others m J g w1 w2" and "g_id gn = g" and "g_buf gn = b" and "ValidName (g_name gn) = None"
    and "codec_fits J (record_of m gn bs)" and "disk_finalize m J gn w2 = (w3, True, None)"
    and "others m J g w3 w4" and "crash w4 w5" and "plan w5 = []" and "dirent w5 dirClips \<noteq> None"
  shows "\<exists>w6 rec. scan J v w5 = (w6, Inr rec) \<and> (\<exists>r \<in> set (survivors rec). rc_name r = g_name gn \<and>
    (r = toRecovered \<lparr>cd_id = g, cd_mf = record_of m gn bs, cd_size = word_of_nat (length bs)\<rparr>
       \<and> published J w6 g = Some (record_of m gn bs, bs)
     \<or> id_after (rc_id r) g))"
proof -
  obtain w6 rec where sc: "scan J v w5 = (w6, Inr rec)" using scan_returns [OF assms(13,14)] by metis
  note F = finalized_stable [OF assms(1-6,9,10)]
  obtain d i j where st: "stable_home w3 g d i j" using F(1) by blast
  have s4: "disk_ok w4" "keeps g w3 w4" using others_stays [OF assms(11,2)] F(3) by (simp_all add: stays_def)
  have "published J w5 g = published J w4 g"
    by (rule crash_published [OF s4(1) stable_keeps [OF st s4(2) F(3) s4(1)] assms(12)])
  then have P: "published J w5 g = Some (record_of m gn bs, bs)" using published_keeps [OF s4(2)] F(2) by simp
  have "fits v g (record_of m gn bs) bs" by (rule record_fits) (use assms F(4) in simp_all)
  then have "recoverable J v w5 g = Some \<lparr>cd_id = g, cd_mf = record_of m gn bs, cd_size = word_of_nat (length bs)\<rparr>"
    by (simp add: recoverable_def P)
  from recovered_or_later [OF sc crash_ok [OF s4(1) assms(12)] assms(13) this] sc
  show ?thesis by (simp add: P record_of_def meta_of_def)
qed

subsection \<open>A retirement\<close>

lemma commit_retires:
  assumes "dm_fsync m" "wf_id g" "flat b" "b \<noteq> fileMeta" "disk_ok w"
    and c: "commit m (genPath g) fileMeta b w = (w1, True, None)" and o: "others m J g w1 w2" and cr: "crash w2 w3"
  shows "disk_ok w3" and "recoverable J' v w3 g = None"
proof -
  obtain u where "wf_id u" "g \<noteq> u" using other_id by metis
  then have ok1: "disk_ok w1" using commit_stays [OF c assms(2)] assms(3,5) by (auto simp: stays_def)
  have "ents w1 (hm g fileMeta) = {None}"
    using commit_own(3,5) [OF c assms(2) _ assms(3), of fileMeta] assms(1,4) by auto
  moreover have s: "disk_ok w2" "keeps g w1 w2" using others_stays [OF o assms(2)] ok1 by (simp_all add: stays_def)
  ultimately have "ents w2 (hm g fileMeta) \<subseteq> {None}" unfolding keeps_def by (metis flat_names(2) home_path_hm(1))
  then have "dirent w3 (hm g fileMeta) = None" using cr unfolding crash_def by blast
  then show "recoverable J' v w3 g = None" by (simp add: recoverable_def published_none)
  show "disk_ok w3" by (rule crash_ok [OF s(1) cr])
qed

lemma scan_sound:
  assumes "scan J v w = (w', Inr rec)" "disk_ok w" "r \<in> set (survivors rec)"
  shows "\<exists>c. recoverable J v w (rc_id r) = Some c \<and> r = toRecovered c \<and> keeps (rc_id r) w w'"
proof -
  obtain cs where cs: "survivors rec = map (\<lambda>n. toRecovered (winner n cs)) (remdups (map cd_name cs))"
    "\<And>c. c \<in> set cs \<Longrightarrow> recoverable J v w (cd_id c) = Some c"
    "\<And>c. c \<in> set cs \<Longrightarrow> keeps (cd_id (winner (cd_name c) cs)) w w'"
    using scan_spec [OF assms(1,2)] by metis
  then obtain x where x: "x \<in> set cs" "r = toRecovered (winner (cd_name x) cs)" using assms(3) by auto
  have "winner (cd_name x) cs \<in> set cs" using winner_in [of cs "cd_name x"] x(1) by blast
  then show ?thesis using cs(2) cs(3) [OF x(1)] x(2) by (auto simp: toRecovered_def Let_def)
qed

text \<open>
  C8. A claimed secret stays claimed, and a deleted clip deleted.  With \<open>fsync\<close> on, once \<open>claim\<close> or \<open>unpublish\<close> of
  a generation has returned committed and without an error, no crash afterwards and no scan, whatever fails in it
  and whatever the decoder makes of the files, brings that generation back.
\<close>

theorem claimed_never_recovered:
  assumes "dm_fsync m" and "wf_id (g_id gn)" and "disk_ok w"
    and "disk_claim m gn w = (w1, True, None) \<or> disk_unpublish m gn w = (w1, True, None)"
    and "others m J (g_id gn) w1 w2" and "crash w2 w3" and "scan J' v w3 = (w4, Inr rec)"
  shows "g_id gn \<notin> rc_id ` set (survivors rec)"
proof -
  obtain b where b: "flat b" "b \<noteq> fileMeta" "commit m (genPath (g_id gn)) fileMeta b w = (w1, True, None)"
    using assms(4) unfolding disk_claim_def disk_unpublish_def by (metis flat_names(4,5) names_distinct(10,11))
  note R = commit_retires [OF assms(1,2) b(1,2) assms(3) b(3) assms(5,6)]
  show ?thesis
  proof
    assume "g_id gn \<in> rc_id ` set (survivors rec)"
    then obtain r where "r \<in> set (survivors rec)" "rc_id r = g_id gn" by auto
    then show False using scan_sound [OF assms(7) R(1)] R(2) by fastforce
  qed
qed

subsection \<open>What a scan finds\<close>

text \<open>
  C10. A scan in which nothing fails finds exactly what it should: a recovered clip for each name, made from the
  generation with the greatest id among those on the disk whose record decodes, is of a valid name, and fits its
  directory, its data file's size and its checksum; and each survivor's files are left as they were.
\<close>

theorem scan_exact:
  assumes "disk_ok w" and "plan w = []" and "dirent w dirClips \<noteq> None"
  shows "\<exists>w' rec. scan J v w = (w', Inr rec) \<and> distinct (map rc_name (survivors rec))
    \<and> (\<forall>r. r \<in> set (survivors rec) \<longleftrightarrow> (\<exists>c. recoverable J v w (cd_id c) = Some c \<and> r = toRecovered c
          \<and> (\<forall>c'. recoverable J v w (cd_id c') = Some c' \<and> cd_name c' = cd_name c \<longrightarrow> \<not> id_after (cd_id c') (cd_id c))))
    \<and> (\<forall>r \<in> set (survivors rec). published J w' (rc_id r) = published J w (rc_id r))"
proof -
  obtain w' rec where sc: "scan J v w = (w', Inr rec)" using scan_returns [OF assms(2,3)] by metis
  obtain cs where S: "survivors rec = map (\<lambda>n. toRecovered (winner n cs)) (remdups (map cd_name cs))"
    and R: "\<And>c. c \<in> set cs \<Longrightarrow> recoverable J v w (cd_id c) = Some c"
    and all: "\<And>g c. recoverable J v w g = Some c \<Longrightarrow> c \<in> set cs"
    using scan_spec [OF sc assms(1)] assms(2) by metis
  have W: "winner (cd_name c) cs \<in> set cs \<and> cd_name (winner (cd_name c) cs) = cd_name c" if "c \<in> set cs" for c
    using winner_in [of cs "cd_name c"] that by blast
  have wf: "\<forall>c \<in> set cs. wf_id (cd_id c)" using R recoverable_id by blast
  have names: "map rc_name (survivors rec) = remdups (map cd_name cs)"
    unfolding S map_map by (rule map_idI) (use W in \<open>auto simp: toRecovered_def Let_def\<close>)
  have "(\<exists>x \<in> set cs. r = toRecovered (winner (cd_name x) cs)) \<longleftrightarrow> (\<exists>c. recoverable J v w (cd_id c) = Some c \<and> r = toRecovered c
          \<and> (\<forall>c'. recoverable J v w (cd_id c') = Some c' \<and> cd_name c' = cd_name c \<longrightarrow> \<not> id_after (cd_id c') (cd_id c)))" for r
  proof safe
    fix x assume x: "x \<in> set cs"
    have "\<not> id_after (cd_id c') (cd_id (winner (cd_name x) cs))"
      if "recoverable J v w (cd_id c') = Some c'" "cd_name c' = cd_name x" for c'
      using winner_greatest [OF wf all [OF that(1)]] that(2) by simp
    then show "\<exists>c. recoverable J v w (cd_id c) = Some c \<and> toRecovered (winner (cd_name x) cs) = toRecovered c
          \<and> (\<forall>c'. recoverable J v w (cd_id c') = Some c' \<and> cd_name c' = cd_name c \<longrightarrow> \<not> id_after (cd_id c') (cd_id c))"
      using R W [OF x] by (intro exI [of _ "winner (cd_name x) cs"]) auto
  next
    fix c assume c: "recoverable J v w (cd_id c) = Some c"
      "\<forall>c'. recoverable J v w (cd_id c') = Some c' \<and> cd_name c' = cd_name c \<longrightarrow> \<not> id_after (cd_id c') (cd_id c)"
    have cs: "c \<in> set cs" by (rule all [OF c(1)])
    let ?W = "winner (cd_name c) cs"
    have "\<not> id_after (cd_id c) (cd_id ?W)" "\<not> id_after (cd_id ?W) (cd_id c)"
      using winner_greatest [OF wf cs] c(2) R W [OF cs] by blast+
    then have "cd_id ?W = cd_id c" using id_after_lex wf W [OF cs] cs by (metis not_less_iff_gr_or_eq)
    then have "?W = c" using R [of ?W] W [OF cs] c(1) by simp
    then show "\<exists>x \<in> set cs. toRecovered c = toRecovered (winner (cd_name x) cs)" using cs by (intro bexI [of _ c]) simp_all
  qed
  moreover have "published J w' (rc_id r) = published J w (rc_id r)" if "r \<in> set (survivors rec)" for r
    using scan_sound [OF sc assms(1) that] published_keeps by blast
  moreover have "r \<in> set (survivors rec) \<longleftrightarrow> (\<exists>x \<in> set cs. r = toRecovered (winner (cd_name x) cs))" for r by (auto simp: S)
  moreover have "distinct (map rc_name (survivors rec))" unfolding names by simp
  ultimately show ?thesis using sc by simp
qed

subsection \<open>The search for a free quarantine name\<close>

lemma numbered_inj: "numbered base i = numbered base j \<Longrightarrow> i = j"
  by (auto simp: numbered_def split: if_splits dest: arg_cong [where f = dec_val])

lemma free_name_none:
  "free_name k base i w = (w', None) \<Longrightarrow> j < k \<Longrightarrow> dirent w (numbered base (i + j)) \<noteq> None"
proof (induction k arbitrary: i j w)
  case (Suc k)
  obtain w1 r where 1: "root_Stat (numbered base i) w = (w1, r)" by (metis surj_pair)
  then obtain n where n: "r = Inr n" using Suc.prems(1) by (cases r) auto
  note L = Stat_looked [OF 1]
  show ?case
  proof (cases j)
    case 0
    then show ?thesis using L n by auto
  next
    case (Suc j')
    have "free_name k base (Suc i) w1 = (w', None)" using Suc.prems(1) 1 n by simp
    then show ?thesis using Suc.IH [of "Suc i" w1 j'] Suc Suc.prems(2) L by (simp add: looked_def)
  qed
qed simp

lemma free_name_free: "free_name k base i w = (w', Some dst) \<Longrightarrow> plan w = [] \<Longrightarrow> dirent w dst = None"
  by (induction k arbitrary: i) (auto simp: root_Stat_def calm_ans split: option.splits)

text \<open>
  C39. The search for a free name under \<open>quarantine\<close>, a loop without a bound of its own, ends: as many turns as
  there are paths, and one, are enough, whatever fails, because every name refused is another path.  Without
  faults the name found is free, so an earlier quarantined copy is not clobbered.
\<close>

theorem quarantine_name_found:
  assumes "disk_ok w" and "length (paths w) < k"
  shows "\<exists>w' dst. free_name k base 0 w = (w', Some dst) \<and> (plan w = [] \<longrightarrow> dirent w dst = None)"
proof -
  obtain w' r where f: "free_name k base 0 w = (w', r)" by (metis surj_pair)
  have "r \<noteq> None"
  proof
    assume "r = None"
    then have "numbered base j \<in> set (paths w)" if "j < k" for j
      using free_name_none [of k base 0 w w' j] f that ok_sel(2) [OF assms(1)] by auto
    then have "numbered base ` {..< k} \<subseteq> set (paths w)" by auto
    then have "card (numbered base ` {..< k}) \<le> length (paths w)"
      by (meson List.finite_set card_length card_mono le_trans)
    moreover have "inj_on (numbered base) {..< k}" by (rule inj_onI) (rule numbered_inj)
    ultimately show False using assms(2) by (simp add: card_image)
  qed
  then show ?thesis using f free_name_free by (cases r) auto
qed

subsection \<open>Two generations with one id\<close>

text \<open>
  C40. When the id minted for a new generation already has a directory, \<open>create\<close> fails as its strict \<open>Mkdir\<close> means it
  to, but the clean-up on that path removes the directory that is there: the published generation, with its record
  and bytes, is gone.
\<close>

theorem create_collision_destroys:
  assumes "plan w = []" and "published J w g = Some r"
  shows "\<exists>w'. disk_create m g w = (w', Inl (Leaf OsErrExist)) \<and> published J w' g = None \<and> dirent w' (genPath g) = None"
proof -
  have "dirent w (genPath g) \<noteq> None"
    using assms(2) by (auto simp: published_def dir_there_def split: if_splits option.splits)
  then show ?thesis using assms(1)
    by (auto simp: disk_create_def openGen_def makeGenDir_def root_Mkdir_def calm_ans root_RemoveAll_def published_def dir_there_def)
qed

end
