(* ===== verification/Reboot.thy ===== *)
theory Reboot imports Durability StoreInv begin

text \<open>
  What \<open>NewDisk\<close> builds from a scan: a store in which every survivor is its name's current generation, and of which
  the invariants of the running store hold.
\<close>

definition restored_handle :: "recovered \<Rightarrow> gref \<Rightarrow> clipHandle" where
  "restored_handle r g = \<lparr>h_notify = 0, h_name = rc_name r, h_leases = 0, h_current = Some g, h_live = None,
     h_lastPrefix = prefix_of (rc_id r)\<rparr>"

text \<open>The store after the survivors \<open>rs\<close>: handle and generation \<open>i\<close> are those of the \<open>i\<close>-th.\<close>

definition restored_to :: "recovered list \<Rightarrow> (diskLog, os) store \<Rightarrow> bool" where
  "restored_to rs s \<longleftrightarrow> reg s = rev (zip (map rc_name rs) [0..<length rs]) \<and> hnext s = length rs \<and> gnext s = length rs
     \<and> (\<forall>i < length rs. hs s i = restored_handle (rs ! i) i \<and> gs s i = recovered_gen (rs ! i))"

lemma restored_lookup:
  assumes "restored_to rs s" "distinct (map rc_name rs)"
  shows "map_of (reg s) n = Some h \<longleftrightarrow> h < length rs \<and> rc_name (rs ! h) = n"
proof -
  have d: "distinct (map fst (reg s))" using assms by (simp add: restored_to_def rev_map [symmetric] distinct_rev)
  have "map_of (reg s) n = Some h \<longleftrightarrow> (n, h) \<in> set (reg s)" using d by (simp add: map_of_eq_Some_iff)
  also have "\<dots> \<longleftrightarrow> h < length rs \<and> rc_name (rs ! h) = n"
    using assms(1) by (auto simp: restored_to_def set_zip intro!: exI [of _ h])
  finally show ?thesis .
qed

lemma restore_one_to:
  assumes s: "restored_to rs s" and d: "distinct (map rc_name (rs @ [r]))"
  shows "restored_to (rs @ [r]) (restore_one r s)" and "squota (restore_one r s) = squota s" and "world (restore_one r s) = world s"
proof -
  let ?n = "length rs"
  have d': "distinct (map rc_name rs)" using d by simp
  have none: "map_of (reg s) (rc_name r) = None"
  proof (cases "map_of (reg s) (rc_name r)")
    case (Some h)
    then have "h < ?n" "rc_name (rs ! h) = rc_name r" using restored_lookup [OF s d'] by simp_all
    then have "rc_name r \<in> set (map rc_name rs)" by (metis length_map nth_map nth_mem)
    then show ?thesis using d by simp
  qed simp
  have n: "hnext s = ?n" "gnext s = ?n" using s by (simp_all add: restored_to_def)
  define s' where "s' = s\<lparr>gs := (gs s)(?n := recovered_gen r), gnext := Suc ?n,
      hs := (hs s)(?n := restored_handle r ?n), reg := (rc_name r, ?n) # reg s, hnext := Suc ?n\<rparr>"
  have e: "restore_one r s = s'"
    by (simp add: restore_one_def acquire_def n none Let_def upd_h_def newHandle_def release_def gate_peek_def
        restored_handle_def s'_def)
  show "restored_to (rs @ [r]) (restore_one r s)"
    using s unfolding e by (auto simp: restored_to_def s'_def nth_append less_Suc_eq)
  show "squota (restore_one r s) = squota s" "world (restore_one r s) = world s" by (simp_all add: e s'_def)
qed

lemma restore_to:
  assumes "distinct (map rc_name rs)"
  shows "restored_to rs (fold restore_one rs (newStore w blank c)) \<and> squota (fold restore_one rs (newStore w blank c)) = squota (newStore w blank c)
    \<and> world (fold restore_one rs (newStore w blank c)) = w"
  using assms
proof (induction rs rule: rev_induct)
  case Nil
  then show ?case by (simp add: restored_to_def newStore_def)
next
  case (snoc r rs)
  then show ?case using restore_one_to [of rs "fold restore_one rs (newStore w blank c)" r] by simp
qed

lemma restored_inv:
  assumes s: "restored_to rs s" and d: "distinct (map rc_name rs)"
    and q: "bytes (squota s) = sum_list (map rc_size rs)" "clips (squota s) = word_of_nat (length rs)"
  shows "inv (view s) ({#} :: 'k task multiset)"
proof -
  note L = restored_lookup [OF s d]
  have n: "hnext s = length rs" "gnext s = length rs" using s by (simp_all add: restored_to_def)
  have h: "hs s i = restored_handle (rs ! i) i" "gs s i = recovered_gen (rs ! i)" if "i < length rs" for i
    using s that by (simp_all add: restored_to_def)
  have held: "held (view s) g \<longleftrightarrow> g < length rs" for g
  proof
    assume "held (view s) g"
    then obtain i where "map_of (reg s) (g_name (gs s g)) = Some i" "h_current (hs s i) = Some g" by (auto simp: held_def)
    then have "i < length rs" "h_current (hs s i) = Some g" using L by auto
    then show "g < length rs" using h(1) [of i] by (simp add: restored_handle_def)
  next
    assume g: "g < length rs"
    then have "map_of (reg s) (g_name (gs s g)) = Some g" using L h(2) [OF g] by (simp add: recovered_gen_def)
    then show "held (view s) g" using h [OF g] by (auto simp: held_def recovered_gen_def restored_handle_def)
  qed
  have "inv_reg (view s) ({#} :: 'k task multiset)"
    unfolding inv_reg_def view_sel L n using h by (auto simp: lease_count_def restored_handle_def)
  moreover have "inv_ptr (view s) ({#} :: 'k task multiset)"
    unfolding inv_ptr_def view_sel n using h by (auto simp: restored_handle_def recovered_gen_def)
  moreover have "inv_own (view s) ({#} :: 'k task multiset)" by (simp add: inv_own_def owners_def held n)
  moreover have "inv_quota (view s) ({#} :: 'k task multiset)"
  proof -
    have "(\<Sum>g < length rs. of_nat (owners t_bytes (view s) ({#} :: 'k task multiset) g) * bsize (g_buf (gs s g))) = (\<Sum>g < length rs. rc_size (rs ! g))"
      by (rule sum.cong) (auto simp: owners_def held h recovered_gen_def newSealedBuffer_def)
    also have "\<dots> = sum_list (map rc_size rs)" by (simp add: sum_list_sum_nth atLeast0LessThan)
    finally have b: "(\<Sum>g < length rs. of_nat (owners t_bytes (view s) ({#} :: 'k task multiset) g) * bsize (g_buf (gs s g))) = bytes (squota s)"
      using q(1) by simp
    have "(\<Sum>g < length rs. of_nat (owners t_slot (view s) ({#} :: 'k task multiset) g) :: int64) = (\<Sum>g < length rs. 1)"
      by (rule sum.cong) (auto simp: owners_def held)
    then show ?thesis unfolding inv_quota_def view_sel n using b q(2) by simp
  qed
  ultimately show ?thesis by (simp add: inv_def)
qed

lemma mk_ok:
  assumes "mk p w = (w', r)" "disk_ok w"
  shows "disk_ok w'"
  using assms Mkdir_law(1) [of w p] by (auto simp: mk_def split: prod.splits option.splits if_splits)

lemma ensureDirs_ok:
  assumes "ensureDirs m w = (w', e)" "disk_ok w"
  shows "disk_ok w'"
proof -
  obtain w1 a where 1: "mk dirClips w = (w1, a)" by (metis surj_pair)
  obtain w2 b where 2: "mk dirQuarantine w1 = (w2, b)" by (metis surj_pair)
  obtain w3 d where 3: "syncDir ''.'' w2 = (w3, d)" by (metis surj_pair)
  have "disk_ok w1" "disk_ok w2" "disk_ok w3"
    using mk_ok [OF 1 assms(2)] mk_ok [OF 2] syncDir_law(1) [OF _ 3] by auto
  then show ?thesis using assms(1) by (auto simp: ensureDirs_def 1 2 3 split: sum.splits if_splits)
qed


end
