(* ===== verification/DiskDemo.thy ===== *)
theory DiskDemo imports Durability Reboot begin

text \<open>A run of the disk medium on an empty disk, for the witnesses: an upload of two bytes, stopped where they need it.\<close>

definition dd_m :: diskMedium where
  "dd_m = \<lparr>dm_fsync = True, dm_checksum = False\<rparr>"

definition dd_cfg :: Config where
  "dd_cfg = \<lparr>MaxClip = 10, MaxTotal = 20, MaxClips = 3, DefaultTTL = 0\<rparr>"

definition dd_blank :: os where
  "dd_blank = \<lparr>inode = (\<lambda>_. []), clean = (\<lambda>_. True), dirent = (\<lambda>_. None), ents = (\<lambda>_. {None}), isdir = (\<lambda>_. False),
     paths = [], inext = 1, fds = (\<lambda>_. None), fnext = 0, plan = []\<rparr>"

definition dd_w0 :: os where
  "dd_w0 = fst (ensureDirs dd_m dd_blank)"

definition dd_gen :: "diskLog buffer \<Rightarrow> diskLog generation" where
  "dd_gen b = \<lparr>g_id = zero_id, g_name = ''a'', g_meta = \<lparr>Kind = KindBytes, Filename = '''', Executable = False\<rparr>, g_created = 0, g_ttl = 0,
     g_finalized = 0, g_expires = 0, g_consume = True, g_state = genLive, g_buf = b\<rparr>"

definition dd_w1 :: os where "dd_w1 = fst (disk_create dd_m zero_id dd_w0)"
definition dd_b1 :: "diskLog buffer" where "dd_b1 = projr (snd (disk_create dd_m zero_id dd_w0))"

definition dd_append :: "diskLog buffer \<times> os \<times> nat \<times> err option" where
  "dd_append = buf_Append diskLogB [7, 9] dd_b1 dd_w1"
definition dd_b2 :: "diskLog buffer" where "dd_b2 = fst dd_append"
definition dd_w2 :: os where "dd_w2 = fst (snd dd_append)"
definition dd_w3 :: os where "dd_w3 = fst (snd (buf_Sync diskLogB dd_b2 dd_w2))"

definition dd_record :: metaFile where
  "dd_record = \<lparr>mf_Version = 1, mf_Name = ''a'', mf_Generation = ''00000000000000000000000000000000'', mf_Kind = KindBytes,
     mf_Filename = '''', mf_Executable = False, mf_Size = 2, mf_CreatedAt = 0, mf_FinalizedAt = 0, mf_ExpiresAt = 0,
     mf_ConsumeOnce = True, mf_Checksum = ''''\<rparr>"

text \<open>A codec that knows one record.\<close>

definition dd_J :: codec where
  "dd_J = \<lparr>json_Marshal = (\<lambda>mf. Inr [123]), json_Unmarshal = (\<lambda>b. Inr dd_record)\<rparr>"

definition dd_w4 :: os where "dd_w4 = fst (disk_finalize dd_m dd_J (dd_gen dd_b2) dd_w3)"

text \<open>The machine stops, and keeps what the running system saw last.\<close>

definition stop :: "os \<Rightarrow> os" where
  "stop w = w\<lparr>ents := (\<lambda>p. {dirent w p}), clean := (\<lambda>_. True), fds := (\<lambda>_. None)\<rparr>"

lemma stop_crash: "disk_ok w \<Longrightarrow> crash w (stop w)"
  using ok_sel(1,2) [of w] by (auto simp: crash_def stop_def)

lemma dd_create: "disk_create dd_m zero_id dd_w0 = (dd_w1, Inr dd_b1)"
proof -
  have "\<not> (case snd (disk_create dd_m zero_id dd_w0) of Inl e \<Rightarrow> True | Inr b \<Rightarrow> False)" by code_simp
  then show ?thesis by (cases "disk_create dd_m zero_id dd_w0") (auto simp: dd_w1_def dd_b1_def split: sum.splits)
qed

lemma dd_appended: "buf_Append diskLogB [7, 9] dd_b1 dd_w1 = (dd_b2, dd_w2, 2, None)"
proof -
  have "snd (snd dd_append) = (2, None)" by code_simp
  then show ?thesis unfolding dd_b2_def dd_w2_def dd_append_def by (metis prod.collapse)
qed

lemma dd_ok0: "disk_ok dd_w0"
proof -
  have "disk_ok dd_blank" by (auto simp: disk_ok_def dd_blank_def owned_def)
  then show ?thesis unfolding dd_w0_def by (metis ensureDirs_ok fst_conv surj_pair)
qed

lemma dd_vacant: "vacant dd_w0 zero_id"
  unfolding vacant_def
proof (intro allI impI)
  fix p assume "home_path zero_id p"
  then have "38 \<le> length p" using len_path [of zero_id] by (auto simp: home_path_def slash_def)
  moreover have "paths dd_w0 = [dirClips, dirQuarantine]" by code_simp
  ultimately have "p \<notin> set (paths dd_w0)" by (auto simp: dirClips_def dirQuarantine_def)
  then show "dirent dd_w0 p = None" using ok_sel(2) [OF dd_ok0, of p] by (cases "dirent dd_w0 p") auto
qed

lemma dd_uploading: "uploading dd_m dd_J zero_id dd_w2 dd_b2 [7, 9]"
  using uploading.append [OF uploading.start [OF dd_ok0 dd_vacant dd_create] dd_appended] by simp

lemma dd_synced: "buf_Sync diskLogB dd_b2 dd_w2 = (dd_b2, dd_w3, None)"
proof -
  have "snd (snd (buf_Sync diskLogB dd_b2 dd_w2)) = None" by code_simp
  moreover obtain d j where "in_progress dd_m zero_id dd_w2 dd_b2 [7, 9] d j"
    using uploading_progress [OF dd_uploading] by auto
  then have "fst (buf_Sync diskLogB dd_b2 dd_w2) = dd_b2"
    using sync_own(7) by (metis in_progress_def prod.collapse)
  ultimately show ?thesis unfolding dd_w3_def by (metis prod.collapse)
qed

lemma dd_finalized: "disk_finalize dd_m dd_J (dd_gen dd_b2) dd_w3 = (dd_w4, True, None)"
proof -
  have "snd (disk_finalize dd_m dd_J (dd_gen dd_b2) dd_w3) = (True, None)" by code_simp
  then show ?thesis unfolding dd_w4_def by (metis prod.collapse)
qed

lemma dd_claimed: "snd (disk_claim dd_m (dd_gen dd_b2) dd_w4) = (True, None)"
  by code_simp

lemma dd_stopped: "plan (stop dd_w4) = []" "dirent (stop dd_w4) dirClips = Some 1"
  by code_simp+

lemma dd_progress: "\<exists>d j. in_progress dd_m zero_id dd_w2 dd_b2 [7, 9] d j \<and> in_progress dd_m zero_id dd_w3 dd_b2 [7, 9] d j"
proof -
  obtain d j where p: "in_progress dd_m zero_id dd_w2 dd_b2 [7, 9] d j"
    using uploading_progress [OF dd_uploading] by auto
  obtain l where "bback dd_b2 = LogDisk l" using p by (auto simp: in_progress_def writes_to_def)
  then show ?thesis using p progress_keeps [OF p sync_stays [OF dd_synced]] by blast
qed

lemma dd_codec: "record_of dd_m (dd_gen dd_b2) bs = dd_record" "codec_fits dd_J dd_record"
proof -
  have "bsize dd_b2 = 2" using dd_progress by (auto simp: in_progress_def)
  moreover have "genID_String zero_id = ''00000000000000000000000000000000''" by code_simp
  ultimately show "record_of dd_m (dd_gen dd_b2) bs = dd_record"
    by (simp add: record_of_def meta_of_def dd_gen_def dd_record_def dd_m_def metaVersion_def)
  show "codec_fits dd_J dd_record" by (simp add: codec_fits_def dd_J_def dd_record_def metaVersion_def maxMetaBytes_def)
qed

lemma dd_id [simp]: "g_id (dd_gen b) = zero_id" "g_buf (dd_gen b) = b" "g_name (dd_gen b) = ''a''"
  by (simp_all add: dd_gen_def)

lemma dd_run:
  "disk_run dd_m dd_J dd_w0 [Begin zero_id, Grow zero_id, Grow zero_id, Publish zero_id (dd_record, [7, 9]) True] dd_w4"
proof -
  obtain d j where p: "in_progress dd_m zero_id dd_w2 dd_b2 [7, 9] d j" "in_progress dd_m zero_id dd_w3 dd_b2 [7, 9] d j"
    using dd_progress by blast
  obtain d1 j1 where p1: "in_progress dd_m zero_id dd_w1 dd_b1 [] d1 j1"
    using uploading_progress [OF uploading.start [OF dd_ok0 dd_vacant dd_create]] by auto
  have h: "live_home dd_w1 zero_id d1 j1" "writes_to dd_b1 dd_w1 j1" "live_home dd_w2 zero_id d j" "writes_to dd_b2 dd_w2 j"
    "live_home dd_w3 zero_id d j" "inode dd_w3 j = [7, 9]"
    using p p1 by (simp_all add: in_progress_def)
  have "disk_call dd_m dd_J dd_w0 (Begin zero_id) dd_w1" by (rule disk_call.create [OF _ dd_vacant dd_create]) simp
  moreover have "disk_call dd_m dd_J dd_w1 (Grow zero_id) dd_w2" by (rule disk_call.append [OF _ h(1,2) dd_appended]) simp
  moreover have "disk_call dd_m dd_J dd_w2 (Grow zero_id) dd_w3" by (rule disk_call.fsync [OF _ h(3,4) dd_synced]) simp
  moreover have "disk_call dd_m dd_J dd_w3 (Publish zero_id (dd_record, [7, 9]) True) dd_w4"
    using disk_call.finalize [of "dd_gen dd_b2" dd_w3 d j dd_J dd_m dd_w4 True None] h(5,6) dd_finalized dd_codec by simp
  ultimately show ?thesis by (blast intro: disk_run.intros)
qed


lemma dd_ok4: "disk_ok dd_w4"
proof -
  obtain d j where p: "in_progress dd_m zero_id dd_w3 dd_b2 [7, 9] d j" using dd_progress by blast
  obtain u where "wf_id u" "zero_id \<noteq> u" using other_id by metis
  then show ?thesis using finalize_stays [OF dd_finalized] p by (auto simp: stays_def in_progress_def)
qed

lemma dd_fs: "dm_fsync dd_m"
  by (simp add: dd_m_def)

lemma stop_published: "published J (stop w) g = published J w g"
proof -
  have e: "dirent (stop w) = dirent w" "inode (stop w) = inode w" "isdir (stop w) = isdir w" by (simp_all add: stop_def)
  show ?thesis unfolding published_def dir_there_def e ..
qed

lemma dd_name: "ValidName ''a'' = None"
  by code_simp

theorem acknowledged_upload_survives_crash_witness:
  "\<exists>w rec. scan dd_J True (stop dd_w4) = (w, Inr rec) \<and> (\<exists>r \<in> set (survivors rec). rc_name r = ''a'' \<and>
    (r = toRecovered \<lparr>cd_id = zero_id, cd_mf = dd_record, cd_size = 2\<rparr> \<and> published dd_J w zero_id = Some (dd_record, [7, 9])
     \<or> id_after (rc_id r) zero_id))"
  using acknowledged_upload_survives_crash [where v = True, OF _ _ dd_uploading dd_synced _ _ _ _ _ dd_finalized _ stop_crash [OF dd_ok4]
      dd_stopped(1)] dd_stopped(2) dd_codec dd_name
  by (simp add: others_def dd_fs)

theorem claimed_never_recovered_witness:
  "\<exists>w w'. disk_claim dd_m (dd_gen dd_b2) dd_w4 = (w, True, None) \<and> crash w w' 
    \<and> (\<forall>w'' rec. scan dd_J True w' = (w'', Inr rec) \<longrightarrow> zero_id \<notin> rc_id ` set (survivors rec))"
proof -
  obtain w where c: "disk_claim dd_m (dd_gen dd_b2) dd_w4 = (w, True, None)" using dd_claimed by (metis prod.collapse)
  obtain u where "wf_id u" "zero_id \<noteq> u" using other_id by metis
  then have "disk_ok w" using commit_stays [OF c [unfolded disk_claim_def], of u] dd_ok4 by (auto simp: stays_def)
  then have cr: "crash w (stop w)" by (rule stop_crash)
  have "others dd_m dd_J (g_id (dd_gen dd_b2)) w w" by (simp add: others_def)
  then show ?thesis
    using claimed_never_recovered [OF _ _ dd_ok4 disjI1 [OF c] _ cr, of dd_J dd_J True] c cr by (auto simp: dd_m_def)
qed

lemma dd_ok5: "disk_ok (stop dd_w4)"
  by (rule crash_ok [OF dd_ok4 stop_crash [OF dd_ok4]])

theorem scan_exact_witness:
  "\<exists>w' rec. scan dd_J True (stop dd_w4) = (w', Inr rec) \<and> distinct (map rc_name (survivors rec))"
  using scan_exact [where v = True and J = dd_J, OF dd_ok5 dd_stopped(1)] dd_stopped(2) by (simp only:) blast

theorem quarantine_name_found_witness: "\<exists>w' dst. free_name 9 ''quarantine/x'' 0 dd_w0 = (w', Some dst)"
proof -
  have "length (paths dd_w0) < 9" by code_simp
  then show ?thesis using quarantine_name_found [OF dd_ok0, of 9 "''quarantine/x''"] by blast
qed

theorem create_collision_destroys_witness:
  "\<exists>w'. disk_create dd_m zero_id (stop dd_w4) = (w', Inl (Leaf OsErrExist)) \<and> published dd_J w' zero_id = None"
proof -
  have "published dd_J dd_w4 zero_id = Some (dd_record, [7, 9])" 
    using finalize_own(1) [OF dd_finalized, of zero_id] dd_progress dd_codec by (auto simp: in_progress_def)
  then have "published dd_J (stop dd_w4) zero_id = Some (dd_record, [7, 9])"
    by (simp add: stop_published)
  then show ?thesis using create_collision_destroys [OF dd_stopped(1), where m = dd_m] by blast
qed


end
