(* ===== verification/Spec2Isabelle.thy ===== *)
theory Spec2Isabelle imports Clip GenId Quota DiskBacking Streams StoreDemo StoreWake EndToEnd CliParse DiskDemo begin

text \<open>
  A verification development for buff, a clipboard relay: a store of named clips with followable
  uploads, consume-once delivery and retention, served over HTTP and driven by a command line client.
\<close>

end
